(* ===== verification/Go_Float.thy ===== *)
theory Go_Float
  imports Complex_Main "HOL-Library.Log_Nat"
begin

section \<open>Go floating point\<close>

text \<open>
  The values of \<open>float64\<close> and \<open>float32\<close> that the program computes with are
  rational numbers, and every arithmetic operation is the exact operation followed by
  rounding to nearest, ties to even, at 53 or 24 significant bits (IEEE 754, which the Go
  language prescribes).  The exponent range is not bounded: no quantity of the program
  comes near the overflow or the underflow threshold.  Not-a-number and the infinities
  are not represented.
\<close>

type_synonym float64 = rat
type_synonym float32 = rat

subsection \<open>Rounding to an integer\<close>

definition round_even :: "rat \<Rightarrow> int" where
  "round_even x =
     (let f = \<lfloor>x\<rfloor>; d = x - of_int f
      in if d < 1/2 then f else if 1/2 < d then f + 1 else if even f then f else f + 1)"

lemma round_even_of_int [simp]: "round_even (of_int n) = n"
  by (simp add: round_even_def)

lemma round_even_error: "\<bar>of_int (round_even x) - x\<bar> \<le> 1/2"
proof -
  have "of_int \<lfloor>x\<rfloor> \<le> x" "x < of_int \<lfloor>x\<rfloor> + 1" by linarith+
  then show ?thesis by (simp add: round_even_def Let_def abs_le_iff)
qed

lemma round_even_mono:
  assumes "x \<le> y" shows "round_even x \<le> round_even y"
proof (cases "\<lfloor>x\<rfloor> = \<lfloor>y\<rfloor>")
  case True
  then show ?thesis using assms by (auto simp: round_even_def Let_def)
next
  case False
  with assms have "\<lfloor>x\<rfloor> + 1 \<le> \<lfloor>y\<rfloor>" by (metis floor_mono le_neq_trans zless_imp_add1_zle)
  moreover have "round_even x \<le> \<lfloor>x\<rfloor> + 1" and "\<lfloor>y\<rfloor> \<le> round_even y"
    by (auto simp: round_even_def Let_def)
  ultimately show ?thesis by linarith
qed

lemma round_even_neg: "round_even (- x) = - round_even x"
proof (cases "x = of_int \<lfloor>x\<rfloor>")
  case True
  then show ?thesis by (metis of_int_minus round_even_of_int)
next
  case False
  then have c: "\<lceil>x\<rceil> = \<lfloor>x\<rfloor> + 1" by (metis ceiling_altdef)
  then have f: "\<lfloor>- x\<rfloor> = - \<lfloor>x\<rfloor> - 1" by (simp add: floor_minus)
  show ?thesis by (simp add: round_even_def Let_def f)
qed

subsection \<open>Rounding to a number of significant bits\<close>

definition expo :: "rat \<Rightarrow> int" where
  "expo x =
     (let (n, d) = quotient_of \<bar>x\<bar>; g = bitlen n - bitlen d
      in if \<bar>x\<bar> < 2 powi g then g - 1 else g)"

text \<open>The unit in the last place of \<open>x\<close> at \<open>p\<close> significant bits.\<close>

definition ulp :: "nat \<Rightarrow> rat \<Rightarrow> rat" where
  "ulp p x = 2 powi (expo x - int p + 1)"

definition rnd :: "nat \<Rightarrow> rat \<Rightarrow> rat" where
  "rnd p x = (if x = 0 then 0 else of_int (round_even (x / ulp p x)) * ulp p x)"

definition fl64 :: "rat \<Rightarrow> float64" where "fl64 = rnd 53"
definition fl32 :: "rat \<Rightarrow> float32" where "fl32 = rnd 24"

lemma powi_pos [simp]: "0 < (2::rat) powi k"
  by simp

lemma powi_less_iff: "(2::rat) powi a < 2 powi b \<longleftrightarrow> a < b"
  by (metis not_less power_int_increasing power_int_strict_increasing one_le_numeral one_less_numeral_iff semiring_norm(76))

lemma powi_le_iff: "(2::rat) powi a \<le> 2 powi b \<longleftrightarrow> a \<le> b"
  using powi_less_iff [of b a] by linarith

lemma ulp_pos [simp]: "0 < ulp p x" "ulp p x \<noteq> 0" "0 \<le> ulp p x"
  by (simp_all add: ulp_def less_imp_le)

lemma ulp_neg [simp]: "ulp p (- x) = ulp p x"
  by (simp add: ulp_def expo_def)

lemma expo_bounds:
  assumes "x \<noteq> 0"
  shows "2 powi expo x \<le> \<bar>x\<bar>" and "\<bar>x\<bar> < 2 powi (expo x + 1)"
proof -
  obtain n d where q: "quotient_of \<bar>x\<bar> = (n, d)" by force
  then have d: "0 < d" and x: "\<bar>x\<bar> = of_int n / of_int d"
    by (simp_all add: quotient_of_denom_pos quotient_of_div)
  have "0 < (of_int n / of_int d :: rat)" using assms by (simp flip: x)
  then have n: "0 < n" using d by (simp add: zero_less_divide_iff)
  define a b where "a = nat (bitlen n - 1)" and "b = nat (bitlen d - 1)"
  have "1 \<le> bitlen n" "1 \<le> bitlen d"
    using n d by (simp_all add: bitlen_ge_iff_power)
  then have bn: "bitlen n = int a + 1" "bitlen d = int b + 1"
    by (simp_all add: a_def b_def)
  have "2 ^ a \<le> n" "n < 2 ^ (a + 1)" "2 ^ b \<le> d" "d < 2 ^ (b + 1)"
    using bitlen_bounds [OF n] bitlen_bounds [OF d] by (simp_all add: bn nat_add_distrib)
  then have B: "(2::rat) ^ a \<le> of_int n" "of_int n < (2::rat) ^ (a + 1)"
      "(2::rat) ^ b \<le> of_int d" "of_int d < (2::rat) ^ (b + 1)"
    by (metis of_int_le_iff of_int_less_iff of_int_numeral of_int_power)+
  have lo: "2 powi (int a - int b - 1) \<le> \<bar>x\<bar>"
  proof -
    have "(2::rat) powi (int a - int b - 1) = 2 ^ a / 2 ^ (b + 1)"
      by (simp add: power_int_diff)
    also have "\<dots> \<le> of_int n / of_int d"
      using B d n by (intro frac_le) auto
    finally show ?thesis by (simp add: x)
  qed
  have hi: "\<bar>x\<bar> < 2 powi (int a - int b + 1)"
  proof -
    have "of_int n / of_int d < (2::rat) ^ (a + 1) / 2 ^ b"
      using B d n by (intro frac_less) auto
    also have "\<dots> = 2 powi (int a - int b + 1)"
      by (simp add: power_int_diff power_int_add)
    finally show ?thesis by (simp add: x)
  qed
  have e: "expo x = (if \<bar>x\<bar> < 2 powi (int a - int b) then int a - int b - 1 else int a - int b)"
    by (simp add: expo_def q bn)
  show "2 powi expo x \<le> \<bar>x\<bar>" and "\<bar>x\<bar> < 2 powi (expo x + 1)"
    using lo hi by (simp_all add: e)
qed

lemma expo_unique:
  assumes "2 powi e \<le> \<bar>x\<bar>" and "\<bar>x\<bar> < 2 powi (e + 1)"
  shows "expo x = e"
proof -
  have x: "x \<noteq> 0" using assms(1) powi_pos [of e] by (metis abs_zero not_le)
  note b = expo_bounds [OF x]
  have "(2::rat) powi e < 2 powi (expo x + 1)" "(2::rat) powi expo x < 2 powi (e + 1)"
    using assms b by linarith+
  then have "e < expo x + 1" "expo x < e + 1"
    using powi_le_iff [of "expo x + 1" e] powi_le_iff [of "e + 1" "expo x"] by linarith+
  then show ?thesis by linarith
qed

lemma expo_mono:
  assumes "0 < x" and "x \<le> y" shows "expo x \<le> expo y"
proof -
  have "(2::rat) powi expo x < 2 powi (expo y + 1)"
    using expo_bounds(1) [of x] expo_bounds(2) [of y] assms by simp
  then have "expo x < expo y + 1"
    using powi_le_iff [of "expo y + 1" "expo x"] by linarith
  then show ?thesis by linarith
qed

lemma rnd_zero [simp]: "rnd p 0 = 0"
  by (simp add: rnd_def)

lemma expo_neg [simp]: "expo (- x) = expo x"
  by (simp add: expo_def)

lemma rnd_neg: "rnd p (- x) = - rnd p x"
proof -
  have "- x / ulp p x = - (x / ulp p x)" by simp
  then show ?thesis by (simp add: rnd_def round_even_neg)
qed

lemma rnd_error: "\<bar>rnd p x - x\<bar> \<le> \<bar>x\<bar> / 2 ^ p"
proof (cases "x = 0")
  case False
  let ?u = "ulp p x"
  have u: "1/2 * ?u = 2 powi expo x / 2 ^ p"
    by (simp add: ulp_def power_int_add power_int_diff)
  have "rnd p x - x = (of_int (round_even (x / ?u)) - x / ?u) * ?u"
    using False by (simp add: rnd_def left_diff_distrib)
  then have "\<bar>rnd p x - x\<bar> = \<bar>of_int (round_even (x / ?u)) - x / ?u\<bar> * ?u"
    by (simp add: abs_mult)
  also have "\<dots> \<le> 1/2 * ?u"
    by (intro mult_right_mono round_even_error) auto
  also have "\<dots> \<le> \<bar>x\<bar> / 2 ^ p"
    unfolding u using expo_bounds(1) [OF False] by (intro divide_right_mono) auto
  finally show ?thesis .
qed simp

text \<open>Numbers of at most \<open>p\<close> significant bits are not changed.\<close>

lemma rnd_exact:
  assumes m: "\<bar>m\<bar> \<le> 2 ^ p" and p: "0 < p"
  shows "rnd p (of_int m * 2 powi k) = of_int m * 2 powi k"
proof (cases "m = 0")
  case False
  let ?x = "of_int m * 2 powi k :: rat"
  have x: "?x \<noteq> 0" using False by simp
  have eq: "rnd p ?x = ?x" if "?x / ulp p ?x = of_int n" for n
  proof -
    have "rnd p ?x = of_int n * ulp p ?x" unfolding rnd_def that using x by simp
    also have "\<dots> = ?x" unfolding that [symmetric] by simp
    finally show ?thesis .
  qed
  have absx: "\<bar>?x\<bar> = of_int \<bar>m\<bar> * 2 powi k" by (simp add: abs_mult)
  show ?thesis
  proof (cases "\<bar>m\<bar> = 2 ^ p")
    case True
    then have ax: "\<bar>?x\<bar> = 2 powi (int p + k)"
      unfolding absx by (simp add: power_int_add)
    then have e: "expo ?x = int p + k"
      by (intro expo_unique) (simp_all only: ax powi_le_iff powi_less_iff)
    have m: "m = sgn m * 2 ^ p" using True by (metis mult.commute mult_sgn_abs)
    have "(of_int m :: rat) = of_int (sgn m * 2 ^ (p - 1)) * 2"
      by (subst m) (use p in \<open>cases p; simp\<close>)
    then have "?x / 2 powi (k + 1) = of_int (sgn m * 2 ^ (p - 1))"
      by (simp add: power_int_add)
    then have "?x / ulp p ?x = of_int (sgn m * 2 ^ (p - 1))" by (simp add: ulp_def e add.commute)
    then show ?thesis by (rule eq)
  next
    case ne: False
    with m have "\<bar>m\<bar> < 2 ^ p" by simp
    then have "of_int \<bar>m\<bar> < (2::rat) ^ p" by (metis of_int_less_iff of_int_numeral of_int_power)
    then have "\<bar>?x\<bar> < 2 ^ p * 2 powi k" unfolding absx by simp
    then have "(2::rat) powi expo ?x < 2 powi (int p + k)"
      using expo_bounds(1) [OF x] by (simp add: power_int_add)
    then have e: "expo ?x < int p + k" by (simp only: powi_less_iff)
    define n where "n = nat (k - (expo ?x - int p + 1))"
    have k: "k = int n + (expo ?x - int p + 1)" using e by (simp add: n_def)
    have "(2::rat) powi k = 2 ^ n * 2 powi (expo ?x - int p + 1)"
      by (subst k) (simp add: power_int_add)
    then have "?x = of_int (m * 2 ^ n) * ulp p ?x" by (simp add: ulp_def)
    then have "?x / ulp p ?x = of_int (m * 2 ^ n)" by (metis nonzero_eq_divide_eq ulp_pos(2))
    then show ?thesis by (rule eq)
  qed
qed simp

corollary rnd_int: "\<bar>m\<bar> \<le> 2 ^ p \<Longrightarrow> 0 < p \<Longrightarrow> rnd p (of_int m) = of_int m"
  using rnd_exact [of m p 0] by simp

lemma rnd_nonneg: "0 \<le> x \<Longrightarrow> 0 \<le> rnd p x"
  using round_even_mono [of 0 "x / ulp p x"] round_even_of_int [of 0]
  by (auto simp: rnd_def)

lemma rnd_between:
  assumes x: "0 < x" and p: "0 < p"
  shows "2 powi expo x \<le> rnd p x" and "rnd p x \<le> 2 powi (expo x + 1)"
proof -
  define u where "u = ulp p x"
  have u: "0 < u" by (simp add: u_def)
  have s: "(2::rat) ^ (p - 1) * u = 2 powi expo x" "(2::rat) ^ p * u = 2 powi (expo x + 1)"
    using p by (cases p; simp add: u_def ulp_def power_int_add power_int_diff field_simps)+
  have r: "rnd p x = of_int (round_even (x / u)) * u"
    using x by (simp add: rnd_def u_def)
  have "of_int (2 ^ (p - 1)) \<le> x / u" "x / u \<le> of_int (2 ^ p)"
    using expo_bounds [of x] x u s by (simp_all add: pos_le_divide_eq pos_divide_le_eq)
  then have "2 ^ (p - 1) \<le> round_even (x / u)" "round_even (x / u) \<le> 2 ^ p"
    using round_even_mono round_even_of_int by (metis)+
  then have "(2::rat) ^ (p - 1) \<le> of_int (round_even (x / u))"
      "of_int (round_even (x / u)) \<le> (2::rat) ^ p"
    by (metis of_int_le_iff of_int_numeral of_int_power)+
  then show "2 powi expo x \<le> rnd p x" and "rnd p x \<le> 2 powi (expo x + 1)"
    unfolding r s [symmetric] using u by (simp_all add: mult_right_mono)
qed

lemma rnd_mono_pos:
  assumes x: "0 < x" and xy: "x \<le> y" and p: "0 < p"
  shows "rnd p x \<le> rnd p y"
proof (cases "expo x = expo y")
  case True
  then have u: "ulp p x = ulp p y" by (simp add: ulp_def)
  have "round_even (x / ulp p y) \<le> round_even (y / ulp p y)"
    using xy by (intro round_even_mono divide_right_mono) simp_all
  then show ?thesis
    using x xy u by (simp add: rnd_def mult_right_mono)
next
  case False
  with expo_mono [OF x xy] have "expo x + 1 \<le> expo y" by simp
  then have "(2::rat) powi (expo x + 1) \<le> 2 powi expo y" by (simp only: powi_le_iff)
  then show ?thesis
    using rnd_between(2) [OF x p] rnd_between(1) [of y p] x xy p by linarith
qed

lemma rnd_mono:
  assumes xy: "x \<le> y" and p: "0 < p"
  shows "rnd p x \<le> rnd p y"
proof -
  consider "0 < x" | "x \<le> 0" "0 \<le> y" | "y < 0" by linarith
  then show ?thesis
  proof cases
    case 1
    then show ?thesis using xy p by (rule rnd_mono_pos)
  next
    case 2
    then show ?thesis
      using rnd_nonneg [of "- x" p] rnd_nonneg [of y p] by (simp add: rnd_neg)
  next
    case 3
    then show ?thesis
      using rnd_mono_pos [of "- y" "- x" p] xy p by (simp add: rnd_neg)
  qed
qed

lemma rnd_idem:
  assumes p: "0 < p"
  shows "rnd p (rnd p x) = rnd p x"
proof (cases "x = 0")
  case False
  define m where "m = round_even (x / ulp p x)"
  have "\<bar>rnd p x\<bar> \<le> 2 powi (expo x + 1)"
  proof (cases "0 < x")
    case True
    then show ?thesis using rnd_between(2) [OF True p] rnd_nonneg [of x p] by simp
  next
    case neg: False
    then have "0 < - x" using False by simp
    from rnd_between(2) [OF this p] rnd_nonneg [of "- x" p] show ?thesis
      using neg by (simp add: rnd_neg)
  qed
  moreover have "\<bar>rnd p x\<bar> = \<bar>of_int m\<bar> * ulp p x"
    using False by (simp add: rnd_def m_def abs_mult)
  moreover have "2 powi (expo x + 1) = 2 ^ p * ulp p x"
    by (simp add: ulp_def power_int_add power_int_diff)
  ultimately have "\<bar>of_int m\<bar> * ulp p x \<le> 2 ^ p * ulp p x" by simp
  then have "(of_int \<bar>m\<bar> :: rat) \<le> of_int (2 ^ p)" by simp
  then have "\<bar>m\<bar> \<le> 2 ^ p" by (simp only: of_int_le_iff)
  moreover have "rnd p x = of_int m * 2 powi (expo x - int p + 1)"
    using False by (simp add: rnd_def m_def ulp_def)
  ultimately show ?thesis using rnd_exact p by metis
qed simp

subsection \<open>The interface of a rounding operation\<close>

text \<open>
  What the components rely on: rounding is monotone, exact on small integers, idempotent,
  and has a relative error of half a unit in the last place.
\<close>

locale rounding =
  fixes fl :: "rat \<Rightarrow> rat" and prec :: nat
  assumes mono: "x \<le> y \<Longrightarrow> fl x \<le> fl y"
    and exact_int: "\<bar>m\<bar> \<le> 2 ^ prec \<Longrightarrow> fl (of_int m) = of_int m"
    and idem: "fl (fl x) = fl x"
    and rel_err: "\<bar>fl x - x\<bar> \<le> \<bar>x\<bar> / 2 ^ prec"
begin

lemma zero [simp]: "fl 0 = 0"
  using exact_int [of 0] by simp

lemma one [simp]: "fl 1 = 1"
  using exact_int [of 1] by simp

lemma nonneg: "0 \<le> x \<Longrightarrow> 0 \<le> fl x"
  using mono [of 0 x] by simp

lemma nonpos: "x \<le> 0 \<Longrightarrow> fl x \<le> 0"
  using mono [of x 0] by simp

lemma ge_one: "1 \<le> x \<Longrightarrow> 1 \<le> fl x"
  using mono [of 1 x] by simp

lemma le_int: "x \<le> of_int m \<Longrightarrow> \<bar>m\<bar> \<le> 2 ^ prec \<Longrightarrow> fl x \<le> of_int m"
  using mono [of x "of_int m"] exact_int [of m] by simp

lemma le_self: "fl y = y \<Longrightarrow> x \<le> y \<Longrightarrow> fl x \<le> y"
  using mono [of x y] by simp

lemma upper: "0 \<le> x \<Longrightarrow> fl x \<le> x * (1 + 1 / 2 ^ prec)"
  using rel_err [of x] by (simp add: algebra_simps abs_le_iff)

lemma upper_add: "0 \<le> x \<Longrightarrow> fl x \<le> x + x / 2 ^ prec"
  using rel_err [of x] by (simp add: abs_le_iff)

lemma lower: "0 \<le> x \<Longrightarrow> x * (1 - 1 / 2 ^ prec) \<le> fl x"
  using rel_err [of x] by (simp add: algebra_simps abs_le_iff)

end

interpretation f64: rounding fl64 53
  by unfold_locales (simp_all only: fl64_def rnd_mono rnd_int rnd_idem rnd_error zero_less_numeral)

interpretation f32: rounding fl32 24
  by unfold_locales (simp_all only: fl32_def rnd_mono rnd_int rnd_idem rnd_error zero_less_numeral)

end
