(* ===== verification/Go_Prelude.thy ===== *)
theory Go_Prelude
  imports Go_Float
begin

section \<open>Go integers and time\<close>

text \<open>
  What every component shares: the 64-bit \<open>int\<close> of Go written as \<open>int\<close> with its
  wrap-around, truncating division, and time stamps and durations in nanoseconds.  The collection \<open>go_arith\<close> holds the defining equations of the
  integer operations.
\<close>

named_theorems go_arith

subsection \<open>64-bit integers\<close>

definition int64 :: "int \<Rightarrow> bool" where
  "int64 x \<longleftrightarrow> - (2 ^ 63) \<le> x \<and> x < 2 ^ 63"

text \<open>The result of an addition, subtraction or multiplication that may overflow.\<close>

definition wrap64 :: "int \<Rightarrow> int" where
  "wrap64 x = (x + 2 ^ 63) mod 2 ^ 64 - 2 ^ 63"

text \<open>Saturation, as \<open>time.Time.Sub\<close> does it.\<close>

definition sat64 :: "int \<Rightarrow> int" where
  "sat64 x = max (- (2 ^ 63)) (min (2 ^ 63 - 1) x)"

text \<open>Go's \<open>/\<close> and \<open>%\<close> truncate towards zero.\<close>

definition go_quot :: "int \<Rightarrow> int \<Rightarrow> int" where
  "go_quot a b = sgn a * sgn b * (\<bar>a\<bar> div \<bar>b\<bar>)"

definition go_rem :: "int \<Rightarrow> int \<Rightarrow> int" where
  "go_rem a b = a - b * go_quot a b"

lemmas [go_arith] = int64_def wrap64_def sat64_def go_quot_def go_rem_def

lemma wrap64_id [simp]: "int64 x \<Longrightarrow> wrap64 x = x"
  by (simp add: int64_def wrap64_def)

lemma int64_wrap64 [simp]: "int64 (wrap64 x)"
proof -
  have "0 \<le> (x + 2 ^ 63) mod 2 ^ 64" "(x + 2 ^ 63) mod 2 ^ 64 < (2::int) ^ 64"
    by (simp_all only: pos_mod_bound pos_mod_sign zero_less_power zero_less_numeral)
  then show ?thesis by (simp add: int64_def wrap64_def)
qed

lemma wrap64_above: "2 ^ 63 \<le> x \<Longrightarrow> x < 2 ^ 63 + 2 ^ 64 \<Longrightarrow> wrap64 x = x - 2 ^ 64"
proof -
  assume x: "2 ^ 63 \<le> x" "x < 2 ^ 63 + 2 ^ 64"
  have "(x + 2 ^ 63) mod 2 ^ 64 = ((x - 2 ^ 63) + 2 ^ 64) mod 2 ^ 64"
    by (rule arg_cong [where f = "\<lambda>y. y mod 2 ^ 64"]) simp
  also have "\<dots> = (x - 2 ^ 63) mod 2 ^ 64" by (rule mod_add_self2)
  also have "\<dots> = x - 2 ^ 63" using x by (intro mod_pos_pos_trivial) auto
  finally show ?thesis by (simp add: wrap64_def)
qed

lemma sat64_le: "0 \<le> x \<Longrightarrow> 0 \<le> sat64 x \<and> sat64 x \<le> x"
  by (simp add: sat64_def)

lemma go_quot_nonneg: "0 \<le> a \<Longrightarrow> 0 < b \<Longrightarrow> go_quot a b = a div b"
  by (cases "a = 0") (simp_all add: go_quot_def)

lemma go_rem_nonneg: "0 \<le> a \<Longrightarrow> 0 < b \<Longrightarrow> go_rem a b = a mod b"
  by (simp add: go_rem_def go_quot_nonneg minus_mult_div_eq_mod)

subsection \<open>Time\<close>

text \<open>
  A time is a reading of the clock in nanoseconds, a duration a 64-bit number of
  nanoseconds.
\<close>

type_synonym time = int
type_synonym duration = int

abbreviation millisecond :: duration where "millisecond \<equiv> 1000000"
abbreviation second :: duration where "second \<equiv> 1000000000"

definition time_sub :: "time \<Rightarrow> time \<Rightarrow> duration" where
  "time_sub a b = sat64 (a - b)"

text \<open>\<open>Duration.Seconds\<close>: whole seconds plus the rest over \<open>1e9\<close>, in \<open>float64\<close>.\<close>

definition seconds :: "duration \<Rightarrow> float64" where
  "seconds d =
     fl64 (fl64 (of_int (go_quot d second)) + fl64 (fl64 (of_int (go_rem d second)) / 1000000000))"

lemma seconds_zero [simp]: "seconds 0 = 0"
  by (simp add: seconds_def go_quot_def go_rem_def)

lemma seconds_nonneg: "0 \<le> d \<Longrightarrow> 0 \<le> seconds d"
  by (simp add: seconds_def go_quot_nonneg go_rem_nonneg f64.nonneg pos_imp_zdiv_nonneg_iff)

lemma seconds_ge_one:
  assumes "second \<le> d" shows "1 \<le> seconds d"
proof -
  have "1 \<le> d div second" using assms zdiv_mono1 [of second d second] by simp
  then have "1 \<le> (of_int (d div second) :: rat)" by simp
  then have "1 \<le> fl64 (of_int (d div second))" by (rule f64.ge_one)
  moreover have "0 \<le> fl64 (fl64 (of_int (d mod second)) / 1000000000)"
    by (simp add: f64.nonneg)
  ultimately show ?thesis
    using assms unfolding seconds_def by (intro f64.ge_one) (simp add: go_quot_nonneg go_rem_nonneg)
qed

lemma seconds_upper:
  assumes "0 \<le> d"
  shows "seconds d \<le> of_int d / 1000000000 * (1 + 1 / 2 ^ 51)"
proof -
  let ?e = "1 + 1 / 2 ^ 53 :: rat"
  define q r where "q = (of_int (d div second) :: rat)" and "r = (of_int (d mod second) :: rat)"
  have qr: "0 \<le> q" "0 \<le> r" "of_int d / 1000000000 = q + r / 1000000000"
  proof -
    show "0 \<le> q" "0 \<le> r" using assms by (simp_all add: q_def r_def pos_imp_zdiv_nonneg_iff)
    have "of_int d = (of_int (second * (d div second) + d mod second) :: rat)" by simp
    then show "of_int d / 1000000000 = q + r / 1000000000"
      unfolding q_def r_def of_int_add of_int_mult by (simp add: field_simps)
  qed
  have "fl64 (fl64 r / 1000000000) \<le> fl64 r / 1000000000 * ?e"
    using qr by (intro f64.upper) (simp add: f64.nonneg)
  also have "\<dots> \<le> (r * ?e) / 1000000000 * ?e"
    using f64.upper [OF qr(2)] by (intro mult_right_mono divide_right_mono) auto
  finally have b: "fl64 (fl64 r / 1000000000) \<le> r / 1000000000 * (?e * ?e)" by simp
  have a: "fl64 q \<le> q * (?e * ?e)"
  proof -
    have "fl64 q \<le> q * ?e" by (rule f64.upper [OF qr(1)])
    also have "\<dots> \<le> q * (?e * ?e)" using qr(1) by (intro mult_left_mono) auto
    finally show ?thesis .
  qed
  have "seconds d \<le> (fl64 q + fl64 (fl64 r / 1000000000)) * ?e"
    using assms qr unfolding q_def r_def
    by (simp only: seconds_def go_quot_nonneg go_rem_nonneg zero_less_numeral)
       (intro f64.upper add_nonneg_nonneg f64.nonneg divide_nonneg_nonneg; simp)
  also have "\<dots> \<le> (q + r / 1000000000) * (?e * ?e) * ?e"
    using a b by (intro mult_right_mono) (auto simp: distrib_right)
  also have "\<dots> \<le> (q + r / 1000000000) * (1 + 1 / 2 ^ 51)"
    unfolding mult.assoc using qr by (intro mult_left_mono) auto
  finally show ?thesis using qr by simp
qed


subsection \<open>Runs of a machine\<close>

text \<open>
  A component whose goroutines are steps of one machine: \<open>exec\<close> takes an event, if it is
  enabled, and \<open>run\<close> a list of events; nothing runs in a halted state.
\<close>

locale runs =
  fixes exec :: "'e \<Rightarrow> 's \<Rightarrow> 's option" and halted :: "'s \<Rightarrow> bool" and run :: "'e list \<Rightarrow> 's \<Rightarrow> 's option"
  assumes run_Nil [simp]: "run [] s = Some s"
    and run_Cons [simp]: "run (e # es) s = (if halted s then None else Option.bind (exec e s) (run es))"
begin

lemma run_append: "run (xs @ ys) s = Option.bind (run xs s) (run ys)"
proof (induction xs arbitrary: s)
  case (Cons e es)
  show ?case by (cases "exec e s") (simp_all add: Cons.IH)
qed simp

lemma run_snoc:
  assumes "run (es @ [e]) s0 = Some s'"
  obtains s where "run es s0 = Some s" "\<not> halted s" "exec e s = Some s'"
  using assms by (cases "run es s0") (auto simp: run_append split: if_splits bind_splits)

lemma along [consumes 1, case_names start step]:
  assumes "run es s0 = Some s" "P [] s0"
    and "\<And>es s e s'. run es s0 = Some s \<Longrightarrow> \<not> halted s \<Longrightarrow> exec e s = Some s' \<Longrightarrow> P es s \<Longrightarrow> P (es @ [e]) s'"
  shows "P es s"
  using assms(1)
proof (induction es arbitrary: s rule: rev_induct)
  case (snoc e es)
  then show ?case using assms(3) by (metis run_snoc)
qed (use assms(2) in simp)

lemma keeps:
  assumes "run es s0 = Some s" "P s0" and "\<And>s e s'. exec e s = Some s' \<Longrightarrow> P s \<Longrightarrow> P s'"
  shows "P s"
  using assms(1) by (induction rule: along) (use assms(2,3) in blast)+

lemma first_cause:
  assumes "run es s0 = Some s" "Bad s" "\<not> Bad s0" "Inv s0"
    and "\<And>s e s'. exec e s = Some s' \<Longrightarrow> Inv s \<Longrightarrow> Inv s' \<and> (Bad s' \<longrightarrow> Bad s \<or> Cause s)"
  shows "\<exists>n < length es. \<exists>t. run (take n es) s0 = Some t \<and> Cause t"
proof -
  have "Inv s \<and> (Bad s \<longrightarrow> (\<exists>n < length es. \<exists>t. run (take n es) s0 = Some t \<and> Cause t))"
    using assms(1)
  proof (induction rule: along)
    case (step es s e s')
    note now = assms(5) [OF step(3)]
    have "\<exists>n < length (es @ [e]). \<exists>t. run (take n (es @ [e])) s0 = Some t \<and> Cause t" if "Bad s'"
    proof (cases "Bad s")
      case True
      then obtain n t where "n < length es" "run (take n es) s0 = Some t" "Cause t" using step(4) by blast
      then show ?thesis by (intro exI [of _ n]) simp
    next
      case False
      then have "Cause s" using now step(4) that by blast
      then show ?thesis using step(1) by (intro exI [of _ "length es"]) simp
    qed
    then show ?case using now step(4) by blast
  qed (use assms(3,4) in simp)
  then show ?thesis using assms(2) by blast
qed

end

end
