(* ===== verification/Rate_Limit.thy ===== *)
theory Rate_Limit
  imports Go_Prelude
begin

section \<open>The token-bucket rate limiter\<close>

text \<open>
  The package \<open>internal/ratelimit\<close>: the configuration with its defaults
  (\<open>limiter.go\<close>), the in-process limiter (\<open>memory.go\<close>) and the Redis limiter with
  its Lua script and its fallback (\<open>redis.go\<close>).  The two limiters are shown to be
  instances of one bucket step, and the facts about that step (bounds, grants against
  rate and burst, refill) are proved once in the locale \<open>bucket_clock\<close>.

  A time is in nanoseconds for the in-process limiter and in milliseconds for the script.
  The arithmetic is that of \<open>float64\<close> (Lua numbers are the same type), every operation
  rounded on its own.
\<close>

subsection \<open>Configuration\<close>

record rl_config =
  RPS :: int
  Burst :: int
  WindowSize :: duration

definition effective :: "rl_config \<Rightarrow> int \<times> int" where
  "effective c =
     (let rps = RPS c; burst = Burst c;
          rps = (if rps \<le> 0 then 10 else rps);
          burst = (if burst \<le> 0 then wrap64 (rps * 2) else burst)
      in (rps, burst))"

abbreviation eff_rps :: "rl_config \<Rightarrow> int" where "eff_rps c \<equiv> fst (effective c)"
abbreviation eff_burst :: "rl_config \<Rightarrow> int" where "eff_burst c \<equiv> snd (effective c)"

subsection \<open>The in-process limiter\<close>

datatype rl_error = ErrNoKey

record bucket =
  tokens :: float64
  last_refill :: int

record mem_limiter =
  ml_cfg :: rl_config
  buckets :: "string \<rightharpoonup> bucket"

definition new_mem_limiter :: "rl_config \<Rightarrow> mem_limiter" where
  "new_mem_limiter c = \<lparr>ml_cfg = c, buckets = (\<lambda>_. None)\<rparr>"

text \<open>
  \<open>MemoryLimiter.Allow\<close>: the result is the error or the decision, with the limiter
  after the call.  The mutex makes the body atomic.
\<close>

definition mem_allow :: "mem_limiter \<Rightarrow> string \<Rightarrow> time \<Rightarrow> (rl_error + bool) \<times> mem_limiter" where
  "mem_allow m key now =
     (if key = [] then (Inl ErrNoKey, m)
      else
        let (rps, burst) = effective (ml_cfg m);
            b = (case buckets m key of
                   None \<Rightarrow> \<lparr>tokens = fl64 (of_int burst), last_refill = now\<rparr>
                 | Some b \<Rightarrow> b);
            elapsed = seconds (time_sub now (last_refill b));
            t = fl64 (tokens b + fl64 (elapsed * fl64 (of_int rps)));
            t = (if t > fl64 (of_int burst) then fl64 (of_int burst) else t)
        in if 1 \<le> t
           then (Inr True, m\<lparr>buckets := (buckets m)(key \<mapsto> \<lparr>tokens = fl64 (t - 1), last_refill = now\<rparr>)\<rparr>)
           else (Inr False, m\<lparr>buckets := (buckets m)(key \<mapsto> \<lparr>tokens = t, last_refill = now\<rparr>)\<rparr>))"

subsection \<open>The Redis limiter\<close>

text \<open>
  The hash that the script keeps under a key, with the server time at which \<open>PEXPIRE\<close>
  lets it vanish.
\<close>

record redis_entry =
  rt :: float64
  rts :: int
  expires :: int

type_synonym redis_db = "string \<rightharpoonup> redis_entry"

definition redis_get :: "redis_db \<Rightarrow> string \<Rightarrow> int \<Rightarrow> redis_entry option" where
  "redis_get db key srv =
     (case db key of None \<Rightarrow> None | Some e \<Rightarrow> if srv < expires e then Some e else None)"

text \<open>\<open>allowScript\<close>, run at the server time \<open>srv\<close> (milliseconds) with \<open>ARGV[3] = now\<close>.\<close>

definition allow_script :: "redis_db \<Rightarrow> string \<Rightarrow> int \<Rightarrow> int \<Rightarrow> int \<Rightarrow> int \<Rightarrow> int \<times> redis_db" where
  "allow_script db key rps burst now srv =
     (let (tok, ts) = (case redis_get db key srv of
                         None \<Rightarrow> (fl64 (of_int burst), now)
                       | Some e \<Rightarrow> (rt e, rts e));
          elapsed = fl64 (max 0 (of_int (now - ts)) / 1000);
          tok = min (fl64 (of_int burst)) (fl64 (tok + fl64 (elapsed * fl64 (of_int rps))));
          (tok, allowed) = (if 1 \<le> tok then (fl64 (tok - 1), 1) else (tok, 0))
      in (allowed, db(key \<mapsto> \<lparr>rt = tok, rts = now, expires = srv + 3600000\<rparr>)))"

record redis_limiter =
  rl_cfg :: rl_config
  fallback :: mem_limiter

text \<open>
  How one call to Redis ends: with the script's value, or with an error after which the
  script may or may not have taken effect.
\<close>

datatype redis_reply = Replied | Failed (took_effect: bool)

definition rl_prefix :: string where "rl_prefix = ''velo:rl:''"

text \<open>
  \<open>RedisLimiter.Allow\<close> over the shared database.  \<open>now_ms\<close> is \<open>time.Now().UnixMilli()\<close>,
  \<open>srv\<close> the server's clock and \<open>now\<close> the clock reading of the fallback.
\<close>

definition redis_allow ::
  "redis_limiter \<Rightarrow> redis_db \<Rightarrow> string \<Rightarrow> int \<Rightarrow> int \<Rightarrow> redis_reply \<Rightarrow> time
    \<Rightarrow> (rl_error + bool) \<times> redis_limiter \<times> redis_db" where
  "redis_allow r db key now_ms srv reply now =
     (if key = [] then (Inl ErrNoKey, r, db)
      else
        let (rps, burst) = effective (rl_cfg r);
            (v, db') = allow_script db (rl_prefix @ key) rps burst now_ms srv
        in case reply of
             Replied \<Rightarrow> (Inr (v = 1), r, db')
           | Failed eff \<Rightarrow>
               (let (res, fb) = mem_allow (fallback r) key now
                in (res, r\<lparr>fallback := fb\<rparr>, if eff then db' else db)))"

subsection \<open>The common bucket step\<close>

text \<open>
  The step that both limiters make, over the function \<open>el\<close> that reads the seconds
  between two clock readings.
\<close>

definition bucket_step ::
  "(int \<Rightarrow> int \<Rightarrow> rat) \<Rightarrow> rat \<Rightarrow> rat \<Rightarrow> float64 \<times> int \<Rightarrow> int \<Rightarrow> bool \<times> float64 \<times> int" where
  "bucket_step el r B s now =
     (let t = min B (fl64 (fst s + fl64 (el (snd s) now * r)))
      in if 1 \<le> t then (True, fl64 (t - 1), now) else (False, t, now))"

fun bucket_run ::
  "(int \<Rightarrow> int \<Rightarrow> rat) \<Rightarrow> rat \<Rightarrow> rat \<Rightarrow> float64 \<times> int \<Rightarrow> int list \<Rightarrow> bool list \<times> float64 \<times> int" where
  "bucket_run el r B s [] = ([], s)"
| "bucket_run el r B s (now # ts) =
     (let (g, s') = bucket_step el r B s now; (gs, s'') = bucket_run el r B s' ts
      in (g # gs, s''))"

definition mem_elapsed :: "int \<Rightarrow> int \<Rightarrow> rat" where
  "mem_elapsed a b = seconds (time_sub b a)"

definition redis_elapsed :: "int \<Rightarrow> int \<Rightarrow> rat" where
  "redis_elapsed a b = fl64 (max 0 (of_int (b - a)) / 1000)"

text \<open>A clock that counts \<open>hz\<close> ticks to the second and is read with a small relative error.\<close>

locale bucket_clock =
  fixes el :: "int \<Rightarrow> int \<Rightarrow> rat" and hz :: rat
  assumes el_nonneg: "a \<le> b \<Longrightarrow> 0 \<le> el a b"
    and el_same: "el a a = 0"
    and el_upper: "a \<le> b \<Longrightarrow> el a b \<le> of_int (b - a) / hz * (1 + 1 / 2 ^ 51)"
    and hz_pos: "0 < hz"
begin

lemma step_bounds:
  assumes "0 \<le> r" "0 \<le> B" "fl64 B = B" "0 \<le> t" "l \<le> now"
    and step: "bucket_step el r B (t, l) now = (g, t', l')"
  shows "0 \<le> t'" and "t' \<le> B" and "l' = now"
proof -
  define a where "a = min B (fl64 (t + fl64 (el l now * r)))"
  have a: "0 \<le> a" "a \<le> B"
    using assms(1-5) by (simp_all add: a_def f64.nonneg el_nonneg)
  have s: "bucket_step el r B (t, l) now = (if 1 \<le> a then (True, fl64 (a - 1), now) else (False, a, now))"
    unfolding bucket_step_def fst_conv snd_conv a_def [symmetric] Let_def ..
  show "l' = now" "0 \<le> t'" "t' \<le> B"
    using step s a f64.le_self [OF assms(3), of "a - 1"] by (auto simp: f64.nonneg split: if_splits)
qed

lemma step_grants:
  assumes "1 \<le> el l now * r" "1 \<le> B" "0 \<le> t"
  shows "fst (bucket_step el r B (t, l) now)"
proof -
  have "1 \<le> t + fl64 (el l now * r)" using f64.ge_one [OF assms(1)] assms(3) by linarith
  then show ?thesis using assms(2) by (simp add: bucket_step_def Let_def f64.ge_one)
qed

text \<open>What a step grants and keeps is covered by what it had, the refill and a rounding error.\<close>

lemma step_potential:
  assumes "0 \<le> r" "0 \<le> B" "0 \<le> t" "t \<le> B" "l \<le> now"
    and step: "bucket_step el r B (t, l) now = (g, t', l')"
  shows "t' + of_bool g \<le> t + of_int (now - l) / hz * r * (1 + 1 / 2 ^ 50) + 3 * B / 2 ^ 53"
proof -
  define i where "i = fl64 (el l now * r)"
  define a where "a = min B (fl64 (t + i))"
  have i: "0 \<le> i" "i \<le> of_int (now - l) / hz * r * (1 + 1 / 2 ^ 50)"
  proof -
    have e: "0 \<le> el l now * r" using assms by (simp add: el_nonneg)
    then show "0 \<le> i" by (simp add: i_def f64.nonneg)
    have x: "0 \<le> of_int (now - l) / hz * r" using assms hz_pos by simp
    have "i \<le> el l now * r * (1 + 1 / 2 ^ 53)" unfolding i_def by (rule f64.upper [OF e])
    also have "\<dots> \<le> (of_int (now - l) / hz * (1 + 1 / 2 ^ 51)) * r * (1 + 1 / 2 ^ 53)"
      using assms by (intro mult_right_mono el_upper) auto
    also have "\<dots> = of_int (now - l) / hz * r * ((1 + 1 / 2 ^ 51) * (1 + 1 / 2 ^ 53))"
      by (simp only: mult_ac)
    also have "\<dots> \<le> of_int (now - l) / hz * r * (1 + 1 / 2 ^ 50)"
      by (intro mult_left_mono x) simp
    finally show "i \<le> of_int (now - l) / hz * r * (1 + 1 / 2 ^ 50)" .
  qed
  have a: "0 \<le> a" "a \<le> B" using i assms by (simp_all add: a_def f64.nonneg)
  have "a \<le> t + i + 2 * B / 2 ^ 53"
  proof (cases "t + i \<le> 2 * B")
    case True
    then have "(t + i) / 2 ^ 53 \<le> 2 * B / 2 ^ 53" by (intro divide_right_mono) auto
    moreover have "fl64 (t + i) \<le> t + i + (t + i) / 2 ^ 53"
      using i(1) assms(3) by (intro f64.upper_add) simp
    moreover have "a \<le> fl64 (t + i)" by (simp add: a_def)
    ultimately show ?thesis by linarith
  next
    case False
    then show ?thesis using a(2) assms(2) by simp
  qed
  moreover have "t' + of_bool g \<le> a + B / 2 ^ 53"
  proof -
    have s: "bucket_step el r B (t, l) now = (if 1 \<le> a then (True, fl64 (a - 1), now) else (False, a, now))"
      unfolding bucket_step_def fst_conv snd_conv i_def [symmetric] a_def [symmetric] Let_def ..
    have "fl64 (a - 1) \<le> a - 1 + B / 2 ^ 53" if "1 \<le> a"
    proof -
      have "fl64 (a - 1) \<le> (a - 1) + (a - 1) / 2 ^ 53"
        using that by (intro f64.upper_add) simp
      also have "(a - 1) / 2 ^ 53 \<le> B / 2 ^ 53" using a by (intro divide_right_mono) auto
      finally show ?thesis by simp
    qed
    then show ?thesis using step s assms(2) by (auto split: if_splits)
  qed
  ultimately show ?thesis using i(2) by linarith
qed

lemma run_potential:
  assumes "0 \<le> r" "0 \<le> B" "fl64 B = B" "0 \<le> t" "t \<le> B" "sorted (l # ts)"
    and "bucket_run el r B (t, l) ts = (gs, t', l')"
  shows "t' + of_nat (count_list gs True)
     \<le> t + of_int (last (l # ts) - l) / hz * r * (1 + 1 / 2 ^ 50) + 3 * B / 2 ^ 53 * of_nat (length ts)
     \<and> 0 \<le> t'"
proof -
  define K S where "K = r * (1 + 1 / 2 ^ 50) / hz" and "S = 3 * B / 2 ^ 53"
  have KS: "of_int d / hz * r * (1 + 1 / 2 ^ 50) = of_int d * K" "3 * B / 2 ^ 53 = S" for d
    by (simp_all add: K_def S_def)
  have "t' + of_nat (count_list gs True)
     \<le> t + of_int (last (l # ts) - l) * K + S * of_nat (length ts) \<and> 0 \<le> t'"
    using assms(4-)
  proof (induction ts arbitrary: t l gs)
    case Nil
    then show ?case by simp
  next
    case (Cons now ts)
    obtain g t1 l1 where s: "bucket_step el r B (t, l) now = (g, t1, l1)" by (metis prod_cases3)
    obtain gs1 where run: "bucket_run el r B (t1, l1) ts = (gs1, t', l')" and gs: "gs = g # gs1"
      using Cons.prems s by (auto split: prod.splits)
    have l: "l \<le> now" using Cons.prems by simp
    note b = step_bounds [OF assms(1-3) Cons.prems(1) l s]
    have IH: "t' + of_nat (count_list gs1 True)
       \<le> t1 + of_int (last (now # ts) - now) * K + S * of_nat (length ts)" and t': "0 \<le> t'"
      using Cons.IH [OF b(1,2) _ run] Cons.prems(3) b(3) by auto
    have "t1 + of_bool g \<le> t + of_int (now - l) * K + S"
      using step_potential [OF assms(1,2) Cons.prems(1,2) l s] unfolding KS .
    moreover have "of_int (last (now # ts) - now) * K + of_int (now - l) * K
        = of_int (last (l # now # ts) - l) * K" by (simp add: left_diff_distrib)
    moreover have "of_nat (count_list gs True) = of_bool g + (of_nat (count_list gs1 True) :: rat)"
      by (simp add: gs)
    moreover have "S * of_nat (length (now # ts)) = S + S * of_nat (length ts)"
      by (simp add: distrib_left)
    ultimately show ?case using IH t' by linarith
  qed
  then show ?thesis unfolding KS .
qed

lemma run_grants_bound:
  assumes "0 \<le> r" "0 \<le> B" "fl64 B = B" "0 \<le> t" "t \<le> B" "sorted (l # ts)"
  shows "of_nat (count_list (fst (bucket_run el r B (t, l) ts)) True)
     \<le> t + of_int (last (l # ts) - l) / hz * r * (1 + 1 / 2 ^ 50) + 3 * B / 2 ^ 53 * of_nat (length ts)"
proof -
  obtain gs t' l' where "bucket_run el r B (t, l) ts = (gs, t', l')" by (metis prod_cases3)
  with run_potential [OF assms this] show ?thesis by simp
qed

text \<open>With a standing clock a bucket of \<open>m\<close> tokens grants exactly the first \<open>m\<close> calls.\<close>

lemma run_standing:
  assumes "int m \<le> b" "b \<le> 2 ^ 53"
  shows "fst (bucket_run el r (of_int b) (of_nat m, now) (replicate n now))
         = replicate (min n m) True @ replicate (n - m) False"
  using assms(1)
proof (induction n arbitrary: m)
  case (Suc n)
  have m: "fl64 (of_nat m) = of_nat m"
    using f64.exact_int [of "int m"] Suc.prems assms(2) by simp
  have mb: "min (of_int b) (of_nat m) = (of_nat m :: rat)"
    using Suc.prems by (metis min.absorb2 of_int_le_iff of_int_of_nat_eq)
  show ?case
  proof (cases m)
    case 0
    then show ?thesis using Suc.IH [of 0] Suc.prems mb
      by (auto simp: bucket_step_def el_same split: prod.splits)
  next
    case (Suc k)
    have "fl64 (of_nat k) = of_nat k"
      using f64.exact_int [of "int k"] Suc \<open>int m \<le> b\<close> assms(2) by simp
    then have "bucket_step el r (of_int b) (of_nat m, now) now = (True, of_nat k, now)"
      using m mb by (simp add: bucket_step_def el_same Suc)
    then show ?thesis using Suc.IH [of k] Suc \<open>int m \<le> b\<close> by (auto split: prod.splits)
  qed
qed simp

end

interpretation mem_clock: bucket_clock mem_elapsed 1000000000
proof unfold_locales
  fix a b :: int
  assume "a \<le> b"
  then have d: "0 \<le> time_sub b a" "time_sub b a \<le> b - a"
    using sat64_le [of "b - a"] by (simp_all add: time_sub_def)
  show "0 \<le> mem_elapsed a b" using d by (simp add: mem_elapsed_def seconds_nonneg)
  have "mem_elapsed a b \<le> of_int (time_sub b a) / 1000000000 * (1 + 1 / 2 ^ 51)"
    using d by (simp only: mem_elapsed_def seconds_upper)
  also have "\<dots> \<le> of_int (b - a) / 1000000000 * (1 + 1 / 2 ^ 51)"
    using d by (intro mult_right_mono divide_right_mono) (simp_all only: of_int_le_iff, simp_all)
  finally show "mem_elapsed a b \<le> of_int (b - a) / 1000000000 * (1 + 1 / 2 ^ 51)" .
qed (simp_all add: mem_elapsed_def time_sub_def sat64_def)

interpretation redis_clock: bucket_clock redis_elapsed 1000
proof unfold_locales
  fix a b :: int
  assume "a \<le> b"
  then have x: "0 \<le> (of_int (b - a) / 1000 :: rat)" and m: "max 0 (of_int (b - a)) = (of_int (b - a) :: rat)"
    by simp_all
  show "0 \<le> redis_elapsed a b" by (simp add: redis_elapsed_def f64.nonneg)
  have "redis_elapsed a b \<le> of_int (b - a) / 1000 * (1 + 1 / 2 ^ 53)"
    unfolding redis_elapsed_def m by (rule f64.upper [OF x])
  also have "\<dots> \<le> of_int (b - a) / 1000 * (1 + 1 / 2 ^ 51)"
    by (intro mult_left_mono x) simp
  finally show "redis_elapsed a b \<le> of_int (b - a) / 1000 * (1 + 1 / 2 ^ 51)" .
qed (simp_all add: redis_elapsed_def)

subsection \<open>Both limiters make the common step\<close>

definition bucket_of :: "mem_limiter \<Rightarrow> string \<Rightarrow> time \<Rightarrow> float64 \<times> int" where
  "bucket_of m key now =
     (case buckets m key of
        None \<Rightarrow> (fl64 (of_int (eff_burst (ml_cfg m))), now)
      | Some b \<Rightarrow> (tokens b, last_refill b))"

definition redis_bucket_of :: "redis_db \<Rightarrow> string \<Rightarrow> int \<Rightarrow> int \<Rightarrow> int \<Rightarrow> float64 \<times> int" where
  "redis_bucket_of db key burst now srv =
     (case redis_get db key srv of
        None \<Rightarrow> (fl64 (of_int burst), now)
      | Some e \<Rightarrow> (rt e, rts e))"

abbreviation mem_step :: "rl_config \<Rightarrow> float64 \<times> int \<Rightarrow> int \<Rightarrow> bool \<times> float64 \<times> int" where
  "mem_step c \<equiv> bucket_step mem_elapsed (fl64 (of_int (eff_rps c))) (fl64 (of_int (eff_burst c)))"

lemma mem_allow_step:
  assumes "key \<noteq> []"
  shows "mem_allow m key now =
     (let (g, t, l) = mem_step (ml_cfg m) (bucket_of m key now) now
      in (Inr g, m\<lparr>buckets := (buckets m)(key \<mapsto> \<lparr>tokens = t, last_refill = l\<rparr>)\<rparr>))"
  using assms
  by (auto simp: mem_allow_def bucket_of_def bucket_step_def mem_elapsed_def Let_def min_def
      split: option.splits prod.splits)

lemma allow_script_step:
  "allow_script db key rps burst now srv =
     (let (g, t, l) = bucket_step redis_elapsed (fl64 (of_int rps)) (fl64 (of_int burst))
                        (redis_bucket_of db key burst now srv) now
      in (of_bool g, db(key \<mapsto> \<lparr>rt = t, rts = l, expires = srv + 3600000\<rparr>)))"
  by (auto simp: allow_script_def redis_bucket_of_def bucket_step_def redis_elapsed_def Let_def
      split: option.splits prod.splits)

subsection \<open>Sequences of calls\<close>

text \<open>A sequence of calls by key and clock reading, with their results in order.\<close>

fun mem_run :: "mem_limiter \<Rightarrow> (string \<times> time) list \<Rightarrow> (rl_error + bool) list \<times> mem_limiter" where
  "mem_run m [] = ([], m)"
| "mem_run m ((key, now) # cs) =
     (let (r, m') = mem_allow m key now; (rs, m'') = mem_run m' cs in (r # rs, m''))"

text \<open>The results of the calls that carry the key \<open>k\<close>.\<close>

definition results_for :: "string \<Rightarrow> (string \<times> time) list \<Rightarrow> (rl_error + bool) list \<Rightarrow> (rl_error + bool) list" where
  "results_for k cs rs = map snd (filter (\<lambda>(c, r). fst c = k) (zip cs rs))"

definition times_for :: "string \<Rightarrow> (string \<times> time) list \<Rightarrow> time list" where
  "times_for k cs = map snd (filter (\<lambda>c. fst c = k) cs)"

lemma mem_allow_cfg [simp]: "ml_cfg (snd (mem_allow m key now)) = ml_cfg m"
  by (auto simp: mem_allow_def Let_def split: prod.splits option.splits)

lemma mem_allow_other: "k \<noteq> key \<Longrightarrow> buckets (snd (mem_allow m key now)) k = buckets m k"
  by (auto simp: mem_allow_def Let_def split: prod.splits option.splits)

lemma mem_allow_result:
  assumes "mem_allow m key now = (r, m')" "key \<noteq> []"
    and "mem_step (ml_cfg m) (bucket_of m key now) now = (g, t, l)"
  shows "r = Inr g" and "\<And>now'. bucket_of m' key now' = (t, l)"
  using assms by (auto simp: mem_allow_step bucket_of_def split: prod.splits)

lemma mem_run_Cons:
  "mem_allow m key now = (r, m') \<Longrightarrow> fst (mem_run m ((key, now) # cs)) = r # fst (mem_run m' cs)"
  by (simp split: prod.splits)

lemma bucket_run_Cons:
  "bucket_step el r B s now = (g, s') \<Longrightarrow>
   fst (bucket_run el r B s (now # ts)) = g # fst (bucket_run el r B s' ts)"
  by (simp split: prod.splits)

lemma results_for_Cons [simp]:
  "results_for k ((key, now) # cs) (r # rs) = (if key = k then r # results_for k cs rs else results_for k cs rs)"
  by (simp add: results_for_def)

lemma times_for_Cons [simp]:
  "times_for k ((key, now) # cs) = (if key = k then now # times_for k cs else times_for k cs)"
  by (simp add: times_for_def)

lemma results_for_Nil [simp]: "results_for k [] rs = []"
  and times_for_Nil [simp]: "times_for k [] = []"
  by (simp_all add: results_for_def times_for_def)

text \<open>
  The calls with the key \<open>k\<close> get what a bucket of their own gives them, whatever calls
  with other keys come between.
\<close>

lemma mem_run_existing:
  assumes "k \<noteq> []" and "\<And>now. bucket_of m k now = (t, l)" and "ml_cfg m = c"
  shows "results_for k cs (fst (mem_run m cs))
     = map Inr (fst (bucket_run mem_elapsed (fl64 (of_int (eff_rps c))) (fl64 (of_int (eff_burst c)))
                     (t, l) (times_for k cs)))"
  using assms(2,3)
proof (induction m cs arbitrary: t l rule: mem_run.induct)
  case (2 m key now cs)
  obtain r m' where a: "mem_allow m key now = (r, m')" by force
  then have c: "ml_cfg m' = c" using mem_allow_cfg [of m key now] 2(3) by simp
  show ?case
  proof (cases "key = k")
    case False
    then have "bucket_of m' k n = bucket_of m k n" for n
      using mem_allow_other [of k key m now] a c 2(3) by (simp add: bucket_of_def split: option.splits)
    then have "\<And>n. bucket_of m' k n = (t, l)" using 2(2) by simp
    from 2(1) [OF refl a [symmetric] this c] show ?thesis
      using False by (simp add: mem_run_Cons [OF a] del: mem_run.simps)
  next
    case True
    obtain g t1 l1 where st: "mem_step c (t, l) now = (g, t1, l1)" by (metis prod_cases3)
    with a True 2(2,3) assms(1) have r: "r = Inr g" "\<And>n. bucket_of m' k n = (t1, l1)"
      using mem_allow_result [of m k now r m' g t1 l1] by simp_all
    from 2(1) [OF refl a [symmetric] r(2) c] show ?thesis
      using True r(1) a by (simp add: mem_run_Cons bucket_run_Cons [OF st]
          del: mem_run.simps bucket_run.simps)
  qed
qed simp

lemma mem_run_fresh:
  assumes "k \<noteq> []" and "buckets m k = None" and "ml_cfg m = c" and "times_for k cs = t0 # ts"
  shows "results_for k cs (fst (mem_run m cs))
     = map Inr (fst (bucket_run mem_elapsed (fl64 (of_int (eff_rps c))) (fl64 (of_int (eff_burst c)))
                     (fl64 (of_int (eff_burst c)), t0) (t0 # ts)))"
  using assms(2-)
proof (induction m cs rule: mem_run.induct)
  case (2 m key now cs)
  obtain r m' where a: "mem_allow m key now = (r, m')" by force
  then have c: "ml_cfg m' = c" using mem_allow_cfg [of m key now] 2 by simp
  show ?case
  proof (cases "key = k")
    case False
    have n: "buckets m' k = None" "times_for k cs = t0 # ts"
      using mem_allow_other [of k key m now] False a 2 by simp_all
    from 2(1) [OF refl a [symmetric] n(1) c n(2)] show ?thesis
      using False by (simp add: mem_run_Cons [OF a] del: mem_run.simps bucket_run.simps)
  next
    case True
    have now: "now = t0" "times_for k cs = ts" using 2 True by simp_all
    have b: "bucket_of m k now = (fl64 (of_int (eff_burst c)), t0)"
      using 2 now by (simp add: bucket_of_def)
    obtain g t1 l1 where st: "mem_step c (fl64 (of_int (eff_burst c)), t0) t0 = (g, t1, l1)"
      by (metis prod_cases3)
    with a True 2(3) assms(1) b now(1) have r: "r = Inr g" "\<And>n. bucket_of m' k n = (t1, l1)"
      using mem_allow_result [of m k now r m' g t1 l1] by simp_all
    from mem_run_existing [OF assms(1) r(2) c, of cs] show ?thesis
      using True r(1) now a by (simp add: mem_run_Cons bucket_run_Cons [OF st]
          del: mem_run.simps bucket_run.simps)
  qed
qed simp

subsection \<open>Properties\<close>

lemma count_list_map_Inr [simp]: "count_list (map Inr xs) (Inr x) = count_list xs x"
  by (induction xs) auto

lemma effective_pos:
  assumes "int64 (RPS c)"
  shows "0 < eff_rps c" and "0 < eff_burst c \<longleftrightarrow> 0 < Burst c \<or> RPS c < 2 ^ 62"
proof -
  show "0 < eff_rps c" by (simp add: effective_def Let_def)
  consider "0 < Burst c" | "Burst c \<le> 0" "RPS c \<le> 0" | "Burst c \<le> 0" "0 < RPS c" "RPS c < 2 ^ 62"
    | "Burst c \<le> 0" "2 ^ 62 \<le> RPS c" by linarith
  then show "0 < eff_burst c \<longleftrightarrow> 0 < Burst c \<or> RPS c < 2 ^ 62"
  proof cases
    case 4
    then have "wrap64 (RPS c * 2) = RPS c * 2 - 2 ^ 64"
      using assms by (intro wrap64_above) (simp_all add: int64_def)
    then show ?thesis using 4 assms by (simp add: effective_def Let_def int64_def)
  qed (simp_all add: effective_def Let_def wrap64_def)
qed

text \<open>Every bucket holds between no token and a full burst, and was touched in the past.\<close>

definition mem_wf :: "rl_config \<Rightarrow> time \<Rightarrow> mem_limiter \<Rightarrow> bool" where
  "mem_wf c now m \<longleftrightarrow> ml_cfg m = c \<and>
     (\<forall>k b. buckets m k = Some b \<longrightarrow>
        0 \<le> tokens b \<and> tokens b \<le> fl64 (of_int (eff_burst c)) \<and> last_refill b \<le> now)"

lemma eff_rates_nonneg:
  "0 \<le> fl64 (of_int (eff_rps c))" "0 < eff_burst c \<Longrightarrow> 0 \<le> fl64 (of_int (eff_burst c))"
  by (simp_all add: f64.nonneg effective_def Let_def)

lemma mem_wf_later: "mem_wf c a m \<Longrightarrow> a \<le> b \<Longrightarrow> mem_wf c b m"
  unfolding mem_wf_def by (meson order_trans)

lemma mem_wf_bucket:
  assumes "mem_wf c now m" "0 < eff_burst c"
  shows "0 \<le> fst (bucket_of m k now) \<and> snd (bucket_of m k now) \<le> now"
  using assms by (auto simp: mem_wf_def bucket_of_def f64.nonneg split: option.splits)

lemma mem_wf_allow:
  assumes wf: "mem_wf c now m" and pos: "0 < eff_burst c"
  shows "mem_wf c now (snd (mem_allow m key now))"
proof (cases "key = []")
  case True
  then show ?thesis using wf by (simp add: mem_allow_def)
next
  case False
  have c: "ml_cfg m = c" using wf by (simp add: mem_wf_def)
  obtain t0 l0 where b: "bucket_of m key now = (t0, l0)" by force
  obtain g t l where st: "mem_step c (t0, l0) now = (g, t, l)" by (metis prod_cases3)
  have tl: "0 \<le> t \<and> t \<le> fl64 (of_int (eff_burst c)) \<and> l = now"
    using mem_clock.step_bounds [OF eff_rates_nonneg(1) eff_rates_nonneg(2) [OF pos] f64.idem _ _ st]
      mem_wf_bucket [OF wf pos, of key] b by simp
  show ?thesis
    using wf tl by (auto simp: mem_allow_step [OF False] c b st mem_wf_def)
qed

lemma mem_wf_run:
  assumes "mem_wf c a m" "0 < eff_burst c" "sorted (a # map snd cs)"
  shows "mem_wf c (last (a # map snd cs)) (snd (mem_run m cs))"
  using assms
proof (induction m cs arbitrary: a rule: mem_run.induct)
  case (2 m key now cs)
  obtain r m' where al: "mem_allow m key now = (r, m')" by force
  have "mem_wf c now m'"
    using mem_wf_allow [OF mem_wf_later [OF 2(2)], of now key] 2 al by simp
  from 2(1) [OF refl al [symmetric] this] show ?case
    using 2 al by (auto split: prod.splits)
qed simp

lemma mem_wf_new: "mem_wf c a (new_mem_limiter c)"
  by (simp add: mem_wf_def new_mem_limiter_def)

lemma mem_run_wf:
  assumes "0 < eff_burst c" "sorted (map snd cs)"
  shows "\<exists>now. mem_wf c now (snd (mem_run (new_mem_limiter c) cs))"
proof (cases cs)
  case Nil
  then show ?thesis using mem_wf_new by auto
next
  case (Cons x ys)
  then have "sorted (snd x # map snd cs)" using assms(2) by auto
  from mem_wf_run [OF mem_wf_new assms(1) this] show ?thesis by blast
qed

text \<open>
  The defaults of \<open>Config.effective\<close> give a positive rate always, and a positive burst
  except where doubling a rate of at least \<open>2^62\<close> overflows.
\<close>

lemma effective_positive:
  assumes "int64 (RPS c)"
  shows "0 < eff_rps c \<and> (0 < eff_burst c \<longleftrightarrow> 0 < Burst c \<or> RPS c < 2 ^ 62)"
  using effective_pos [OF assms] by simp

lemma effective_positive_example:
  "0 < eff_rps \<lparr>RPS = 2 ^ 62, Burst = 0, WindowSize = 0\<rparr>
   \<and> \<not> 0 < eff_burst \<lparr>RPS = 2 ^ 62, Burst = 0, WindowSize = 0\<rparr>"
  using effective_positive [of "\<lparr>RPS = 2 ^ 62, Burst = 0, WindowSize = 0\<rparr>"]
  by (simp add: int64_def)

text \<open>
  In every run of \<open>MemoryLimiter.Allow\<close> with a clock that does not go back, each key's
  bucket holds between 0 tokens and the burst, whatever keys are called and in what order.
\<close>

lemma mem_bucket_bounds:
  assumes "0 < eff_burst c" "sorted (map snd cs)"
    and "buckets (snd (mem_run (new_mem_limiter c) cs)) k = Some b"
  shows "0 \<le> tokens b \<and> tokens b \<le> fl64 (of_int (eff_burst c))"
  using mem_run_wf [OF assms(1,2)] assms(3) by (auto simp: mem_wf_def)

theorem mem_bucket_bounds_witness:
  "0 \<le> tokens \<lparr>tokens = 4, last_refill = 0\<rparr>
   \<and> tokens \<lparr>tokens = 4, last_refill = 0\<rparr> \<le> fl64 (of_int (eff_burst \<lparr>RPS = 10, Burst = 5, WindowSize = 0\<rparr>))"
proof (rule mem_bucket_bounds)
  show "buckets (snd (mem_run (new_mem_limiter \<lparr>RPS = 10, Burst = 5, WindowSize = 0\<rparr>) [(''k1'', 0)])) ''k1''
    = Some \<lparr>tokens = 4, last_refill = 0\<rparr>" by code_simp
qed (simp_all add: effective_def)

lemma mem_grants_bound:
  assumes k: "k \<noteq> []" and pos: "0 < eff_burst c" and srt: "sorted (map snd cs)"
    and exact: "eff_burst c \<le> 2 ^ 53" "eff_rps c \<le> 2 ^ 53"
    and win: "\<forall>x \<in> set cs. a \<le> snd x \<and> snd x \<le> b" "a \<le> b"
  shows "of_nat (count_list (results_for k cs (fst (mem_run (new_mem_limiter c) cs))) (Inr True))
     \<le> of_int (eff_burst c) + of_int (b - a) / 1000000000 * of_int (eff_rps c) * (1 + 1 / 2 ^ 50)
        + 3 * of_int (eff_burst c) / 2 ^ 53 * (of_nat (length (times_for k cs)) :: rat)"
proof -
  have r: "0 < eff_rps c" by (simp add: effective_def Let_def)
  have fl: "fl64 (of_int (eff_burst c)) = of_int (eff_burst c)" "fl64 (of_int (eff_rps c)) = of_int (eff_rps c)"
    using exact pos r by (simp_all add: f64.exact_int)
  have sub: "sorted (times_for k cs)" "\<forall>t \<in> set (times_for k cs). a \<le> t \<and> t \<le> b"
    using srt win(1) by (auto simp: times_for_def sorted_filter)
  show ?thesis
  proof (cases "times_for k cs")
    case Nil
    then have "results_for k cs rs = []" for rs
      unfolding results_for_def times_for_def
      by (auto simp: filter_empty_conv dest: set_zip_leftD)
    then show ?thesis using Nil pos r win(2) by simp
  next
    case (Cons t0 ts)
    define K where "K = of_int (eff_rps c) * (1 + 1 / 2 ^ 50) / (1000000000 :: rat)"
    have K: "of_int d / 1000000000 * of_int (eff_rps c) * (1 + 1 / 2 ^ 50) = of_int d * K" for d
      by (simp add: K_def)
    have "last (t0 # t0 # ts) - t0 \<le> b - a" using sub Cons by (auto intro: diff_mono)
    then have "of_int (last (t0 # t0 # ts) - t0) * K \<le> of_int (b - a) * K"
      using r by (intro mult_right_mono) (simp_all add: K_def del: of_int_diff)
    moreover have "new_mem_limiter c = \<lparr>ml_cfg = c, buckets = buckets (new_mem_limiter c)\<rparr>"
      by (simp add: new_mem_limiter_def)
    then have "results_for k cs (fst (mem_run (new_mem_limiter c) cs))
       = map Inr (fst (bucket_run mem_elapsed (of_int (eff_rps c)) (of_int (eff_burst c))
                     (of_int (eff_burst c), t0) (t0 # ts)))"
      using mem_run_fresh [OF k _ _ Cons, of "new_mem_limiter c" c] by (simp add: new_mem_limiter_def fl)
    moreover have "sorted (t0 # t0 # ts)" using sub Cons by simp
    ultimately show ?thesis
      using mem_clock.run_grants_bound [of "of_int (eff_rps c)" "of_int (eff_burst c)"
          "of_int (eff_burst c)" t0 "t0 # ts"] fl pos r Cons
      unfolding K by simp
  qed
qed

text \<open>
  C19: Rate bound.  Over any interleaving of calls whose clock readings lie in \<open>[a, b]\<close> and do
  not go back, \<open>MemoryLimiter\<close> grants one key at most its burst plus rate times elapsed
  time; floating-point rounding adds at most one part in \<open>2^50\<close> of the refill and
  \<open>3/2^53\<close> of the burst per call.
\<close>

theorem mem_rate_bound:
  assumes k: "k \<noteq> []" and pos: "0 < eff_burst c" and srt: "sorted (map snd cs)"
    and exact: "eff_burst c \<le> 2 ^ 53" "eff_rps c \<le> 2 ^ 53"
    and win: "\<forall>x \<in> set cs. a \<le> snd x \<and> snd x \<le> b" "a \<le> b"
  shows "of_nat (count_list (results_for k cs (fst (mem_run (new_mem_limiter c) cs))) (Inr True))
     \<le> of_int (eff_burst c) + of_int (b - a) / 1000000000 * of_int (eff_rps c) * (1 + 1 / 2 ^ 50)
        + 3 * of_int (eff_burst c) / 2 ^ 53 * (of_nat (length (times_for k cs)) :: rat)"
  using assms by (rule mem_grants_bound)

theorem mem_rate_bound_witness:
  "of_nat (count_list (results_for ''k1'' [(''k1'', 0), (''k2'', 1), (''k1'', 2000000000)]
      (fst (mem_run (new_mem_limiter \<lparr>RPS = 1, Burst = 1, WindowSize = 0\<rparr>)
              [(''k1'', 0), (''k2'', 1), (''k1'', 2000000000)]))) (Inr True)) \<le> (31 / 10 :: rat)"
  using mem_rate_bound [of "''k1''" "\<lparr>RPS = 1, Burst = 1, WindowSize = 0\<rparr>"
      "[(''k1'', 0), (''k2'', 1), (''k1'', 2000000000)]" 0 2000000000]
  by (simp add: effective_def)

text \<open>
  Burst.  At one instant a fresh \<open>MemoryLimiter\<close> grants a key exactly its first
  \<open>burst\<close> calls and rejects the rest, whatever calls other keys make in between.
\<close>

lemma mem_burst_exact:
  assumes "k \<noteq> []" "0 < eff_burst c" "eff_burst c \<le> 2 ^ 53" "times_for k cs = replicate n now"
  shows "results_for k cs (fst (mem_run (new_mem_limiter c) cs))
     = replicate (min n (nat (eff_burst c))) (Inr True) @ replicate (n - nat (eff_burst c)) (Inr False)"
proof (cases n)
  case 0
  then have "times_for k cs = []" using assms(4) by simp
  then have "results_for k cs rs = []" for rs
    unfolding results_for_def times_for_def
    by (auto simp: filter_empty_conv dest: set_zip_leftD)
  then show ?thesis using 0 by simp
next
  case (Suc m)
  have fl: "fl64 (of_int (eff_burst c)) = of_int (eff_burst c)"
    using assms by (simp add: f64.exact_int)
  have "times_for k cs = now # replicate m now" using assms(4) Suc by simp
  from mem_run_fresh [OF assms(1) _ _ this, of "new_mem_limiter c" c] show ?thesis
    using mem_clock.run_standing [of "nat (eff_burst c)" "eff_burst c" "fl64 (of_int (eff_rps c))" now n]
      assms Suc by (simp add: new_mem_limiter_def fl map_replicate_const)
qed

theorem mem_burst_exact_witness:
  "results_for ''k1'' [(''k1'', 7), (''k2'', 7), (''k1'', 7), (''k1'', 7)]
     (fst (mem_run (new_mem_limiter \<lparr>RPS = 1, Burst = 2, WindowSize = 0\<rparr>)
        [(''k1'', 7), (''k2'', 7), (''k1'', 7), (''k1'', 7)]))
   = [Inr True, Inr True, Inr False]"
  using mem_burst_exact [of "''k1''" "\<lparr>RPS = 1, Burst = 2, WindowSize = 0\<rparr>"
      "[(''k1'', 7), (''k2'', 7), (''k1'', 7), (''k1'', 7)]" 3 7]
  by (simp add: effective_def numeral_eq_Suc)

lemma mem_run_no_key: "results_for [] cs (fst (mem_run m cs)) = map (\<lambda>_. Inl ErrNoKey) (times_for [] cs)"
proof (induction m cs rule: mem_run.induct)
  case (2 m key now cs)
  obtain r m' where a: "mem_allow m key now = (r, m')" by force
  from 2 [OF refl a [symmetric]] a show ?case
    by (auto simp: mem_allow_def split: prod.splits if_splits)
qed simp

text \<open>
  Isolation.  The results a key gets from \<open>MemoryLimiter\<close> depend only on the times of
  its own calls; a call without a key is always \<open>ErrNoKey\<close>.
\<close>

lemma mem_isolation:
  assumes "times_for k cs = times_for k cs'"
  shows "results_for k cs (fst (mem_run (new_mem_limiter c) cs))
       = results_for k cs' (fst (mem_run (new_mem_limiter c) cs'))
     \<and> (k = [] \<longrightarrow> set (results_for k cs (fst (mem_run (new_mem_limiter c) cs))) \<subseteq> {Inl ErrNoKey})"
proof (cases "k = []")
  case True
  then show ?thesis using assms by (auto simp: mem_run_no_key)
next
  case False
  show ?thesis
  proof (cases "times_for k cs")
    case Nil
    then have "results_for k cs rs = []" "results_for k cs' rs' = []" for rs rs'
      using assms unfolding results_for_def times_for_def
      by (auto simp: filter_empty_conv dest: set_zip_leftD)
    then show ?thesis using False by simp
  next
    case (Cons t ts)
    then show ?thesis
      using mem_run_fresh [OF False _ _ Cons, of "new_mem_limiter c" c]
        mem_run_fresh [OF False, of "new_mem_limiter c" c cs' t ts] assms False
      by (simp add: new_mem_limiter_def)
  qed
qed

theorem mem_isolation_witness:
  "results_for ''a'' [(''a'', 0), (''b'', 1)] (fst (mem_run (new_mem_limiter \<lparr>RPS = 1, Burst = 1, WindowSize = 0\<rparr>) [(''a'', 0), (''b'', 1)]))
   = results_for ''a'' [(''b'', 0), (''b'', 0), (''a'', 0)]
       (fst (mem_run (new_mem_limiter \<lparr>RPS = 1, Burst = 1, WindowSize = 0\<rparr>) [(''b'', 0), (''b'', 0), (''a'', 0)]))"
  using mem_isolation [of "''a''" "[(''a'', 0), (''b'', 1)]" "[(''b'', 0), (''b'', 0), (''a'', 0)]"
      "\<lparr>RPS = 1, Burst = 1, WindowSize = 0\<rparr>"] by simp

lemma mem_run_bucket_time:
  "buckets (snd (mem_run m cs)) k = Some b \<Longrightarrow>
   buckets m k = Some b \<or> last_refill b \<in> set (times_for k cs)"
proof (induction m cs rule: mem_run.induct)
  case (2 m key now cs)
  obtain r m' where a: "mem_allow m key now = (r, m')" by force
  have "buckets m' k = Some b \<Longrightarrow> buckets m k = Some b \<or> key = k \<and> last_refill b = now"
    using a by (auto simp: mem_allow_def bucket_step_def Let_def split: if_splits prod.splits)
  then show ?case using 2(1) [OF refl a [symmetric]] 2(2) a by (auto split: prod.splits)
qed simp

text \<open>
  C38: No starvation.  Whatever was called before, \<open>MemoryLimiter\<close> grants a key whose last
  call is at least a second ago.
\<close>

theorem mem_no_starvation:
  assumes k: "k \<noteq> []" and pos: "0 < eff_burst c" and srt: "sorted (map snd cs)"
    and old: "\<forall>t \<in> set (times_for k cs). t + second \<le> now"
  shows "fst (mem_allow (snd (mem_run (new_mem_limiter c) cs)) k now) = Inr True"
proof -
  define m where "m = snd (mem_run (new_mem_limiter c) cs)"
  obtain t where wf: "mem_wf c t m" using mem_run_wf [OF pos srt] by (auto simp: m_def)
  then have cfg: "ml_cfg m = c" by (simp add: mem_wf_def)
  have B: "1 \<le> fl64 (of_int (eff_burst c))" and R: "1 \<le> fl64 (of_int (eff_rps c))"
    using pos by (intro f64.ge_one; simp add: effective_def Let_def)+
  have "fst (mem_step c (bucket_of m k now) now)"
  proof (cases "buckets m k")
    case None
    then show ?thesis using B
      by (simp add: bucket_of_def cfg bucket_step_def Let_def mem_clock.el_same f64.idem)
  next
    case (Some b)
    then have "last_refill b \<in> set (times_for k cs)"
      using mem_run_bucket_time [of "new_mem_limiter c" cs k b] by (simp add: m_def new_mem_limiter_def)
    then have "second \<le> time_sub now (last_refill b)"
      using old by (auto simp: time_sub_def sat64_def)
    then have "1 \<le> mem_elapsed (last_refill b) now" by (simp add: mem_elapsed_def seconds_ge_one)
    then have "1 \<le> mem_elapsed (last_refill b) now * fl64 (of_int (eff_rps c))"
      using R mult_mono [of 1 "mem_elapsed (last_refill b) now" 1 "fl64 (of_int (eff_rps c))"] by simp
    moreover have "0 \<le> tokens b" using wf Some by (simp add: mem_wf_def)
    ultimately show ?thesis
      using Some B by (simp add: bucket_of_def mem_clock.step_grants)
  qed
  then show ?thesis
    unfolding m_def [symmetric] using mem_allow_step [OF k, of m now] cfg by (auto split: prod.splits)
qed

theorem mem_no_starvation_witness:
  "fst (mem_allow (snd (mem_run (new_mem_limiter \<lparr>RPS = 1, Burst = 1, WindowSize = 0\<rparr>)
      [(''k1'', 0), (''k1'', 5), (''k2'', 1000000000)])) ''k1'' 1000000005) = Inr True"
  using mem_no_starvation [of "''k1''" "\<lparr>RPS = 1, Burst = 1, WindowSize = 0\<rparr>"
      "[(''k1'', 0), (''k1'', 5), (''k2'', 1000000000)]" 1000000005]
  by (simp add: effective_def)

subsection \<open>Properties of the Redis limiter\<close>

text \<open>Script runs on one key: the clock readings of the callers and of the server.\<close>

fun script_run :: "redis_db \<Rightarrow> string \<Rightarrow> int \<Rightarrow> int \<Rightarrow> (int \<times> int) list \<Rightarrow> int list \<times> redis_db" where
  "script_run db key rps burst [] = ([], db)"
| "script_run db key rps burst ((now, srv) # cs) =
     (let (v, db') = allow_script db key rps burst now srv; (vs, db'') = script_run db' key rps burst cs
      in (v # vs, db''))"







text \<open>
  The hypothesis on \<open>now\<close> is needed: the script stores the caller's clock even when it is
  behind the stored one, so two gateways whose clocks are a second apart refill the bucket
  by a second on every other call, at one instant of the server.
\<close>

lemma redis_clock_skew:
  "fst (script_run (\<lambda>_. None) ''velo:rl:k'' 1 1
          [(1000, 0), (0, 0), (1000, 0), (0, 0), (1000, 0), (0, 0), (1000, 0)])
   = [1, 0, 1, 0, 1, 0, 1]"
  by (simp add: allow_script_def redis_get_def)

text \<open>
  The one-hour expiry of the Redis hash is invisible when the burst is at most an hour of
  refill and the server's clock is the callers' clock: a call that finds the hash expired
  gets the decision and leaves the hash of a call that still finds it.
\<close>

lemma redis_ttl_harmless:
  assumes "0 < rps" "rps \<le> 2 ^ 53" "0 < burst" "burst \<le> 3600 * rps"
    and "db key = Some e" "0 \<le> rt e" "rts e + 3600000 \<le> now"
  shows "allow_script (db(key := None)) key rps burst now now
       = allow_script (db(key \<mapsto> e\<lparr>expires := now + 1\<rparr>)) key rps burst now now"
proof -
  let ?B = "fl64 (of_int burst)" and ?a = "redis_elapsed (rts e) now * fl64 (of_int rps)"
  have rps: "fl64 (of_int rps) = of_int rps" using assms by (simp add: f64.exact_int)
  have "(3600 :: rat) \<le> of_int (now - rts e) / 1000"
    using assms(7) by (simp add: pos_le_divide_eq)
  then have "3600 \<le> redis_elapsed (rts e) now"
    using f64.mono [of 3600 "of_int (now - rts e) / 1000"] f64.exact_int [of 3600] assms(7)
    by (simp add: redis_elapsed_def)
  then have "3600 * of_int rps \<le> ?a" using assms(1) rps by simp
  moreover have "of_int burst \<le> (3600 * of_int rps :: rat)"
    using assms(4) by (metis of_int_le_iff of_int_mult of_int_numeral)
  ultimately have "?B \<le> fl64 ?a" by (intro f64.mono) simp
  then have "?B \<le> rt e + fl64 ?a" using assms(6) by simp
  then have "?B \<le> fl64 (rt e + fl64 ?a)" using f64.mono f64.idem by metis
  then show ?thesis
    by (simp add: allow_script_step redis_bucket_of_def redis_get_def bucket_step_def
        redis_clock.el_same f64.idem min_def)
qed

theorem redis_ttl_harmless_witness:
  "allow_script ((\<lambda>_. None)(''k'' := None)) ''k'' 1 10 3600000 3600000
   = allow_script ((\<lambda>_. None)(''k'' \<mapsto> \<lparr>rt = 0, rts = 0, expires = 3600001\<rparr>)) ''k'' 1 10 3600000 3600000"
  using redis_ttl_harmless [of 1 10 "(\<lambda>_. None)(''k'' \<mapsto> \<lparr>rt = 0, rts = 0, expires = 0\<rparr>)" "''k''"
      "\<lparr>rt = 0, rts = 0, expires = 0\<rparr>" 3600000]
  by simp

text \<open>
  C39: \<open>RedisLimiter.Allow\<close> never fails closed: a call with a key ends without an error
  whatever Redis does, and when Redis fails the decision is that of the in-process
  fallback, so that a client new to the fallback passes.
\<close>

theorem redis_degrades:
  assumes "key \<noteq> []"
  shows "\<exists>ok. fst (redis_allow r db key now_ms srv reply now) = Inr ok
     \<and> (reply \<noteq> Replied \<longrightarrow>
          fst (redis_allow r db key now_ms srv reply now) = fst (mem_allow (fallback r) key now)
        \<and> (buckets (fallback r) key = None \<and> 0 < eff_burst (ml_cfg (fallback r)) \<longrightarrow> ok))"
proof -
  obtain g t l where st: "mem_step (ml_cfg (fallback r)) (bucket_of (fallback r) key now) now = (g, t, l)"
    by (metis prod_cases3)
  have fb: "fst (mem_allow (fallback r) key now) = Inr g"
    by (simp add: mem_allow_step [OF assms] st)
  have fresh: "g" if "buckets (fallback r) key = None" "0 < eff_burst (ml_cfg (fallback r))"
  proof -
    have "1 \<le> fl64 (of_int (eff_burst (ml_cfg (fallback r))))" using that by (intro f64.ge_one) simp
    then show ?thesis using st that
      by (auto simp: bucket_of_def bucket_step_def Let_def mem_clock.el_same f64.idem)
  qed
  show ?thesis
    using assms fb fresh by (cases reply) (auto simp: redis_allow_def Let_def split: prod.splits)
qed

theorem redis_degrades_witness:
  "\<exists>ok. fst (redis_allow \<lparr>rl_cfg = \<lparr>RPS = 1, Burst = 1, WindowSize = 0\<rparr>,
        fallback = new_mem_limiter \<lparr>RPS = 1, Burst = 1, WindowSize = 0\<rparr>\<rparr>
        (\<lambda>_. None) ''k'' 0 0 (Failed False) 0) = Inr ok \<and> ok"
  using redis_degrades [of "''k''" "\<lparr>rl_cfg = \<lparr>RPS = 1, Burst = 1, WindowSize = 0\<rparr>,
        fallback = new_mem_limiter \<lparr>RPS = 1, Burst = 1, WindowSize = 0\<rparr>\<rparr>" "\<lambda>_. None" 0 0 "Failed False" 0]
  by (auto simp: new_mem_limiter_def effective_def)

end
