(* ===== verification/Go_Strings.thy ===== *)
theory Go_Strings
  imports Go_Prelude "HOL-Library.Sublist"
begin

section \<open>Go strings\<close>

text \<open>
  A Go string is a sequence of bytes: a \<open>string\<close> of the logic, one \<open>char\<close> to a byte.
  This theory models what the program uses of the packages \<open>strings\<close>, \<open>strconv\<close> and
  \<open>time\<close>: \<open>HasPrefix\<close> is \<open>prefix\<close> of the library; \<open>Contains\<close>, \<open>TrimSpace\<close>,
  \<open>Fields\<close> and \<open>Join\<close>; \<open>ParseBool\<close>, \<open>Atoi\<close> and \<open>ParseDuration\<close>.
\<close>

fun str_contains :: "string \<Rightarrow> string \<Rightarrow> bool" where
  "str_contains [] sub = (sub = [])"
| "str_contains (c # s) sub = (prefix sub (c # s) \<or> str_contains s sub)"

subsection \<open>White space\<close>

text \<open>
  The UTF-8 encodings of the runes for which \<open>unicode.IsSpace\<close> holds.  None of their first
  bytes is a continuation byte, so scanning byte by byte finds them exactly where scanning
  rune by rune does, also in strings that are not valid UTF-8.
\<close>

definition space_seqs :: "string list" where
  "space_seqs =
     [[CHR 0x20], [CHR 0x09], [CHR 0x0A], [CHR 0x0B], [CHR 0x0C], [CHR 0x0D],
      [CHR 0xC2, CHR 0x85], [CHR 0xC2, CHR 0xA0], [CHR 0xE1, CHR 0x9A, CHR 0x80],
      [CHR 0xE2, CHR 0x80, CHR 0x80], [CHR 0xE2, CHR 0x80, CHR 0x81], [CHR 0xE2, CHR 0x80, CHR 0x82],
      [CHR 0xE2, CHR 0x80, CHR 0x83], [CHR 0xE2, CHR 0x80, CHR 0x84], [CHR 0xE2, CHR 0x80, CHR 0x85],
      [CHR 0xE2, CHR 0x80, CHR 0x86], [CHR 0xE2, CHR 0x80, CHR 0x87], [CHR 0xE2, CHR 0x80, CHR 0x88],
      [CHR 0xE2, CHR 0x80, CHR 0x89], [CHR 0xE2, CHR 0x80, CHR 0x8A], [CHR 0xE2, CHR 0x80, CHR 0xA8],
      [CHR 0xE2, CHR 0x80, CHR 0xA9], [CHR 0xE2, CHR 0x80, CHR 0xAF], [CHR 0xE2, CHR 0x81, CHR 0x9F],
      [CHR 0xE3, CHR 0x80, CHR 0x80]]"

text \<open>The length of the white-space rune that a string starts with, 0 if it starts with none.\<close>

definition match_len :: "string list \<Rightarrow> string \<Rightarrow> nat" where
  "match_len ps s = (case find (\<lambda>p. prefix p s) ps of None \<Rightarrow> 0 | Some p \<Rightarrow> length p)"

abbreviation space_len :: "string \<Rightarrow> nat" where "space_len \<equiv> match_len space_seqs"

definition space_lead :: "char \<Rightarrow> bool" where
  "space_lead c \<longleftrightarrow> c \<in> set [CHR 0x20, CHR 0x09, CHR 0x0A, CHR 0x0B, CHR 0x0C, CHR 0x0D,
     CHR 0xC2, CHR 0xE1, CHR 0xE2, CHR 0xE3]"

lemma match_len_le: "match_len ps s \<le> length s"
  unfolding match_len_def
  by (auto simp: find_Some_iff prefix_length_le split: option.splits)

lemma space_seqs_lead: "list_all (\<lambda>p. p \<noteq> [] \<and> space_lead (hd p)) space_seqs"
  by code_simp

lemma space_len_plain [simp]: "\<not> space_lead c \<Longrightarrow> space_len (c # s) = 0"
proof -
  assume c: "\<not> space_lead c"
  have "\<not> prefix p (c # s)" if "p \<in> set space_seqs" for p
  proof -
    have "p \<noteq> []" "space_lead (hd p)" using that space_seqs_lead by (auto simp: list_all_iff)
    then show ?thesis using c by (cases p) auto
  qed
  then have "find (\<lambda>p. prefix p (c # s)) space_seqs = None"
    by (simp add: find_None_iff)
  then show ?thesis by (simp add: match_len_def)
qed

lemma space_len_blank [simp]: "space_len (CHR '' '' # s) = 1"
  by (simp add: match_len_def space_seqs_def)

lemma space_len_Nil [simp]: "space_len [] = 0"
  by (simp add: match_len_def space_seqs_def)

function strip :: "string list \<Rightarrow> string \<Rightarrow> string" where
  "strip ps s = (let n = match_len ps s in if n = 0 then s else strip ps (drop n s))"
  by pat_completeness auto
termination
proof (relation "measure (\<lambda>(ps, s). length s)")
  fix ps :: "string list" and s :: string and n
  assume "n = match_len ps s" "n \<noteq> 0"
  then show "((ps, drop n s), (ps, s)) \<in> measure (\<lambda>(ps, s). length s)"
    using match_len_le [of ps s] by simp
qed simp

declare strip.simps [simp del]

definition trim_space :: "string \<Rightarrow> string" where
  "trim_space s = rev (strip (map rev space_seqs) (rev (strip space_seqs s)))"

function fields_from :: "string \<Rightarrow> string \<Rightarrow> string list" where
  "fields_from cur [] = (if cur = [] then [] else [cur])"
| "fields_from cur (c # s) =
     (let n = space_len (c # s)
      in if n = 0 then fields_from (cur @ [c]) s
         else if cur = [] then fields_from [] (drop n (c # s))
         else cur # fields_from [] (drop n (c # s)))"
  by pat_completeness auto
termination by (relation "measure (\<lambda>(cur, s). length s)") auto

definition fields :: "string \<Rightarrow> string list" where
  "fields s = fields_from [] s"

fun join :: "string \<Rightarrow> string list \<Rightarrow> string" where
  "join sep [] = []"
| "join sep [s] = s"
| "join sep (s # t # ss) = s @ sep @ join sep (t # ss)"

text \<open>A word: not empty, and no byte that can start a white-space rune.\<close>

definition plain_word :: "string \<Rightarrow> bool" where
  "plain_word w \<longleftrightarrow> w \<noteq> [] \<and> (\<forall>c \<in> set w. \<not> space_lead c)"

lemma fields_from_word:
  "\<forall>c \<in> set w. \<not> space_lead c \<Longrightarrow> fields_from cur (w @ s) = fields_from (cur @ w) s"
  by (induction w arbitrary: cur) auto

lemma fields_join_words: "\<forall>w \<in> set ws. plain_word w \<Longrightarrow> fields (join '' '' ws) = ws"
proof (induction "'' ''" ws rule: join.induct)
  case (2 s)
  then show ?case using fields_from_word [of s "[]" "[]"] by (simp add: fields_def plain_word_def)
next
  case (3 s t ss)
  then have s: "s \<noteq> []" "\<forall>c \<in> set s. \<not> space_lead c" by (simp_all add: plain_word_def)
  have "fields (join '' '' (s # t # ss)) = fields_from s ('' '' @ join '' '' (t # ss))"
    using fields_from_word [OF s(2), of "[]"] by (simp add: fields_def)
  also have "\<dots> = s # fields (join '' '' (t # ss))" using s(1) by (simp add: fields_def)
  finally show ?case using 3 by simp
qed (simp add: fields_def)

subsection \<open>Numbers\<close>

definition is_digit :: "char \<Rightarrow> bool" where
  "is_digit c \<longleftrightarrow> 48 \<le> (of_char c :: nat) \<and> (of_char c :: nat) \<le> 57"

definition digit_val :: "char \<Rightarrow> int" where
  "digit_val c = of_char c - 48"

text \<open>\<open>strconv.ParseBool\<close>\<close>

definition go_parse_bool :: "string \<Rightarrow> bool option" where
  "go_parse_bool s =
     (if s \<in> {''1'', ''t'', ''T'', ''TRUE'', ''true'', ''True''} then Some True
      else if s \<in> {''0'', ''f'', ''F'', ''FALSE'', ''false'', ''False''} then Some False
      else None)"

text \<open>\<open>strconv.Atoi\<close>: an optional sign and decimal digits, within 64 bits.\<close>

fun digits_value :: "int \<Rightarrow> string \<Rightarrow> int option" where
  "digits_value n [] = Some n"
| "digits_value n (c # s) = (if is_digit c then digits_value (10 * n + digit_val c) s else None)"

definition atoi :: "string \<Rightarrow> int option" where
  "atoi s =
     (let neg = (case s of c # _ \<Rightarrow> c = CHR ''-'' | [] \<Rightarrow> False);
          ds = (case s of c # t \<Rightarrow> if c = CHR ''-'' \<or> c = CHR ''+'' then t else s | [] \<Rightarrow> s)
      in if ds = [] then None
         else case digits_value 0 ds of
                None \<Rightarrow> None
              | Some n \<Rightarrow> let v = (if neg then - n else n) in if int64 v then Some v else None)"

subsection \<open>Durations\<close>

text \<open>\<open>time.ParseDuration\<close> with its helpers \<open>leadingInt\<close> and \<open>leadingFraction\<close>.\<close>

fun leading_int :: "int \<Rightarrow> string \<Rightarrow> (int \<times> string) option" where
  "leading_int x [] = Some (x, [])"
| "leading_int x (c # s) =
     (if \<not> is_digit c then Some (x, c # s)
      else if x > 2 ^ 63 div 10 then None
      else let x = x * 10 + digit_val c in if x > 2 ^ 63 then None else leading_int x s)"

fun leading_fraction :: "int \<Rightarrow> float64 \<Rightarrow> bool \<Rightarrow> string \<Rightarrow> int \<times> float64 \<times> string" where
  "leading_fraction x scale ovf [] = (x, scale, [])"
| "leading_fraction x scale ovf (c # s) =
     (if \<not> is_digit c then (x, scale, c # s)
      else if ovf then leading_fraction x scale True s
      else if x > (2 ^ 63 - 1) div 10 then leading_fraction x scale True s
      else let y = x * 10 + digit_val c
           in if y > 2 ^ 63 then leading_fraction x scale True s
              else leading_fraction y (fl64 (scale * 10)) False s)"

definition unit_map :: "string \<Rightarrow> int option" where
  "unit_map = map_of
     [(''ns'', 1), (''us'', 1000), ([CHR 0xC2, CHR 0xB5, CHR ''s''], 1000),
      ([CHR 0xCE, CHR 0xBC, CHR ''s''], 1000), (''ms'', millisecond), (''s'', second),
      (''m'', 60 * second), (''h'', 3600 * second)]"

definition unit_char :: "char \<Rightarrow> bool" where
  "unit_char c \<longleftrightarrow> \<not> (c = CHR ''.'' \<or> is_digit c)"

text \<open>
  One round of the loop.  The number before the unit: integer part, fraction with its
  scale, and the rest of the string.
\<close>

definition duration_number :: "string \<Rightarrow> (int \<times> int \<times> float64 \<times> string) option" where
  "duration_number s =
     (if s = [] \<or> \<not> (hd s = CHR ''.'' \<or> is_digit (hd s)) then None
      else case leading_int 0 s of
        None \<Rightarrow> None
      | Some (v, s1) \<Rightarrow>
          if s1 \<noteq> [] \<and> hd s1 = CHR ''.''
          then (let (f, scale, s2) = leading_fraction 0 1 False (tl s1)
                in if length s = length s1 \<and> length (tl s1) = length s2 then None
                   else Some (v, f, scale, s2))
          else if length s = length s1 then None
          else Some (v, 0, 1, s1))"

text \<open>The number with its unit, in nanoseconds, and the rest of the string.\<close>

definition duration_term :: "string \<Rightarrow> (int \<times> string) option" where
  "duration_term s =
     (case duration_number s of
        None \<Rightarrow> None
      | Some (v, f, scale, s2) \<Rightarrow>
          (let u = takeWhile unit_char s2
           in if u = [] then None
              else case unit_map u of
                None \<Rightarrow> None
              | Some unit \<Rightarrow>
                  if v > 2 ^ 63 div unit then None
                  else let v = v * unit;
                           v' = v + \<lfloor>fl64 (fl64 (of_int f) * fl64 (of_int unit / scale))\<rfloor>
                       in if f > 0
                          then (if v' > 2 ^ 63 then None else Some (v', dropWhile unit_char s2))
                          else Some (v, dropWhile unit_char s2)))"

lemma leading_int_length: "leading_int x s = Some (v, t) \<Longrightarrow> length t \<le> length s"
  by (induction x s rule: leading_int.induct) (auto simp: Let_def split: if_splits)

lemma leading_fraction_length: "leading_fraction x sc b s = (f, sc', t) \<Longrightarrow> length t \<le> length s"
  by (induction x sc b s rule: leading_fraction.induct) (auto simp: Let_def split: if_splits)

lemma duration_number_length: "duration_number s = Some (v, f, sc, t) \<Longrightarrow> length t \<le> length s"
proof -
  assume d: "duration_number s = Some (v, f, sc, t)"
  then obtain w s1 where l: "leading_int 0 s = Some (w, s1)"
    by (auto simp: duration_number_def split: if_splits option.splits)
  obtain f' sc' s2 where fr: "leading_fraction 0 1 False (tl s1) = (f', sc', s2)" by (metis prod_cases3)
  have "length (tl s1) \<le> length s1" by simp
  then show ?thesis
    using d leading_int_length [OF l] leading_fraction_length [OF fr]
    by (auto simp: duration_number_def l fr Let_def split: if_splits)
qed

lemma dropWhile_shorter: "takeWhile P u \<noteq> [] \<Longrightarrow> length (dropWhile P u) < length u"
  by (metis length_append length_greater_0_conv less_add_same_cancel2 takeWhile_dropWhile_id)

lemma duration_term_length: "duration_term s = Some (v, t) \<Longrightarrow> length t < length s"
proof -
  assume d: "duration_term s = Some (v, t)"
  then obtain w f sc s2 where n: "duration_number s = Some (w, f, sc, s2)"
    by (auto simp: duration_term_def split: option.splits)
  have "t = dropWhile unit_char s2" "takeWhile unit_char s2 \<noteq> []"
    using d by (simp_all add: duration_term_def n Let_def split: if_splits option.splits)
  then show ?thesis using dropWhile_shorter [of unit_char s2] duration_number_length [OF n] by simp
qed

function duration_terms :: "int \<Rightarrow> string \<Rightarrow> int option" where
  "duration_terms d s =
     (if s = [] then Some d
      else case duration_term s of
        None \<Rightarrow> None
      | Some (v, t) \<Rightarrow>
          let d = (d + v) mod 2 ^ 64 in if d > 2 ^ 63 then None else duration_terms d t)"
  by pat_completeness auto
termination
  by (relation "measure (\<lambda>(d, s). length s)") (auto dest: duration_term_length)

declare duration_terms.simps [simp del]

definition parse_duration :: "string \<Rightarrow> duration option" where
  "parse_duration s =
     (let neg = (s \<noteq> [] \<and> hd s = CHR ''-'');
          s = (if s \<noteq> [] \<and> (hd s = CHR ''-'' \<or> hd s = CHR ''+'') then tl s else s)
      in if s = ''0'' then Some 0
         else if s = [] then None
         else case duration_terms 0 s of
                None \<Rightarrow> None
              | Some d \<Rightarrow> if neg then Some (- d) else if d > 2 ^ 63 - 1 then None else Some d)"

end
