(* ===== verification/Router.thy ===== *)
theory Router
  imports Config
begin

section \<open>The router\<close>

text \<open>
  The package \<open>internal/router\<close>: the backend with its telemetry (\<open>backend.go\<close>), the
  choice of a backend and the retry loop (\<open>router.go\<close>) and the health probes
  (\<open>health.go\<close>).

  A pointer to a backend is its index in the router's list, which never changes.  A call
  of \<open>rand.Intn\<close> is an argument, a function that returns some number below its bound.
  The HTTP exchange with a backend is an argument as well: its outcome per backend.  Other
  goroutines may run before each choice and during each exchange: they are arguments too,
  functions on the router that leave its configuration and the backends' names, URLs and
  weights alone.
\<close>

subsection \<open>Backends\<close>

record backend =
  Name :: string
  URL :: string
  Weight :: int
  client_timeout :: duration
  failures :: int
  lastFailAt :: "time option"
  healthy :: bool
  inFlight :: int

definition new_backend :: "string \<Rightarrow> string \<Rightarrow> int \<Rightarrow> duration \<Rightarrow> backend" where
  "new_backend name url weight timeout =
     \<lparr>Name = name, URL = url, Weight = (if weight \<le> 0 then 1 else weight),
      client_timeout = timeout, failures = 0, lastFailAt = None, healthy = True, inFlight = 0\<rparr>"

definition mark_failure :: "time \<Rightarrow> backend \<Rightarrow> backend" where
  "mark_failure now b = b\<lparr>failures := failures b + 1, lastFailAt := Some now\<rparr>"

definition mark_success :: "backend \<Rightarrow> backend" where
  "mark_success b = b\<lparr>failures := 0\<rparr>"

definition add_in_flight :: "int \<Rightarrow> backend \<Rightarrow> backend" where
  "add_in_flight d b = b\<lparr>inFlight := inFlight b + d\<rparr>"

subsection \<open>The router\<close>

text \<open>
  The router with the counters it feeds: \<open>BackendUp\<close>, \<open>BackendErrors\<close> by backend and
  reason, and \<open>BackendRetries\<close>.
\<close>

record router =
  r_cfg :: router_config
  backends :: "backend list"
  rrIdx :: int
  BackendUp :: "string \<Rightarrow> int option"
  BackendErrors :: "string \<Rightarrow> string \<Rightarrow> nat"
  BackendRetries :: nat

definition upd_backend :: "nat \<Rightarrow> (backend \<Rightarrow> backend) \<Rightarrow> router \<Rightarrow> router" where
  "upd_backend i f r = r\<lparr>backends := (backends r)[i := f (backends r ! i)]\<rparr>"

definition count_error :: "string \<Rightarrow> string \<Rightarrow> router \<Rightarrow> router" where
  "count_error name reason r =
     r\<lparr>BackendErrors := (BackendErrors r)(name := (BackendErrors r name)(reason := Suc (BackendErrors r name reason)))\<rparr>"

definition set_up :: "string \<Rightarrow> int \<Rightarrow> router \<Rightarrow> router" where
  "set_up name v r = r\<lparr>BackendUp := (BackendUp r)(name := Some v)\<rparr>"

definition new_router :: "router_config \<Rightarrow> string + router" where
  "new_router cfg =
     (if Backends cfg = [] then Inl ''router: no backends configured''
      else
        let bs = map (\<lambda>b. new_backend (bc_Name b) (bc_URL b) (bc_Weight b) (RequestTimeout cfg)) (Backends cfg)
        in Inr (fold (\<lambda>b. set_up (Name b) 1) bs
             \<lparr>r_cfg = cfg, backends = bs, rrIdx = 0, BackendUp = (\<lambda>_. None),
              BackendErrors = (\<lambda>_ _. 0), BackendRetries = 0\<rparr>))"

subsection \<open>Choosing a backend\<close>

type_synonym intn = "int \<Rightarrow> int"

definition intn_ok :: "intn \<Rightarrow> bool" where
  "intn_ok f \<longleftrightarrow> (\<forall>n > 0. 0 \<le> f n \<and> f n < n)"

text \<open>
  The scan of \<open>weightedPick\<close>.  Its subtractions stay within 64 bits: it goes on only
  while \<open>x\<close> is not negative.
\<close>

fun weighted_scan :: "backend list \<Rightarrow> int \<Rightarrow> nat list \<Rightarrow> nat option" where
  "weighted_scan bs x [] = None"
| "weighted_scan bs x (i # is) =
     (let x = x - Weight (bs ! i) in if x < 0 then Some i else weighted_scan bs x is)"

definition weighted_pick :: "backend list \<Rightarrow> nat list \<Rightarrow> intn \<Rightarrow> nat" where
  "weighted_pick bs cs draw =
     (let total = fold (\<lambda>i t. wrap64 (t + Weight (bs ! i))) cs 0
      in if total \<le> 0 then cs ! nat (draw (int (length cs)))
         else case weighted_scan bs (draw total) cs of Some i \<Rightarrow> i | None \<Rightarrow> last cs)"

definition candidates :: "backend list \<Rightarrow> string set \<Rightarrow> nat list" where
  "candidates bs exclude =
     filter (\<lambda>i. Name (bs ! i) \<notin> exclude \<and> healthy (bs ! i)) [0..<length bs]"

datatype pick_result = PickPanic | Picked "nat option"

definition pick_p2c :: "backend list \<Rightarrow> nat list \<Rightarrow> intn \<Rightarrow> intn \<Rightarrow> nat" where
  "pick_p2c bs cs draw1 draw2 =
     (if length cs = 1 then cs ! 0
      else
        let a = weighted_pick bs cs draw1;
            c = weighted_pick bs cs draw2;
            c = (if a = c \<and> length cs > 1
                 then (case find (\<lambda>x. x \<noteq> a) cs of Some x \<Rightarrow> x | None \<Rightarrow> c)
                 else c)
        in if inFlight (bs ! a) \<le> inFlight (bs ! c) then a else c)"

definition pick :: "router \<Rightarrow> string set \<Rightarrow> intn \<Rightarrow> intn \<Rightarrow> pick_result \<times> router" where
  "pick r exclude draw1 draw2 =
     (let bs = backends r; cs = candidates bs exclude
      in if cs = []
         then (Picked (find (\<lambda>i. Name (bs ! i) \<notin> exclude) [0..<length bs]), r)
         else if Strategy (r_cfg r) = ''round_robin''
         then let k = go_rem (rrIdx r) (int (length cs))
              in if k < 0 then (PickPanic, r)
                 else (Picked (Some (cs ! nat k)), r\<lparr>rrIdx := wrap64 (rrIdx r + 1)\<rparr>)
         else (Picked (Some (pick_p2c bs cs draw1 draw2)), r))"

subsection \<open>One exchange with a backend\<close>

datatype go_error =
    DeadlineExceeded
  | Canceled
  | Upstream string int string
  | NoHealthyBackends
  | NoRouter
  | OtherError string

definition classify :: "go_error option \<Rightarrow> string" where
  "classify e =
     (case e of
        None \<Rightarrow> ''ok''
      | Some DeadlineExceeded \<Rightarrow> ''timeout''
      | Some Canceled \<Rightarrow> ''canceled''
      | Some _ \<Rightarrow> ''error'')"

text \<open>
  What the exchange comes to: the request cannot be built, the client reports an error, or
  a response with its status and body arrives.
\<close>

datatype exchange = BadRequest go_error | ClientError go_error | Answer int string

text \<open>A response whose body is the counting wrapper of the backend that served it.\<close>

record response =
  StatusCode :: int
  Body :: string
  server_of :: nat
  closed :: bool

definition do_begin :: "nat \<Rightarrow> router \<Rightarrow> router" where
  "do_begin i = upd_backend i (add_in_flight 1)"

definition do_end :: "nat \<Rightarrow> exchange \<Rightarrow> router \<Rightarrow> (go_error + response) \<times> router" where
  "do_end i x r =
     (case x of
        BadRequest e \<Rightarrow> (Inl e, upd_backend i (add_in_flight (- 1)) r)
      | ClientError e \<Rightarrow> (Inl e, upd_backend i (add_in_flight (- 1)) r)
      | Answer code body \<Rightarrow>
          if go_quot code 100 = 5
          then (Inl (Upstream (Name (backends r ! i)) code (take 4096 body)),
                upd_backend i (add_in_flight (- 1)) r)
          else (Inr \<lparr>StatusCode = code, Body = body, server_of = i, closed = False\<rparr>, r))"

text \<open>\<open>countingBody.Close\<close>\<close>

definition close_body :: "response \<Rightarrow> router \<Rightarrow> response \<times> router" where
  "close_body resp r =
     (if closed resp then (resp, r)
      else (resp\<lparr>closed := True\<rparr>,
            upd_backend (server_of resp) (mark_success \<circ> add_in_flight (- 1)) r))"

subsection \<open>The retry loop\<close>

text \<open>What surrounds one attempt.\<close>

record attempt_env =
  draw1 :: intn
  draw2 :: intn
  others_before :: "router \<Rightarrow> router"
  others_during :: "router \<Rightarrow> router"
  exchange_with :: "nat \<Rightarrow> exchange"
  fail_time :: time

datatype do_result = DoPanic | DoErr go_error | DoOk response string

definition finish :: "go_error option \<Rightarrow> do_result" where
  "finish lastErr = DoErr (case lastErr of None \<Rightarrow> NoHealthyBackends | Some e \<Rightarrow> e)"

text \<open>
  The loop of \<open>Do\<close> from attempt \<open>i\<close> with \<open>n\<close> attempts left.  \<open>tried\<close> lists the
  backends asked so far, the last one first; it stands for the map of their names.
\<close>

fun do_loop ::
  "(nat \<Rightarrow> attempt_env) \<Rightarrow> nat \<Rightarrow> nat \<Rightarrow> nat list \<Rightarrow> go_error option \<Rightarrow> router
    \<Rightarrow> do_result \<times> nat list \<times> router" where
  "do_loop env i 0 tried lastErr r = (finish lastErr, tried, r)"
| "do_loop env i (Suc n) tried lastErr r =
     (let r = others_before (env i) r
      in case pick r ((\<lambda>j. Name (backends r ! j)) ` set tried) (draw1 (env i)) (draw2 (env i)) of
           (PickPanic, r) \<Rightarrow> (DoPanic, tried, r)
         | (Picked None, r) \<Rightarrow> (finish lastErr, tried, r)
         | (Picked (Some b), r) \<Rightarrow>
             (let r = others_during (env i) (do_begin b r)
              in case do_end b (exchange_with (env i) b) r of
                   (Inr resp, r) \<Rightarrow> (DoOk resp (Name (backends r ! b)), b # tried, r)
                 | (Inl err, r) \<Rightarrow>
                     let r = count_error (Name (backends r ! b)) (classify (Some err)) r;
                         r = upd_backend b (mark_failure (fail_time (env i))) r;
                         r = (if n > 0 then r\<lparr>BackendRetries := BackendRetries r + 1\<rparr> else r)
                     in do_loop env (Suc i) n (b # tried) (Some err) r))"

definition attempts :: "router \<Rightarrow> nat" where
  "attempts r = nat (max 1 (RetryAttempts (r_cfg r)))"

definition do_request :: "(nat \<Rightarrow> attempt_env) \<Rightarrow> router \<Rightarrow> do_result \<times> nat list \<times> router" where
  "do_request env r = do_loop env 0 (attempts r) [] None r"

subsection \<open>Health probes\<close>

definition record_health :: "nat \<Rightarrow> bool \<Rightarrow> router \<Rightarrow> router" where
  "record_health i ok r =
     (let name = Name (backends r ! i)
      in if ok
         then set_up name 1 (upd_backend i (\<lambda>b. b\<lparr>failures := 0, healthy := True\<rparr>) r)
         else
           let r = upd_backend i (\<lambda>b. b\<lparr>failures := failures b + 1\<rparr>) r; b = backends r ! i
           in if failures b \<ge> FailureThreshold (r_cfg r) \<and> healthy b
              then count_error name ''unhealthy'' (set_up name 0 (upd_backend i (\<lambda>b. b\<lparr>healthy := False\<rparr>) r))
              else r)"

definition check_one :: "nat \<Rightarrow> exchange \<Rightarrow> router \<Rightarrow> router" where
  "check_one i x r =
     (case x of
        BadRequest _ \<Rightarrow> record_health i False r
      | ClientError _ \<Rightarrow> record_health i False r
      | Answer code _ \<Rightarrow> record_health i (go_quot code 100 = 2) r)"

subsection \<open>What never changes\<close>

definition static :: "router \<Rightarrow> router_config \<times> (string \<times> string \<times> int) list" where
  "static r = (r_cfg r, map (\<lambda>b. (Name b, URL b, Weight b)) (backends r))"

lemma staticD:
  assumes "static r' = static r"
  shows "r_cfg r' = r_cfg r" "length (backends r') = length (backends r)"
    "i < length (backends r) \<Longrightarrow> Name (backends r' ! i) = Name (backends r ! i)"
    "Name ` set (backends r') = Name ` set (backends r)"
proof -
  have m: "map (\<lambda>b. (Name b, URL b, Weight b)) (backends r') = map (\<lambda>b. (Name b, URL b, Weight b)) (backends r)"
    using assms by (simp add: static_def)
  show "r_cfg r' = r_cfg r" using assms by (simp add: static_def)
  show l: "length (backends r') = length (backends r)" using map_eq_imp_length_eq [OF m] .
  have n: "map Name (backends r') = map Name (backends r)"
    using arg_cong [OF m, of "map fst"] by (simp add: comp_def)
  then show "i < length (backends r) \<Longrightarrow> Name (backends r' ! i) = Name (backends r ! i)"
    using l by (metis nth_map)
  show "Name ` set (backends r') = Name ` set (backends r)"
    using arg_cong [OF n, of set] by simp
qed

lemma upd_backend_simps [simp]:
  "r_cfg (upd_backend i f r) = r_cfg r" "rrIdx (upd_backend i f r) = rrIdx r"
  "length (backends (upd_backend i f r)) = length (backends r)"
  "BackendRetries (upd_backend i f r) = BackendRetries r"
  "j < length (backends r) \<Longrightarrow>
     backends (upd_backend i f r) ! j = (if i = j then f (backends r ! j) else backends r ! j)"
  by (simp_all add: upd_backend_def nth_list_update)

lemma count_error_simps [simp]:
  "r_cfg (count_error n k r) = r_cfg r" "rrIdx (count_error n k r) = rrIdx r"
  "backends (count_error n k r) = backends r" "BackendRetries (count_error n k r) = BackendRetries r"
  by (simp_all add: count_error_def)

lemma set_up_simps [simp]:
  "r_cfg (set_up n v r) = r_cfg r" "rrIdx (set_up n v r) = rrIdx r"
  "backends (set_up n v r) = backends r" "BackendRetries (set_up n v r) = BackendRetries r"
  by (simp_all add: set_up_def)

lemma static_upd_backend:
  assumes "\<And>b. Name (f b) = Name b \<and> URL (f b) = URL b \<and> Weight (f b) = Weight b"
  shows "static (upd_backend i f r) = static r"
proof (cases "i < length (backends r)")
  case True
  then show ?thesis
    using assms by (simp add: static_def upd_backend_def map_update) (metis (no_types, lifting)
      length_map list_update_id nth_map)
qed (simp add: static_def upd_backend_def list_update_beyond)

lemma static_keeps [simp]:
  "static (upd_backend i (add_in_flight d) r) = static r"
  "static (upd_backend i (mark_failure t) r) = static r"
  "static (upd_backend i mark_success r) = static r"
  "static (upd_backend i (mark_success \<circ> add_in_flight d) r) = static r"
  "static (do_begin i r) = static r"
  "static (count_error n k r) = static r"
  "static (set_up n v r) = static r"
  "static (r\<lparr>BackendRetries := m\<rparr>) = static r"
  "static (r\<lparr>rrIdx := x\<rparr>) = static r"
  by (simp_all add: do_begin_def static_upd_backend add_in_flight_def mark_failure_def mark_success_def)
     (simp_all add: static_def)

subsection \<open>The weighted choice\<close>

lemma weighted_scan_in: "weighted_scan bs x cs = Some i \<Longrightarrow> i \<in> set cs"
  by (induction cs arbitrary: x) (auto simp: Let_def split: if_splits)

lemma total_weight:
  assumes "0 \<le> acc" "\<forall>i \<in> set cs. 0 \<le> Weight (bs ! i)"
    and "acc + (\<Sum>i\<leftarrow>cs. Weight (bs ! i)) < 2 ^ 63"
  shows "fold (\<lambda>i t. wrap64 (t + Weight (bs ! i))) cs acc = acc + (\<Sum>i\<leftarrow>cs. Weight (bs ! i))"
  using assms
proof (induction cs arbitrary: acc)
  case (Cons i cs)
  have "0 \<le> (\<Sum>i\<leftarrow>cs. Weight (bs ! i))"
    using Cons.prems by (intro sum_list_nonneg) auto
  then have "int64 (acc + Weight (bs ! i))" using Cons.prems by (simp add: int64_def)
  then show ?case using Cons by (simp add: add.assoc)
qed simp

lemma weighted_pick_in:
  assumes "cs \<noteq> []" "intn_ok draw"
  shows "weighted_pick bs cs draw \<in> set cs"
proof -
  have "0 \<le> draw (int (length cs)) \<and> draw (int (length cs)) < int (length cs)"
    using assms by (simp add: intn_ok_def)
  then have "cs ! nat (draw (int (length cs))) \<in> set cs" by (intro nth_mem) linarith
  then show ?thesis
    using assms by (auto simp: weighted_pick_def Let_def dest: weighted_scan_in split: option.split)
qed

text \<open>The draws below the total weight that select \<open>i\<close>.\<close>

lemma weighted_scan_share:
  assumes "distinct cs" "\<forall>i \<in> set cs. 0 \<le> Weight (bs ! i)" "i \<in> set cs"
  shows "card {x \<in> {0 ..< (\<Sum>i\<leftarrow>cs. Weight (bs ! i))}. weighted_scan bs x cs = Some i} = nat (Weight (bs ! i))"
  using assms
proof (induction cs)
  case (Cons k cs)
  let ?w = "Weight (bs ! k)" and ?t = "\<Sum>i\<leftarrow>cs. Weight (bs ! i)"
  have t: "0 \<le> ?t" using Cons.prems by (intro sum_list_nonneg) auto
  show ?case
  proof (cases "i = k")
    case True
    then have no: "weighted_scan bs x cs \<noteq> Some i" for x
      using Cons.prems weighted_scan_in by fastforce
    have "{x \<in> {0 ..< ?w + ?t}. weighted_scan bs x (k # cs) = Some i} = {0 ..< ?w}"
      using True t no by (auto simp: Let_def)
    then show ?thesis using True by simp
  next
    case False
    then have i: "i \<in> set cs" using Cons.prems by simp
    have "{x \<in> {0 ..< ?w + ?t}. weighted_scan bs x (k # cs) = Some i}
        = (\<lambda>x. x + ?w) ` {x \<in> {0 ..< ?t}. weighted_scan bs x cs = Some i}" (is "?L = ?R")
    proof (intro set_eqI iffI)
      fix x assume "x \<in> ?L"
      then have "x - ?w \<in> {x \<in> {0 ..< ?t}. weighted_scan bs x cs = Some i}"
        using False by (auto simp: Let_def split: if_splits)
      then show "x \<in> ?R" by (metis (no_types, lifting) diff_add_cancel imageI)
    next
      fix x assume "x \<in> ?R"
      then show "x \<in> ?L" using Cons.prems(2) by (auto simp: Let_def)
    qed
    moreover have "inj_on (\<lambda>x. x + ?w) A" for A by (simp add: inj_on_def)
    ultimately show ?thesis using Cons.IH Cons.prems i by (simp add: card_image)
  qed
qed simp

lemma candidates_iff:
  "i \<in> set (candidates bs ex) \<longleftrightarrow> i < length bs \<and> Name (bs ! i) \<notin> ex \<and> healthy (bs ! i)"
  by (auto simp: candidates_def)

lemma distinct_candidates: "distinct (candidates bs ex)"
  by (simp add: candidates_def)

lemma find_upt_None: "find P [0..<n] = None \<longleftrightarrow> (\<forall>i < n. \<not> P i)"
  by (auto simp: find_None_iff)

lemma find_upt_Some: "find P [0..<n] = Some i \<Longrightarrow> i < n \<and> P i"
  by (auto simp: find_Some_iff)

text \<open>Two different candidates and the less loaded of them.\<close>

lemma pick_p2c_two:
  assumes cs: "distinct cs" "2 \<le> length cs" and d: "intn_ok d1" "intn_ok d2"
  shows "\<exists>c \<in> set cs. c \<noteq> pick_p2c bs cs d1 d2 \<and> pick_p2c bs cs d1 d2 \<in> set cs
     \<and> inFlight (bs ! pick_p2c bs cs d1 d2) \<le> inFlight (bs ! c)"
proof -
  define a c0 where "a = weighted_pick bs cs d1" and "c0 = weighted_pick bs cs d2"
  define c where "c = (if a = c0 \<and> length cs > 1
      then (case find (\<lambda>x. x \<noteq> a) cs of Some x \<Rightarrow> x | None \<Rightarrow> c0) else c0)"
  have ne: "cs \<noteq> []" using cs by auto
  have ac0: "a \<in> set cs" "c0 \<in> set cs"
    using weighted_pick_in [OF ne] d by (simp_all add: a_def c0_def)
  obtain x where x: "x \<in> set cs" "x \<noteq> a"
    using cs by (metis One_nat_def Suc_1 card_le_Suc0_iff_eq distinct_card finite_set not_less_eq_eq)
  have "c \<in> set cs" "c \<noteq> a"
  proof -
    show "c \<in> set cs" using ac0
      by (auto simp: c_def find_Some_iff split: option.split)
    show "c \<noteq> a"
    proof (cases "a = c0")
      case True
      obtain y where y: "find (\<lambda>x. x \<noteq> a) cs = Some y"
        using x by (metis (mono_tags, lifting) find_None_iff option.exhaust)
      then have "y \<noteq> a" by (auto simp: find_Some_iff)
      then show ?thesis using True cs(2) y by (simp add: c_def)
    qed (simp add: c_def)
  qed
  moreover have "pick_p2c bs cs d1 d2 = (if inFlight (bs ! a) \<le> inFlight (bs ! c) then a else c)"
    using cs(2) unfolding pick_p2c_def Let_def a_def [symmetric] c0_def [symmetric] c_def [symmetric]
    by auto
  ultimately show ?thesis using ac0 by auto
qed

lemma pick_p2c_in:
  assumes "distinct cs" "cs \<noteq> []" "intn_ok d1" "intn_ok d2"
  shows "pick_p2c bs cs d1 d2 \<in> set cs"
proof (cases "2 \<le> length cs")
  case True
  then show ?thesis using pick_p2c_two [OF assms(1) _ assms(3,4)] by blast
next
  case False
  then have "length cs = 1" using assms(2) by (cases cs) (auto simp: not_less_eq_eq)
  then show ?thesis using assms(2) by (simp add: pick_p2c_def nth_mem)
qed


lemma weighted_scan_hits:
  assumes "\<forall>i \<in> set cs. 0 \<le> Weight (bs ! i)" "0 \<le> x" "x < (\<Sum>i\<leftarrow>cs. Weight (bs ! i))"
  shows "\<exists>k. weighted_scan bs x cs = Some k"
  using assms by (induction cs arbitrary: x) (auto simp: Let_def)

lemma go_rem_index:
  assumes "0 \<le> k" "cs \<noteq> []"
  shows "0 \<le> go_rem k (int (length cs))" "nat (go_rem k (int (length cs))) = nat k mod length cs"
proof -
  have e: "go_rem k (int (length cs)) = k mod int (length cs)"
    using assms by (simp add: go_rem_nonneg)
  then show "0 \<le> go_rem k (int (length cs))" using assms by simp
  show "nat (go_rem k (int (length cs))) = nat k mod length cs"
    using e assms by (simp add: nat_mod_distrib)
qed

lemma go_rem_less: "0 < b \<Longrightarrow> go_rem a b < b"
proof (cases "0 \<le> a")
  case False
  assume b: "0 < b"
  have "b * (- a div b) \<le> - a"
    using mult_div_mod_eq [of b "- a"] pos_mod_sign [OF b, of "- a"] by linarith
  then have "go_rem a b \<le> 0" using False b by (simp add: go_rem_def go_quot_def)
  then show ?thesis using b by simp
qed (simp add: go_rem_nonneg)

definition picked_ok :: "backend list \<Rightarrow> string set \<Rightarrow> nat option \<Rightarrow> bool" where
  "picked_ok bs ex res \<longleftrightarrow>
     (case res of
        None \<Rightarrow> \<forall>j < length bs. Name (bs ! j) \<in> ex
      | Some i \<Rightarrow> i < length bs \<and> Name (bs ! i) \<notin> ex \<and>
          (if \<exists>j < length bs. Name (bs ! j) \<notin> ex \<and> healthy (bs ! j)
           then healthy (bs ! i)
           else \<forall>j < i. Name (bs ! j) \<in> ex))"

lemma pick_panic:
  assumes "pick r ex d1 d2 = (PickPanic, r')"
  shows "Strategy (r_cfg r) = ''round_robin''" "rrIdx r < 0" "r' = r"
proof -
  let ?n = "int (length (candidates (backends r) ex))"
  have c: "candidates (backends r) ex \<noteq> []" "Strategy (r_cfg r) = ''round_robin''"
    "go_rem (rrIdx r) ?n < 0" "r' = r"
    using assms by (auto simp: pick_def Let_def split: if_splits)
  show "Strategy (r_cfg r) = ''round_robin''" "r' = r" using c by simp_all
  have "0 < ?n" using c(1) by simp
  then have "0 \<le> rrIdx r \<Longrightarrow> 0 \<le> go_rem (rrIdx r) ?n" by (simp add: go_rem_nonneg)
  then show "rrIdx r < 0" using c(3) by linarith
qed

lemma pick_cases:
  assumes d: "intn_ok d1" "intn_ok d2" and np: "fst (pick r ex d1 d2) \<noteq> PickPanic"
  shows "\<exists>res k. pick r ex d1 d2 = (Picked res, r\<lparr>rrIdx := k\<rparr>) \<and> picked_ok (backends r) ex res"
proof (cases "candidates (backends r) ex = []")
  case True
  then have none: "\<not> (\<exists>j < length (backends r). Name (backends r ! j) \<notin> ex \<and> healthy (backends r ! j))"
    using candidates_iff [of _ "backends r" ex] by auto
  let ?f = "find (\<lambda>i. Name (backends r ! i) \<notin> ex) [0..<length (backends r)]"
  have p: "pick r ex d1 d2 = (Picked ?f, r\<lparr>rrIdx := rrIdx r\<rparr>)"
    using True by (simp add: pick_def Let_def)
  show ?thesis
  proof (cases ?f)
    case None
    then have "\<forall>j < length (backends r). Name (backends r ! j) \<in> ex" by (simp add: find_upt_None)
    then show ?thesis using p None by (intro exI [of _ None] exI [of _ "rrIdx r"]) (simp add: picked_ok_def)
  next
    case (Some i)
    then have "i < length (backends r)" "Name (backends r ! i) \<notin> ex" "\<forall>j < i. Name (backends r ! j) \<in> ex"
      by (auto simp: find_Some_iff)
    then show ?thesis using p Some none by (intro exI [of _ "Some i"] exI [of _ "rrIdx r"])
        (simp add: picked_ok_def, blast)
  qed
next
  case False
  let ?cs = "candidates (backends r) ex"
  have ok: "\<exists>k. pick r ex d1 d2 = (Picked (Some i), r\<lparr>rrIdx := k\<rparr>) \<Longrightarrow> i \<in> set ?cs \<Longrightarrow> ?thesis" for i
    by (auto simp: candidates_iff picked_ok_def)
  show ?thesis
  proof (cases "Strategy (r_cfg r) = ''round_robin''")
    case True
    let ?k = "nat (go_rem (rrIdx r) (int (length ?cs)))"
    have "0 \<le> go_rem (rrIdx r) (int (length ?cs))"
      using np True False by (auto simp: pick_def Let_def split: if_splits)
    moreover have "go_rem (rrIdx r) (int (length ?cs)) < int (length ?cs)"
      using False by (intro go_rem_less) simp
    ultimately show ?thesis
      using True False by (intro ok [of "?cs ! ?k"]) (auto simp: pick_def Let_def)
  next
    case p2c: False
    have p: "pick r ex d1 d2 = (Picked (Some (pick_p2c (backends r) ?cs d1 d2)), r\<lparr>rrIdx := rrIdx r\<rparr>)"
      using p2c False by (simp add: pick_def Let_def)
    show ?thesis
      by (rule ok [OF exI]) (rule p, rule pick_p2c_in [OF distinct_candidates False d])
  qed
qed

text \<open>A router with given backends and strategy, for the examples.\<close>

definition router_of :: "backend list \<Rightarrow> string \<Rightarrow> router" where
  "router_of bs strategy =
     \<lparr>r_cfg = (Router default_config)\<lparr>Strategy := strategy\<rparr>, backends = bs, rrIdx = 0,
      BackendUp = (\<lambda>_. None), BackendErrors = (\<lambda>_ _. 0), BackendRetries = 0\<rparr>"

subsection \<open>Properties of the choice\<close>

text \<open>\<open>weightedPick\<close> is proportional to the weights.  When the weights are not negative and
  their sum fits in 64 bits, then of the \<open>total\<close> values \<open>rand.Intn(total)\<close> can draw,
  exactly \<open>Weight\<close> many select a given candidate.
\<close>

lemma weighted_pick_proportional:
  assumes "distinct cs" "\<forall>j \<in> set cs. 0 \<le> Weight (bs ! j)" "i \<in> set cs"
    and "0 < (\<Sum>j\<leftarrow>cs. Weight (bs ! j))" "(\<Sum>j\<leftarrow>cs. Weight (bs ! j)) < 2 ^ 63"
  shows "card {x \<in> {0 ..< (\<Sum>j\<leftarrow>cs. Weight (bs ! j))}. weighted_pick bs cs (\<lambda>_. x) = i} = nat (Weight (bs ! i))"
proof -
  have total: "fold (\<lambda>i t. wrap64 (t + Weight (bs ! i))) cs 0 = (\<Sum>j\<leftarrow>cs. Weight (bs ! j))"
    using total_weight [of 0 cs bs] assms by simp
  have "weighted_pick bs cs (\<lambda>_. x) = i \<longleftrightarrow> weighted_scan bs x cs = Some i"
    if "x \<in> {0 ..< (\<Sum>j\<leftarrow>cs. Weight (bs ! j))}" for x
  proof -
    have "\<exists>k. weighted_scan bs x cs = Some k"
      using that assms(2) weighted_scan_hits by force
    then show ?thesis using assms(4) by (auto simp: weighted_pick_def total Let_def)
  qed
  then have "{x \<in> {0 ..< (\<Sum>j\<leftarrow>cs. Weight (bs ! j))}. weighted_pick bs cs (\<lambda>_. x) = i}
      = {x \<in> {0 ..< (\<Sum>j\<leftarrow>cs. Weight (bs ! j))}. weighted_scan bs x cs = Some i}" by blast
  then show ?thesis using weighted_scan_share [OF assms(1,2,3)] by simp
qed

definition two_backends :: "backend list" where
  "two_backends = [new_backend ''a'' ''u'' 3 0, new_backend ''b'' ''v'' 0 0]"

lemma weighted_pick_proportional_witness:
  "card {x \<in> {0 ..< (\<Sum>j\<leftarrow>[0, 1]. Weight (two_backends ! j))}.
      weighted_pick two_backends [0, 1] (\<lambda>_. x) = 0} = 3"
proof -
  have "card {x \<in> {0 ..< (\<Sum>j\<leftarrow>[0, 1]. Weight (two_backends ! j))}.
      weighted_pick two_backends [0, 1] (\<lambda>_. x) = 0} = nat (Weight (two_backends ! 0))"
    by (rule weighted_pick_proportional) (simp_all add: two_backends_def new_backend_def)
  then show ?thesis by (simp add: two_backends_def new_backend_def)
qed

text \<open>C36:
  What \<open>pick\<close> may return, on every branch.  It never panics while \<open>rrIdx\<close> is not
  negative, and changes nothing but \<open>rrIdx\<close>.  It returns no backend only when every name
  is excluded.  Otherwise the backend is in the pool and not excluded, it is healthy
  whenever some backend not excluded is healthy, and when none is, it is the first backend
  of the list that is not excluded.
\<close>

theorem pick_sound:
  assumes "intn_ok d1" "intn_ok d2" "0 \<le> rrIdx r"
  shows "\<exists>res k. pick r ex d1 d2 = (Picked res, r\<lparr>rrIdx := k\<rparr>) \<and>
    (case res of
       None \<Rightarrow> \<forall>j < length (backends r). Name (backends r ! j) \<in> ex
     | Some i \<Rightarrow> i < length (backends r) \<and> Name (backends r ! i) \<notin> ex \<and>
         (if \<exists>j < length (backends r). Name (backends r ! j) \<notin> ex \<and> healthy (backends r ! j)
          then healthy (backends r ! i)
          else \<forall>j < i. Name (backends r ! j) \<in> ex))"
proof -
  have "fst (pick r ex d1 d2) \<noteq> PickPanic"
    using pick_panic(2) [of r ex d1 d2] assms(3) by (cases "pick r ex d1 d2") fastforce
  then show ?thesis using pick_cases [OF assms(1,2)] by (simp only: picked_ok_def)
qed

lemma pick_sound_witness:
  "\<exists>res k. pick (router_of two_backends ''p2c'') {''a''} (\<lambda>_. 0) (\<lambda>_. 0)
      = (Picked res, (router_of two_backends ''p2c'')\<lparr>rrIdx := k\<rparr>)"
  using pick_sound [of "\<lambda>_. 0" "\<lambda>_. 0" "router_of two_backends ''p2c''" "{''a''}"]
  by (auto simp: intn_ok_def router_of_def)

text \<open>Power of two choices.  With any strategy but round robin and at least two healthy
  candidates, the chosen backend is a candidate, and some other candidate has at least as
  many requests in flight: a backend strictly more loaded than all the others is never
  chosen, whatever the weights and the draws.
\<close>

lemma p2c_not_most_loaded:
  assumes "Strategy (r_cfg r) \<noteq> ''round_robin''" "intn_ok d1" "intn_ok d2"
    and "2 \<le> length (candidates (backends r) ex)"
  shows "\<exists>i c. pick r ex d1 d2 = (Picked (Some i), r) \<and> i \<noteq> c \<and>
     {i, c} \<subseteq> set (candidates (backends r) ex) \<and>
     inFlight (backends r ! i) \<le> inFlight (backends r ! c)"
proof -
  let ?cs = "candidates (backends r) ex"
  obtain c where "c \<in> set ?cs" "c \<noteq> pick_p2c (backends r) ?cs d1 d2" "pick_p2c (backends r) ?cs d1 d2 \<in> set ?cs"
    "inFlight (backends r ! pick_p2c (backends r) ?cs d1 d2) \<le> inFlight (backends r ! c)"
    using pick_p2c_two [OF distinct_candidates assms(4,2,3)] by blast
  moreover have "pick r ex d1 d2 = (Picked (Some (pick_p2c (backends r) ?cs d1 d2)), r)"
    using assms(1,4) by (auto simp: pick_def Let_def)
  ultimately show ?thesis
    by (intro exI [of _ "pick_p2c (backends r) ?cs d1 d2"] exI [of _ c]) simp
qed

lemma p2c_not_most_loaded_witness:
  "\<exists>i c. pick (router_of two_backends ''p2c'') {} (\<lambda>_. 0) (\<lambda>_. 0) = (Picked (Some i), router_of two_backends ''p2c'') \<and> i \<noteq> c"
proof -
  have "length (candidates (backends (router_of two_backends ''p2c'')) {}) = 2"
    by (simp add: candidates_def router_of_def two_backends_def new_backend_def upt_rec)
  then show ?thesis
    using p2c_not_most_loaded [of "router_of two_backends ''p2c''" "\<lambda>_. 0" "\<lambda>_. 0" "{}"]
    by (auto simp: intn_ok_def router_of_def)
qed

text \<open>
  With exactly two healthy candidates the weights decide nothing when the loads differ:
  the less loaded one is chosen, whatever was drawn.  So with two backends the strategy is
  least-loaded, where the package comment says it degrades to plain weighted random.
\<close>

lemma p2c_two_is_least_loaded:
  assumes "Strategy (r_cfg r) \<noteq> ''round_robin''" "intn_ok d1" "intn_ok d2"
    and "candidates (backends r) ex = [i, j] \<or> candidates (backends r) ex = [j, i]"
    and "inFlight (backends r ! i) < inFlight (backends r ! j)"
  shows "pick r ex d1 d2 = (Picked (Some i), r)"
proof -
  let ?cs = "candidates (backends r) ex"
  have "2 \<le> length ?cs" "set ?cs = {i, j}" using assms(4) by auto
  then obtain c where "c \<in> {i, j}" "c \<noteq> pick_p2c (backends r) ?cs d1 d2" "pick_p2c (backends r) ?cs d1 d2 \<in> {i, j}"
    "inFlight (backends r ! pick_p2c (backends r) ?cs d1 d2) \<le> inFlight (backends r ! c)"
    using pick_p2c_two [OF distinct_candidates _ assms(2,3), of "backends r" ex "backends r"] by metis
  then have "pick_p2c (backends r) ?cs d1 d2 = i" using assms(5) by auto
  then show ?thesis using assms(1,4) by (auto simp: pick_def Let_def)
qed

lemma p2c_two_is_least_loaded_witness:
  "pick (router_of (two_backends[0 := add_in_flight 1 (two_backends ! 0)]) ''p2c'') {} (\<lambda>_. 0) (\<lambda>_. 0)
     = (Picked (Some 1), router_of (two_backends[0 := add_in_flight 1 (two_backends ! 0)]) ''p2c'')"
  by (rule p2c_two_is_least_loaded [where j = 0])
     (simp_all add: intn_ok_def router_of_def candidates_def two_backends_def new_backend_def add_in_flight_def upt_rec)


subsection \<open>Round robin\<close>

text \<open>A number of picks in a row.\<close>

fun picks :: "nat \<Rightarrow> string set \<Rightarrow> intn \<Rightarrow> intn \<Rightarrow> router \<Rightarrow> pick_result list" where
  "picks 0 ex d1 d2 r = []"
| "picks (Suc n) ex d1 d2 r = (let (p, r) = pick r ex d1 d2 in p # picks n ex d1 d2 r)"

lemma picks_round_robin:
  assumes "Strategy (r_cfg r) = ''round_robin''" "0 \<le> rrIdx r" "rrIdx r + int n < 2 ^ 63"
    and cs: "cs = candidates (backends r) ex" "cs \<noteq> []"
  shows "picks n ex d1 d2 r = map (\<lambda>j. Picked (Some (cs ! ((nat (rrIdx r) + j) mod length cs)))) [0..<n]"
  using assms(1-4)
proof (induction n arbitrary: r)
  case (Suc n)
  let ?k = "rrIdx r" and ?r = "r\<lparr>rrIdx := rrIdx r + 1\<rparr>"
  have w: "wrap64 (?k + 1) = ?k + 1" using Suc.prems by (intro wrap64_id) (simp add: int64_def)
  have p: "pick r ex d1 d2 = (Picked (Some (cs ! (nat ?k mod length cs))), ?r)"
    using Suc.prems go_rem_index [OF Suc.prems(2) cs(2)] cs(2) by (simp add: pick_def Let_def w)
  have "picks n ex d1 d2 ?r = map (\<lambda>j. Picked (Some (cs ! ((nat (rrIdx ?r) + j) mod length cs)))) [0..<n]"
    using Suc.prems by (intro Suc.IH) simp_all
  moreover have "nat (rrIdx ?r) + j = nat ?k + Suc j" for j
    using Suc.prems(2) by (simp add: nat_add_distrib)
  moreover have "map f [0..<Suc n] = f 0 # map (\<lambda>j. f (Suc j)) [0..<n]" for f :: "nat \<Rightarrow> pick_result"
    by (simp add: upt_conv_Cons map_Suc_upt [symmetric] del: upt_Suc)
  ultimately show ?case by (simp only: picks.simps p Let_def prod.case) simp
qed simp

lemma count_list_rotate: "count_list (rotate m xs) x = count_list xs x"
proof (induction m)
  case (Suc m)
  have "count_list (rotate1 ys) x = count_list ys x" for ys :: "'a list" by (cases ys) simp_all
  then show ?case using Suc by simp
qed simp

lemma count_window:
  assumes "cs \<noteq> []"
  shows "count_list (map (\<lambda>j. cs ! ((a + j) mod length cs)) [0..<length cs]) x = count_list cs x"
proof -
  have "map (\<lambda>j. cs ! ((a + j) mod length cs)) [0..<length cs] = rotate a cs"
    by (rule nth_equalityI) (simp_all add: nth_rotate)
  then show ?thesis by (simp add: count_list_rotate)
qed

lemma count_windows:
  assumes "cs \<noteq> []"
  shows "count_list (map (\<lambda>j. cs ! ((a + j) mod length cs)) [0..<m * length cs]) x = m * count_list cs x"
proof (induction m)
  case (Suc m)
  let ?f = "\<lambda>j. cs ! ((a + j) mod length cs)"
  have "[0..<Suc m * length cs] = [0..<m * length cs] @ [m * length cs..<m * length cs + length cs]"
    by (metis add.commute le0 mult_Suc upt_add_eq_append)
  moreover have "map ?f [m * length cs..<m * length cs + length cs] = map ?f [0..<length cs]"
  proof (rule nth_equalityI)
    fix k
    have "(a + (m * length cs + k)) mod length cs = (a + k) mod length cs"
      by (metis add.left_commute mod_mult_self3)
    moreover assume "k < length (map ?f [m * length cs..<m * length cs + length cs])"
    ultimately show "map ?f [m * length cs..<m * length cs + length cs] ! k = map ?f [0..<length cs] ! k"
      by simp
  qed simp
  ultimately show ?case using Suc count_window [OF assms] by simp
qed simp

lemma count_list_inj: "inj f \<Longrightarrow> count_list (map f xs) (f x) = count_list xs x"
  by (induction xs) (auto dest: injD)

lemma count_list_distinct: "distinct xs \<Longrightarrow> x \<in> set xs \<Longrightarrow> count_list xs x = 1"
  by (induction xs) auto

lemma inj_picked: "inj (Picked \<circ> Some)"
  by (simp add: inj_on_def)

text \<open>Round robin is fair.  While the set of eligible backends does not change and the index
  does not overflow, any \<open>m * n\<close> picks in a row over \<open>n\<close> eligible backends, from whatever
  index they start, choose each of them exactly \<open>m\<close> times.
\<close>

lemma round_robin_fair:
  assumes "Strategy (r_cfg r) = ''round_robin''" "0 \<le> rrIdx r"
    and "i \<in> set (candidates (backends r) ex)"
    and "rrIdx r + int (m * length (candidates (backends r) ex)) < 2 ^ 63"
  shows "count_list (picks (m * length (candidates (backends r) ex)) ex d1 d2 r) (Picked (Some i)) = m"
proof -
  let ?cs = "candidates (backends r) ex"
  let ?f = "\<lambda>j. ?cs ! ((nat (rrIdx r) + j) mod length ?cs)"
  have ne: "?cs \<noteq> []" using assms(3) by auto
  have "picks (m * length ?cs) ex d1 d2 r = map (Picked \<circ> Some) (map ?f [0..<m * length ?cs])"
    using picks_round_robin [OF assms(1,2,4) refl ne] by simp
  then have "count_list (picks (m * length ?cs) ex d1 d2 r) ((Picked \<circ> Some) i)
      = count_list (map ?f [0..<m * length ?cs]) i"
    by (simp only: count_list_inj [OF inj_picked])
  also have "\<dots> = m"
    using count_windows [OF ne] count_list_distinct [OF distinct_candidates assms(3)] by simp
  finally show ?thesis by simp
qed

lemma round_robin_fair_witness:
  "count_list (picks 10 {} (\<lambda>_. 0) (\<lambda>_. 0) (router_of two_backends ''round_robin'')) (Picked (Some 1)) = 5"
proof -
  let ?r = "router_of two_backends ''round_robin''"
  have c: "candidates (backends ?r) {} = [0, 1]"
    by (simp add: candidates_def router_of_def two_backends_def new_backend_def upt_rec)
  have "count_list (picks (5 * length (candidates (backends ?r) {})) {} (\<lambda>_. 0) (\<lambda>_. 0) ?r) (Picked (Some 1)) = 5"
    by (rule round_robin_fair) (simp_all only: c, simp_all add: router_of_def)
  then show ?thesis unfolding c by simp
qed

text \<open>
  The index is not reduced when it is advanced: at the largest 64-bit integer it wraps to
  a negative one, and the next remainder is a negative list index.
\<close>

lemma round_robin_overflow:
  assumes "Strategy (r_cfg r) = ''round_robin''" "rrIdx r = 2 ^ 63 - 1"
    and "length (candidates (backends r) ex) = 3"
  shows "\<exists>i. picks 2 ex d1 d2 r = [Picked (Some i), PickPanic]"
proof -
  have ne: "candidates (backends r) ex \<noteq> []" using assms(3) by auto
  have "\<exists>i. pick r ex d1 d2 = (Picked (Some i), r\<lparr>rrIdx := - (2 ^ 63)\<rparr>)"
    using assms ne by (simp add: pick_def Let_def go_rem_def go_quot_def wrap64_def)
  then obtain i where i: "pick r ex d1 d2 = (Picked (Some i), r\<lparr>rrIdx := - (2 ^ 63)\<rparr>)" ..
  have "pick (r\<lparr>rrIdx := - (2 ^ 63)\<rparr>) ex d1 d2 = (PickPanic, r\<lparr>rrIdx := - (2 ^ 63)\<rparr>)"
    using assms(1,3) ne by (simp add: pick_def Let_def go_rem_def go_quot_def)
  then show ?thesis using i by (simp add: numeral_2_eq_2 Let_def)
qed


subsection \<open>One request\<close>

text \<open>The error an attempt ends with, if any.\<close>

definition attempt_error :: "backend list \<Rightarrow> nat \<Rightarrow> exchange \<Rightarrow> go_error option" where
  "attempt_error bs b x =
     (case x of
        BadRequest e \<Rightarrow> Some e
      | ClientError e \<Rightarrow> Some e
      | Answer code body \<Rightarrow>
          if go_quot code 100 = 5 then Some (Upstream (Name (bs ! b)) code (take 4096 body)) else None)"

text \<open>The errors of the backends tried, the last one first, as \<open>tried\<close> lists them.\<close>

fun errors_of :: "backend list \<Rightarrow> (nat \<Rightarrow> attempt_env) \<Rightarrow> nat list \<Rightarrow> go_error option list" where
  "errors_of bs env [] = []"
| "errors_of bs env (b # rest) =
     attempt_error bs b (exchange_with (env (length rest)) b) # errors_of bs env rest"

text \<open>
  What surrounds the attempts keeps to its part: the draws are in range, and the other
  goroutines leave the configuration and the names, URLs and weights of the backends alone.
\<close>

definition keeps_static :: "(router \<Rightarrow> router) \<Rightarrow> bool" where
  "keeps_static f \<longleftrightarrow> (\<forall>r. static (f r) = static r)"

definition env_ok :: "(nat \<Rightarrow> attempt_env) \<Rightarrow> bool" where
  "env_ok env \<longleftrightarrow> (\<forall>i. intn_ok (draw1 (env i)) \<and> intn_ok (draw2 (env i))
     \<and> keeps_static (others_before (env i)) \<and> keeps_static (others_during (env i)))"

definition names_of :: "backend list \<Rightarrow> nat list \<Rightarrow> string list" where
  "names_of bs = map (\<lambda>j. Name (bs ! j))"

definition all_failed :: "backend list \<Rightarrow> (nat \<Rightarrow> attempt_env) \<Rightarrow> nat list \<Rightarrow> bool" where
  "all_failed bs env tried \<longleftrightarrow>
     distinct (names_of bs tried) \<and> set tried \<subseteq> {..<length bs} \<and> None \<notin> set (errors_of bs env tried)"

text \<open>What a request may come to.\<close>

definition request_outcome ::
  "backend list \<Rightarrow> (nat \<Rightarrow> attempt_env) \<Rightarrow> nat \<Rightarrow> do_result \<Rightarrow> nat list \<Rightarrow> bool" where
  "request_outcome bs env n res tried \<longleftrightarrow>
     (case res of
        DoPanic \<Rightarrow> all_failed bs env tried
      | DoOk resp name \<Rightarrow>
          (case tried of
             [] \<Rightarrow> False
           | b # rest \<Rightarrow>
               all_failed bs env rest \<and> b < length bs \<and> name = Name (bs ! b) \<and> name \<notin> set (names_of bs rest)
               \<and> server_of resp = b \<and> \<not> closed resp
               \<and> exchange_with (env (length rest)) b = Answer (StatusCode resp) (Body resp)
               \<and> go_quot (StatusCode resp) 100 \<noteq> 5)
      | DoErr e \<Rightarrow>
          all_failed bs env tried
          \<and> (if tried = [] then e = NoHealthyBackends else hd (errors_of bs env tried) = Some e)
          \<and> (length tried = n \<or> Name ` set bs \<subseteq> set (names_of bs tried)))"

lemma errors_of_cong:
  assumes "\<And>i. i < length bs \<Longrightarrow> Name (bs' ! i) = Name (bs ! i)" "set tried \<subseteq> {..<length bs}"
  shows "errors_of bs' env tried = errors_of bs env tried"
  using assms(2) by (induction tried) (auto simp: attempt_error_def assms(1) split: exchange.split)

lemma do_end_cases:
  "do_end b x r =
     (case attempt_error (backends r) b x of
        Some e \<Rightarrow> (Inl e, upd_backend b (add_in_flight (- 1)) r)
      | None \<Rightarrow> (case x of Answer code body \<Rightarrow>
          (Inr \<lparr>StatusCode = code, Body = body, server_of = b, closed = False\<rparr>, r)))"
  by (cases x) (simp_all add: do_end_def attempt_error_def)

lemma attempt_error_None:
  "attempt_error bs b x = None \<Longrightarrow> \<exists>code body. x = Answer code body \<and> go_quot code 100 \<noteq> 5"
  by (cases x) (auto simp: attempt_error_def split: if_splits)


lemma static_bs:
  assumes "static r' = static r"
  shows "length (backends r') = length (backends r)"
    "j < length (backends r) \<Longrightarrow> Name (backends r' ! j) = Name (backends r ! j)"
  using staticD [OF assms] by auto

lemma attempt_error_name:
  "Name (bs' ! b) = Name (bs ! b) \<Longrightarrow> attempt_error bs' b x = attempt_error bs b x"
  by (simp add: attempt_error_def split: exchange.split)

lemma finish_outcome:
  assumes "all_failed bs env tried" "lastErr = (if tried = [] then None else hd (errors_of bs env tried))"
    and "length tried = n \<or> Name ` set bs \<subseteq> set (names_of bs tried)"
  shows "request_outcome bs env n (finish lastErr) tried"
proof (cases tried)
  case (Cons b rest)
  then obtain e where "attempt_error bs b (exchange_with (env (length rest)) b) = Some e"
    using assms(1) by (cases "attempt_error bs b (exchange_with (env (length rest)) b)") (auto simp: all_failed_def)
  then show ?thesis using assms Cons by (auto simp: request_outcome_def finish_def)
qed (use assms in \<open>auto simp: request_outcome_def finish_def\<close>)

lemma finish_no_panic [simp]: "finish e \<noteq> DoPanic"
  by (simp add: finish_def)

text \<open>The loop keeps what it has established so far.\<close>

lemma do_loop_outcome:
  assumes env: "env_ok env" and "static r = static r0" "all_failed (backends r0) env tried" "i = length tried"
    and "lastErr = (if tried = [] then None else hd (errors_of (backends r0) env tried))"
    and "do_loop env i n tried lastErr r = (res, tried', r')"
  shows "request_outcome (backends r0) env (i + n) res tried' \<and> static r' = static r0
     \<and> length tried' \<le> i + n \<and> (res = DoPanic \<longrightarrow> Strategy (r_cfg r0) = ''round_robin'')"
  using assms(2-)
proof (induction n arbitrary: i tried lastErr r)
  case 0
  then show ?case using finish_outcome by auto
next
  case (Suc n)
  let ?bs = "backends r0" and ?e = "env i"
  define r1 where "r1 = others_before ?e r"
  let ?ex = "(\<lambda>j. Name (backends r1 ! j)) ` set tried"
  have keep: "static (others_before ?e q) = static q" "static (others_during ?e q) = static q" for q
    using env by (simp_all add: env_ok_def keeps_static_def)
  have s1: "static r1 = static r0" using Suc.prems(1) keep by (simp add: r1_def)
  note b1 = static_bs [OF s1]
  have ex: "?ex = set (names_of ?bs tried)"
    using Suc.prems(2) b1 by (force simp: names_of_def all_failed_def)
  obtain p r2 where p: "pick r1 ?ex (draw1 ?e) (draw2 ?e) = (p, r2)" by fastforce
  note step = Suc.prems(5) [unfolded do_loop.simps Let_def, folded r1_def, unfolded p prod.case]
  show ?case
  proof (cases p)
    case PickPanic
    with step pick_panic [of r1 ?ex "draw1 ?e" "draw2 ?e" r2] p s1 show ?thesis
      using Suc.prems(2,3) staticD(1) [OF s1] by (auto simp: request_outcome_def)
  next
    case (Picked c)
    obtain k where r2: "r2 = r1\<lparr>rrIdx := k\<rparr>" and ok: "picked_ok (backends r1) ?ex c"
      using pick_cases [of "draw1 ?e" "draw2 ?e" r1 ?ex] env p Picked by (auto simp: env_ok_def)
    show ?thesis
    proof (cases c)
      case None
      then have "Name ` set ?bs \<subseteq> set (names_of ?bs tried)"
        using ok b1 unfolding ex picked_ok_def by (auto simp: in_set_conv_nth)
      with step Picked None Suc.prems(2-4) s1 show ?thesis
        by (auto simp: r2 intro: finish_outcome)
    next
      case (Some b)
      then have b: "b < length ?bs" "Name (?bs ! b) \<notin> set (names_of ?bs tried)"
        using ok b1 unfolding ex picked_ok_def by auto
      define r3 where "r3 = others_during ?e (do_begin b r2)"
      have s3: "static r3 = static r0" using s1 keep by (simp add: r3_def r2)
      note b3 = static_bs [OF s3]
      let ?x = "exchange_with ?e b"
      note step = step [unfolded Picked Some pick_result.case option.case, folded r3_def]
      show ?thesis
      proof (cases "attempt_error ?bs b ?x")
        case None
        then obtain code body where "?x = Answer code body" "go_quot code 100 \<noteq> 5"
          using attempt_error_None by blast
        with step s3 b3(2) [OF b(1)] show ?thesis
          using b Suc.prems(2,3) by (auto simp: do_end_def request_outcome_def)
      next
        case (Some err)
        let ?r4 = "upd_backend b (add_in_flight (- 1)) r3"
        have e: "do_end b ?x r3 = (Inl err, ?r4)"
          using Some by (simp add: do_end_cases attempt_error_name [OF b3(2) [OF b(1)]])
        let ?r5 = "upd_backend b (mark_failure (fail_time ?e))
          (count_error (Name (backends ?r4 ! b)) (classify (Some err)) ?r4)"
        let ?r6 = "if n > 0 then ?r5\<lparr>BackendRetries := BackendRetries ?r5 + 1\<rparr> else ?r5"
        have next_step: "do_loop env (Suc i) n (b # tried) (Some err) ?r6 = (res, tried', r')"
          using step by (simp only: e prod.case sum.case)
        have "all_failed ?bs env (b # tried)"
          using Suc.prems(2,3) b Some by (auto simp: all_failed_def names_of_def)
        then show ?thesis
          using Suc.IH [of ?r6 "b # tried" "Suc i" "Some err"] next_step s3 Some Suc.prems(3) by simp
      qed
    qed
  qed
qed


text \<open>The surroundings of the examples: the first backend fails, the second one answers.\<close>

definition first_fails :: "nat \<Rightarrow> attempt_env" where
  "first_fails i =
     \<lparr>draw1 = (\<lambda>_. 0), draw2 = (\<lambda>_. 0), others_before = id, others_during = id,
      exchange_with = (\<lambda>b. if b = 0 then ClientError Canceled else Answer 200 ''ok''), fail_time = 0\<rparr>"

lemma first_fails_ok: "env_ok first_fails"
  by (simp add: env_ok_def first_fails_def intn_ok_def keeps_static_def)

lemma attempts_pos: "0 < attempts r"
  by (simp add: attempts_def)

lemma do_request_outcome:
  assumes "env_ok env" "do_request env r = (res, tried, r')"
  shows "request_outcome (backends r) env (attempts r) res tried \<and> static r' = static r
     \<and> length tried \<le> attempts r \<and> (res = DoPanic \<longrightarrow> Strategy (r_cfg r) = ''round_robin'')"
  using do_loop_outcome [OF assms(1) refl, of r "[]" 0 None "attempts r" res tried r'] assms(2)
  by (simp add: do_request_def all_failed_def names_of_def)

text \<open>C1:
  What a request through the router comes to, whatever the other goroutines do meanwhile.
  It asks at most \<open>RetryAttempts\<close> backends (one, if that is below one), never one of the
  same name twice, and at least one.  It succeeds exactly with the last backend it asked:
  that one answered, not with a 5xx status, the response carries its status, body and name
  unchanged, and every earlier one failed.  It fails only when every backend asked has
  failed, with the error of the last, and only after all attempts or after every backend of
  the pool.  It can panic only under round robin.
\<close>

theorem do_request_spec:
  assumes "env_ok env" "backends r \<noteq> []" "do_request env r = (res, tried, r')"
  shows "request_outcome (backends r) env (attempts r) res tried
    \<and> length tried \<le> attempts r \<and> static r' = static r
    \<and> (res = DoPanic \<longrightarrow> Strategy (r_cfg r) = ''round_robin'')
    \<and> (tried = [] \<longrightarrow> res = DoPanic)"
proof -
  note out = do_request_outcome [OF assms(1,3)]
  have "tried = [] \<longrightarrow> res = DoPanic"
    using out assms(2) attempts_pos [of r] by (auto simp: request_outcome_def names_of_def split: do_result.splits)
  then show ?thesis using out by blast
qed

lemma do_request_spec_witness:
  "\<exists>res tried r'. do_request first_fails (router_of two_backends ''p2c'') = (res, tried, r')
     \<and> tried \<noteq> [] \<and> request_outcome two_backends first_fails 2 res tried"
proof -
  let ?r = "router_of two_backends ''p2c''"
  obtain res tried r' where d: "do_request first_fails ?r = (res, tried, r')" by (rule prod_cases3)
  have "backends ?r = two_backends" "two_backends \<noteq> []" "attempts ?r = 2" "Strategy (r_cfg ?r) \<noteq> ''round_robin''"
    by (simp_all add: router_of_def two_backends_def attempts_def default_config_def)
  then have "tried \<noteq> []" "request_outcome two_backends first_fails 2 res tried"
    using do_request_spec [OF first_fails_ok _ d] by auto
  then show ?thesis using d by blast
qed



subsection \<open>The in-flight counters\<close>

text \<open>
  The steps of the goroutines that share the router.  Beside the router, the state holds the
  backends of the calls between \<open>inFlight.Add(1)\<close> and the outcome of their exchange, and
  the responses handed out.
\<close>

type_synonym pool = "router \<times> nat list \<times> response list"

inductive pool_step :: "pool \<Rightarrow> pool \<Rightarrow> bool" where
  Choose: "pick r ex d1 d2 = (p, r') \<Longrightarrow> pool_step (r, calls, resps) (r', calls, resps)"
| Begin: "i < length (backends r) \<Longrightarrow> pool_step (r, calls, resps) (do_begin i r, i # calls, resps)"
| Fail: "i \<in> set calls \<Longrightarrow> do_end i x r = (Inl e, r') \<Longrightarrow>
    pool_step (r, calls, resps)
      (upd_backend i (mark_failure t) (count_error (Name (backends r' ! i)) (classify (Some e)) r'),
       remove1 i calls, resps)"
| Answered: "i \<in> set calls \<Longrightarrow> do_end i x r = (Inr resp, r') \<Longrightarrow>
    pool_step (r, calls, resps) (r', remove1 i calls, resps @ [resp])"
| Close: "k < length resps \<Longrightarrow> close_body (resps ! k) r = (resp, r') \<Longrightarrow>
    pool_step (r, calls, resps) (r', calls, resps[k := resp])"
| Probe: "i < length (backends r) \<Longrightarrow> pool_step (r, calls, resps) (check_one i x r, calls, resps)"

abbreviation pool_reach :: "router \<Rightarrow> pool \<Rightarrow> bool" where
  "pool_reach r0 \<equiv> pool_step\<^sup>*\<^sup>* (r0, [], [])"

definition unclosed :: "nat \<Rightarrow> response list \<Rightarrow> nat" where
  "unclosed i resps = length (filter (\<lambda>x. server_of x = i \<and> \<not> closed x) resps)"

definition ledger :: "pool \<Rightarrow> bool" where
  "ledger s = (case s of (r, calls, resps) \<Rightarrow>
     set calls \<union> server_of ` set resps \<subseteq> {..<length (backends r)} \<and>
     (\<forall>i < length (backends r). inFlight (backends r ! i) = int (count_list calls i + unclosed i resps)))"


lemma ledger_begin: "ledger (r, [], []) \<longleftrightarrow> (\<forall>b \<in> set (backends r). inFlight b = 0)"
  by (auto simp: ledger_def unclosed_def all_set_conv_all_nth)

lemma count_list_remove1:
  "count_list (remove1 a xs) x = (if x = a \<and> a \<in> set xs then count_list xs x - 1 else count_list xs x)"
  by (induction xs) (auto simp: count_list_0_iff)

lemma count_list_pos: "x \<in> set xs \<Longrightarrow> 1 \<le> count_list xs x"
  by (induction xs) auto

lemma unclosed_append: "unclosed i (xs @ ys) = unclosed i xs + unclosed i ys"
  by (simp add: unclosed_def)

lemma unclosed_middle:
  "unclosed i (as @ x # bs) = unclosed i as + unclosed i bs + (if server_of x = i \<and> \<not> closed x then 1 else 0)"
  by (simp add: unclosed_def)

lemma unclosed_close:
  assumes "k < length xs" "\<not> closed (xs ! k)"
  shows "unclosed i xs = unclosed i (xs[k := (xs ! k)\<lparr>closed := True\<rparr>]) + (if server_of (xs ! k) = i then 1 else 0)"
proof -
  have "unclosed i xs = unclosed i (take k xs @ (xs ! k) # drop (Suc k) xs)"
    using id_take_nth_drop [OF assms(1)] by simp
  then show ?thesis
    using assms by (simp add: upd_conv_take_nth_drop unclosed_middle)
qed

lemma server_of_close: "server_of ` set (xs[k := (xs ! k)\<lparr>closed := True\<rparr>]) \<subseteq> server_of ` set xs"
proof
  fix y assume "y \<in> server_of ` set (xs[k := (xs ! k)\<lparr>closed := True\<rparr>])"
  then obtain i where "i < length xs" "y = server_of (xs[k := (xs ! k)\<lparr>closed := True\<rparr>] ! i)"
    by (auto simp: in_set_conv_nth)
  then show "y \<in> server_of ` set xs" by (cases "i = k") auto
qed

text \<open>Updates that leave the in-flight counters alone.\<close>

lemma ledger_cong:
  assumes "length (backends r') = length (backends r)"
    and "\<And>i. i < length (backends r) \<Longrightarrow> inFlight (backends r' ! i) = inFlight (backends r ! i)"
  shows "ledger (r', c, xs) \<longleftrightarrow> ledger (r, c, xs)"
  using assms by (simp add: ledger_def)

lemma pick_backends: "pick r ex d1 d2 = (p, r') \<Longrightarrow> backends r' = backends r"
  by (auto simp: pick_def Let_def split: if_splits)

lemma record_health_in_flight:
  "i < length (backends r) \<Longrightarrow> length (backends (record_health i ok r)) = length (backends r)"
  "i < length (backends r) \<Longrightarrow> j < length (backends r) \<Longrightarrow>
     inFlight (backends (record_health i ok r) ! j) = inFlight (backends r ! j)"
  by (simp_all add: record_health_def Let_def)

lemma check_one_in_flight:
  assumes "i < length (backends r)"
  shows "length (backends (check_one i x r)) = length (backends r)"
    "j < length (backends r) \<Longrightarrow> inFlight (backends (check_one i x r) ! j) = inFlight (backends r ! j)"
  using record_health_in_flight [OF assms] by (cases x; simp add: check_one_def)+

lemma ledger_step:
  assumes "pool_step s s'" "ledger s"
  shows "ledger s'"
  using assms
proof (induction rule: pool_step.induct)
  case (Choose r ex d1 d2 p r' calls resps)
  then show ?case using pick_backends by (simp add: ledger_def)
next
  case (Begin i r calls resps)
  then show ?case by (auto simp: ledger_def do_begin_def add_in_flight_def)
next
  case (Fail i calls x r e r' resps t)
  then have r': "r' = upd_backend i (add_in_flight (- 1)) r"
    by (auto simp: do_end_def split: exchange.splits if_splits)
  have "set (remove1 i calls) \<subseteq> set calls" by (rule set_remove1_subset)
  then show ?case using Fail(1,3) count_list_pos [OF Fail(1)]
    by (auto simp: ledger_def r' add_in_flight_def mark_failure_def count_list_remove1)
next
  case (Answered i calls x r resp r' resps)
  then have r': "r' = r" "server_of resp = i" "\<not> closed resp"
    by (auto simp: do_end_def split: option.splits exchange.splits if_splits)
  have "set (remove1 i calls) \<subseteq> set calls" by (rule set_remove1_subset)
  moreover have "unclosed j [resp] = (if j = i then 1 else 0)" for j
    using r' by (simp add: unclosed_def)
  ultimately show ?case using Answered(1,3) count_list_pos [OF Answered(1)]
    by (auto simp: ledger_def r' count_list_remove1 unclosed_append)
next
  case (Close k resps r resp r' calls)
  show ?case
  proof (cases "closed (resps ! k)")
    case True
    then have "resp = resps ! k" "r' = r" using Close(2) by (simp_all add: close_body_def)
    then show ?thesis using Close(3) by simp
  next
    case False
    let ?b = "server_of (resps ! k)"
    have u: "resp = (resps ! k)\<lparr>closed := True\<rparr>" "r' = upd_backend ?b (mark_success \<circ> add_in_flight (- 1)) r"
      using False Close(2) by (auto simp: close_body_def)
    have "int (unclosed i resps) = int (unclosed i (resps[k := resp])) + (if ?b = i then 1 else 0)" for i
      using unclosed_close [OF Close(1) False] by (simp add: u)
    moreover have "server_of ` set (resps[k := resp]) \<subseteq> server_of ` set resps"
      unfolding u(1) by (rule server_of_close)
    then have "set calls \<union> server_of ` set (resps[k := resp]) \<subseteq> {..<length (backends r)}"
      using Close(3) unfolding ledger_def by blast
    ultimately show ?thesis using Close(3)
      by (simp add: ledger_def u(2) mark_success_def add_in_flight_def)
  qed
next
  case (Probe i r calls resps x)
  then show ?case using ledger_cong [OF check_one_in_flight [OF Probe(1)]] by simp
qed

text \<open>C5:
  The in-flight ledger.  From a router that is idle, after any interleaving of choices,
  requests, failures, answers, closes and probes, every backend's \<open>inFlight\<close> is exactly the
  number of calls to it still in progress plus the number of its responses whose body has
  not been closed, however often a body is closed.  So it never goes negative, and returns
  to zero exactly when no call is left and all bodies are closed.
\<close>

theorem in_flight_ledger:
  assumes "\<forall>b \<in> set (backends r0). inFlight b = 0" "pool_reach r0 (r, calls, resps)" "i < length (backends r)"
  shows "inFlight (backends r ! i) = int (count_list calls i + unclosed i resps) \<and>
    (inFlight (backends r ! i) = 0) = (i \<notin> set calls \<and> (\<forall>x \<in> set resps. \<not> (server_of x = i \<and> \<not> closed x)))"
proof -
  have "ledger s" if "pool_reach r0 s" for s
    using that assms(1) by (induction rule: rtranclp_induct) (auto simp: ledger_begin intro: ledger_step)
  then have e: "inFlight (backends r ! i) = int (count_list calls i + unclosed i resps)"
    using assms(2,3) by (fastforce simp: ledger_def)
  moreover have "count_list calls i = 0 \<longleftrightarrow> i \<notin> set calls" by (rule count_list_0_iff)
  moreover have "unclosed i resps = 0 \<longleftrightarrow> (\<forall>x \<in> set resps. \<not> (server_of x = i \<and> \<not> closed x))"
    by (simp add: unclosed_def filter_empty_conv)
  ultimately show ?thesis by (simp only: of_nat_eq_0_iff add_is_0 simp_thms)
qed

text \<open>The second backend answers, and the body is not closed yet.\<close>

lemma in_flight_ledger_witness:
  "inFlight (backends (do_begin 1 (router_of two_backends ''p2c'')) ! 1) = 1"
proof -
  let ?r = "router_of two_backends ''p2c''" and ?resp = "\<lparr>StatusCode = 200, Body = ''ok'', server_of = 1, closed = False\<rparr>"
  have l: "length (backends ?r) = 2" "\<forall>b \<in> set (backends ?r). inFlight b = 0"
    by (simp_all add: router_of_def two_backends_def new_backend_def)
  have "pool_step (?r, [], []) (do_begin 1 ?r, [1], [])" using l by (intro Begin) simp
  moreover have "pool_step (do_begin 1 ?r, [1], []) (do_begin 1 ?r, remove1 1 [1], [] @ [?resp])"
    by (rule Answered [where x = "Answer 200 ''ok''"]) (simp_all add: do_end_def go_quot_nonneg)
  ultimately have "pool_reach ?r (do_begin 1 ?r, [], [?resp])"
    by (simp add: converse_rtranclp_into_rtranclp)
  then show ?thesis using in_flight_ledger [OF l(2), of _ _ _ 1] l(1)
    by (fastforce simp: unclosed_def do_begin_def)
qed


subsection \<open>Health\<close>

text \<open>
  What happens to one backend over time: a request to it fails, the body of one of its
  responses is closed, or it is probed.
\<close>

datatype health_event = ReqFailed time | BodyClosed | Probed exchange

definition health_step :: "nat \<Rightarrow> health_event \<Rightarrow> router \<Rightarrow> router" where
  "health_step i ev r =
     (case ev of
        ReqFailed t \<Rightarrow> upd_backend i (mark_failure t) r
      | BodyClosed \<Rightarrow> upd_backend i mark_success r
      | Probed x \<Rightarrow> check_one i x r)"

definition health_run :: "nat \<Rightarrow> health_event list \<Rightarrow> router \<Rightarrow> router" where
  "health_run i evs r = fold (health_step i) evs r"

definition probe_ok :: "exchange \<Rightarrow> bool" where
  "probe_ok x = (case x of Answer code _ \<Rightarrow> 200 \<le> code \<and> code < 300 | _ \<Rightarrow> False)"

definition good_probe :: "health_event \<Rightarrow> bool" where
  "good_probe ev = (case ev of Probed x \<Rightarrow> probe_ok x | _ \<Rightarrow> False)"

definition bad_probe :: "health_event \<Rightarrow> bool" where
  "bad_probe ev = (case ev of Probed x \<Rightarrow> \<not> probe_ok x | _ \<Rightarrow> False)"

text \<open>The failures, of requests and of probes, since the last success of either kind.\<close>

definition streak :: "health_event list \<Rightarrow> nat" where
  "streak evs = length (takeWhile (\<lambda>ev. bad_probe ev \<or> (\<exists>t. ev = ReqFailed t)) (rev evs))"

text \<open>Some failed probe brought the streak to the threshold, and no good probe came after it.\<close>

definition tripped :: "int \<Rightarrow> health_event list \<Rightarrow> bool" where
  "tripped threshold evs \<longleftrightarrow>
     (\<exists>as ev bs. evs = as @ ev # bs \<and> bad_probe ev \<and> threshold \<le> int (streak (as @ [ev]))
        \<and> (\<forall>e \<in> set bs. \<not> good_probe e))"

lemma go_quot_2xx: "go_quot code 100 = 2 \<longleftrightarrow> 200 \<le> code \<and> code < 300"
proof (cases "0 \<le> code")
  case True
  then show ?thesis by (simp add: go_quot_nonneg) linarith
next
  case False
  then have "go_quot code 100 \<le> 0" by (simp add: go_quot_def)
  then show ?thesis using False by linarith
qed

lemma check_one_probe: "check_one i x r = record_health i (probe_ok x) r"
  by (cases x) (simp_all add: check_one_def probe_ok_def go_quot_2xx)

lemma streak_snoc:
  "streak (evs @ [ev]) = (if bad_probe ev \<or> (\<exists>t. ev = ReqFailed t) then Suc (streak evs) else 0)"
  by (simp add: streak_def)

lemma tripped_snoc:
  "tripped k (evs @ [ev]) \<longleftrightarrow>
     (bad_probe ev \<and> k \<le> int (streak (evs @ [ev]))) \<or> (tripped k evs \<and> \<not> good_probe ev)"
proof
  assume "tripped k (evs @ [ev])"
  then obtain as e bs where s: "evs @ [ev] = as @ e # bs" "bad_probe e" "k \<le> int (streak (as @ [e]))"
    "\<forall>e \<in> set bs. \<not> good_probe e" by (auto simp: tripped_def)
  show "(bad_probe ev \<and> k \<le> int (streak (evs @ [ev]))) \<or> (tripped k evs \<and> \<not> good_probe ev)"
  proof (cases bs rule: rev_cases)
    case Nil
    then show ?thesis using s by auto
  next
    case (snoc bs' b)
    then have "evs = as @ e # bs'" "ev = b" using s(1) by auto
    then show ?thesis using s snoc unfolding tripped_def by auto
  qed
next
  assume "(bad_probe ev \<and> k \<le> int (streak (evs @ [ev]))) \<or> (tripped k evs \<and> \<not> good_probe ev)"
  then show "tripped k (evs @ [ev])"
  proof
    assume "bad_probe ev \<and> k \<le> int (streak (evs @ [ev]))"
    then show ?thesis unfolding tripped_def by fastforce
  next
    assume a: "tripped k evs \<and> \<not> good_probe ev"
    then obtain as e bs where "evs = as @ e # bs" "bad_probe e" "k \<le> int (streak (as @ [e]))"
      "\<forall>e \<in> set bs. \<not> good_probe e" by (auto simp: tripped_def)
    then have "evs @ [ev] = as @ e # (bs @ [ev])" "\<forall>e \<in> set (bs @ [ev]). \<not> good_probe e" using a by auto
    then show ?thesis unfolding tripped_def using \<open>bad_probe e\<close> \<open>k \<le> _\<close> by blast
  qed
qed

lemma good_not_bad: "good_probe ev \<Longrightarrow> \<not> bad_probe ev"
  by (cases ev) (auto simp: good_probe_def bad_probe_def)

lemma health_step_keeps:
  assumes "i < length (backends r)"
  shows "r_cfg (health_step i ev r) = r_cfg r" "length (backends (health_step i ev r)) = length (backends r)"
  using assms by (cases ev; simp add: health_step_def check_one_probe record_health_def Let_def)+

lemma record_health_backend:
  assumes "i < length (backends r)"
  shows "failures (backends (record_health i ok r) ! i) = (if ok then 0 else failures (backends r ! i) + 1)"
    "healthy (backends (record_health i ok r) ! i) \<longleftrightarrow>
      ok \<or> (healthy (backends r ! i) \<and> failures (backends r ! i) + 1 < FailureThreshold (r_cfg r))"
proof -
  let ?r = "upd_backend i (\<lambda>b. b\<lparr>failures := failures b + 1\<rparr>) r"
  have b: "backends ?r ! i = (backends r ! i)\<lparr>failures := failures (backends r ! i) + 1\<rparr>"
    "length (backends ?r) = length (backends r)" using assms by simp_all
  show "failures (backends (record_health i ok r) ! i) = (if ok then 0 else failures (backends r ! i) + 1)"
    using assms b by (simp add: record_health_def Let_def)
  show "healthy (backends (record_health i ok r) ! i) \<longleftrightarrow>
      ok \<or> (healthy (backends r ! i) \<and> failures (backends r ! i) + 1 < FailureThreshold (r_cfg r))"
    using assms b by (auto simp: record_health_def Let_def)
qed

lemma health_step_backend:
  assumes "i < length (backends r)"
  shows "failures (backends (health_step i ev r) ! i) =
      (if bad_probe ev \<or> (\<exists>t. ev = ReqFailed t) then failures (backends r ! i) + 1 else 0)
    \<and> (healthy (backends (health_step i ev r) ! i) \<longleftrightarrow>
      good_probe ev \<or> (healthy (backends r ! i)
        \<and> \<not> (bad_probe ev \<and> FailureThreshold (r_cfg r) \<le> failures (backends r ! i) + 1)))"
proof (cases ev)
  case (ReqFailed t)
  then show ?thesis using assms
    by (simp add: health_step_def bad_probe_def good_probe_def mark_failure_def)
next
  case BodyClosed
  then show ?thesis using assms
    by (simp add: health_step_def bad_probe_def good_probe_def mark_success_def)
next
  case (Probed x)
  then show ?thesis using record_health_backend [OF assms, of "probe_ok x"]
    by (auto simp: health_step_def bad_probe_def good_probe_def check_one_probe)
qed

text \<open>C8:
  When a backend is down.  Over any sequence of failed requests, closed bodies and probes, a
  backend that started healthy is marked unhealthy exactly when some failed probe (no 2xx
  answer) found the current streak of failures at \<open>FailureThreshold\<close> or above and no good
  probe has come since; the streak counts failed requests as well as failed probes, and any
  success resets it.  A failed request alone never takes a backend down, and a served
  request alone never brings it back.
\<close>

theorem health_exact:
  assumes "i < length (backends r)" "healthy (backends r ! i)" "failures (backends r ! i) = 0"
  shows "healthy (backends (health_run i evs r) ! i) \<longleftrightarrow> \<not> tripped (FailureThreshold (r_cfg r)) evs"
proof -
  have "r_cfg (health_run i evs r) = r_cfg r \<and> length (backends (health_run i evs r)) = length (backends r)
    \<and> failures (backends (health_run i evs r) ! i) = int (streak evs)
    \<and> (healthy (backends (health_run i evs r) ! i) \<longleftrightarrow> \<not> tripped (FailureThreshold (r_cfg r)) evs)"
  proof (induction evs rule: rev_induct)
    case Nil
    then show ?case using assms by (simp add: health_run_def streak_def tripped_def)
  next
    case (snoc ev evs)
    let ?r = "health_run i evs r"
    have "health_run i (evs @ [ev]) r = health_step i ev ?r" by (simp add: health_run_def)
    moreover have i: "i < length (backends ?r)" using snoc assms(1) by simp
    ultimately show ?case
      using snoc health_step_keeps [OF i, of ev] health_step_backend [OF i, of ev] good_not_bad [of ev]
      by (auto simp: tripped_snoc streak_snoc)
  qed
  then show ?thesis by blast
qed

text \<open>One failed request and two failed probes reach the default threshold of three.\<close>

lemma health_exact_witness:
  "\<not> healthy (backends (health_run 0 [ReqFailed 0, Probed (ClientError Canceled), Probed (ClientError Canceled)]
      (router_of two_backends ''p2c'')) ! 0)"
proof -
  let ?e = "Probed (ClientError Canceled)"
  have "tripped 3 ([ReqFailed 0, ?e] @ [?e])"
    unfolding tripped_snoc by (simp add: streak_def bad_probe_def probe_ok_def)
  then show ?thesis
    using health_exact [of 0 "router_of two_backends ''p2c''" "[ReqFailed 0, ?e, ?e]"]
    by (simp add: router_of_def two_backends_def new_backend_def default_config_def)
qed

end
