(* ===== verification/Scheduler.thy ===== *)
theory Scheduler
  imports Router
begin

section \<open>The batching scheduler\<close>

text \<open>
  The package \<open>internal/scheduler\<close>.  The goroutines that share the scheduler (the callers
  of \<open>Submit\<close> and \<open>Stop\<close>, the batcher, the workers, the clock with its timer) are the
  events of \<open>exec\<close>: an event is one of their steps, enabled or not in a state, and a run is
  a list of events, so that every interleaving is a run.  A \<open>select\<close> with several ready
  cases is several enabled events.

  A job is an address in \<open>jobs\<close>.  The batcher is at its \<open>select\<close> when \<open>pending\<close> is empty,
  and inside \<open>dispatchBatch\<close> when it is not: the jobs of the batch at hand that have no
  worker yet.  \<open>slots\<close> is the length of the channel \<open>workers\<close>.  The result of
  \<open>Dispatcher.Do\<close> comes with the event of its return.
\<close>

subsection \<open>Configuration and state\<close>

record sched_config =
  MaxBatchSize :: int
  MaxWait :: duration
  QueueCapacity :: int
  Workers :: int
  s_RequestTimeout :: duration

definition with_defaults :: "sched_config \<Rightarrow> sched_config" where
  "with_defaults c =
     \<lparr>MaxBatchSize = (if MaxBatchSize c \<le> 0 then 1 else MaxBatchSize c),
      MaxWait = (if MaxWait c \<le> 0 then 25 * millisecond else MaxWait c),
      QueueCapacity = (if QueueCapacity c \<le> 0 then 1024 else QueueCapacity c),
      Workers = (if Workers c \<le> 0 then 8 else Workers c),
      s_RequestTimeout = (if s_RequestTimeout c \<le> 0 then 60 * second else s_RequestTimeout c)\<rparr>"

datatype chan = NilChan | OpenChan | ClosedChan

datatype job_ctx = NoContext | LiveContext | Cancelled

record job =
  j_Model :: string
  j_Stream :: bool
  j_Body :: string
  j_Submitted :: time
  j_Response :: "response option"
  j_Backend :: string
  j_Err :: "go_error option"
  Done :: chan
  j_ctx :: job_ctx

datatype batcher = NotStarted | Selecting | Draining | Exited

text \<open>
  \<open>timer_at\<close> is the time at which the active timer expires, \<open>timer_c\<close> whether its channel
  holds a value.  The last three fields are history: the jobs accepted and the jobs given to
  a worker, in order, and the time at which the current batch got its first job.
\<close>

record sched =
  s_cfg :: sched_config
  jobs :: "nat \<Rightarrow> job"
  queue :: "nat list"
  batch :: "nat list"
  pending :: "nat list"
  in_do :: "nat list"
  returning :: "nat list"
  slots :: int
  pc :: batcher
  timer_at :: "time option"
  timer_c :: bool
  clock :: time
  stopCh_closed :: bool
  stopped_closed :: bool
  panicked :: bool
  QueueDepth :: nat
  BatchSizes :: "nat list"
  BatchesDispatched :: nat
  SchedulerRejections :: nat
  accepted :: "nat list"
  launched :: "nat list"
  first_at :: time

definition new_sched :: "sched_config \<Rightarrow> (nat \<Rightarrow> job) \<Rightarrow> time \<Rightarrow> sched" where
  "new_sched c js now =
     \<lparr>s_cfg = with_defaults c, jobs = js, queue = [], batch = [], pending = [], in_do = [],
      returning = [], slots = 0, pc = NotStarted, timer_at = None, timer_c = False, clock = now,
      stopCh_closed = False, stopped_closed = False, panicked = False, QueueDepth = 0,
      BatchSizes = [], BatchesDispatched = 0, SchedulerRejections = 0, accepted = [],
      launched = [], first_at = now\<rparr>"

definition upd_job :: "nat \<Rightarrow> (job \<Rightarrow> job) \<Rightarrow> sched \<Rightarrow> sched" where
  "upd_job j f s = s\<lparr>jobs := (jobs s)(j := f (jobs s j))\<rparr>"

subsection \<open>Submitting\<close>

datatype submit_error = ErrQueueFull

definition submit :: "nat \<Rightarrow> sched \<Rightarrow> submit_error option \<times> sched" where
  "submit j s =
     (let s = (if Done (jobs s j) = NilChan then upd_job j (Done_update (\<lambda>_. OpenChan)) s else s)
      in if int (length (queue s)) < QueueCapacity (s_cfg s)
         then (None, s\<lparr>queue := queue s @ [j], QueueDepth := Suc (length (queue s)),
                       accepted := accepted s @ [j]\<rparr>)
         else (Some ErrQueueFull, s\<lparr>SchedulerRejections := Suc (SchedulerRejections s)\<rparr>))"

subsection \<open>The batcher\<close>

definition flush :: "sched \<Rightarrow> sched" where
  "flush s =
     (if batch s = [] then s
      else s\<lparr>pending := batch s, batch := [], QueueDepth := length (queue s),
             BatchSizes := BatchSizes s @ [length (batch s)],
             BatchesDispatched := Suc (BatchesDispatched s)\<rparr>)"

text \<open>
  Stopping the timer tells whether it was active.  If it was not, a value left in its
  channel is drained before the timer is set again.
\<close>

definition timer_stop :: "sched \<Rightarrow> bool \<times> sched" where
  "timer_stop s = (timer_at s \<noteq> None, s\<lparr>timer_at := None\<rparr>)"

definition arm :: "sched \<Rightarrow> sched" where
  "arm s =
     (let (active, s) = timer_stop s;
          s = (if active then s else s\<lparr>timer_c := False\<rparr>)
      in s\<lparr>timer_at := Some (clock s + MaxWait (s_cfg s)), first_at := clock s\<rparr>)"

definition recv_case :: "nat \<Rightarrow> nat list \<Rightarrow> sched \<Rightarrow> sched" where
  "recv_case j q s =
     (let s = s\<lparr>queue := q\<rparr>;
          s = (if batch s = [] then arm s else s);
          s = s\<lparr>batch := batch s @ [j], QueueDepth := length (queue s)\<rparr>
      in if MaxBatchSize (s_cfg s) \<le> int (length (batch s)) then flush s else s)"

definition timer_case :: "sched \<Rightarrow> sched" where
  "timer_case s = flush (s\<lparr>timer_c := False\<rparr>)"

definition stop_case :: "sched \<Rightarrow> sched" where
  "stop_case s = (flush s)\<lparr>pc := Draining\<rparr>"

subsection \<open>Workers\<close>

definition launch :: "nat \<Rightarrow> nat list \<Rightarrow> sched \<Rightarrow> sched" where
  "launch j p s =
     upd_job j (j_ctx_update (\<lambda>_. LiveContext))
       (s\<lparr>pending := p, slots := slots s + 1, in_do := in_do s @ [j], launched := launched s @ [j]\<rparr>)"

text \<open>Closing a channel that is closed or nil is a panic.\<close>

definition close_done :: "nat \<Rightarrow> sched \<Rightarrow> sched" where
  "close_done j s =
     (if Done (jobs s j) = OpenChan then upd_job j (Done_update (\<lambda>_. ClosedChan)) s
      else s\<lparr>panicked := True\<rparr>)"

definition do_return :: "nat \<Rightarrow> go_error + response \<times> string \<Rightarrow> sched \<Rightarrow> sched" where
  "do_return j res s =
     (let s = s\<lparr>in_do := remove1 j (in_do s), returning := j # returning s\<rparr>
      in case res of
           Inl err \<Rightarrow> close_done j (upd_job j (\<lambda>x. x\<lparr>j_ctx := Cancelled, j_Err := Some err\<rparr>) s)
         | Inr (resp, b) \<Rightarrow> close_done j (upd_job j (\<lambda>x. x\<lparr>j_Response := Some resp, j_Backend := b\<rparr>) s))"

definition release :: "nat \<Rightarrow> sched \<Rightarrow> sched" where
  "release j s = s\<lparr>returning := remove1 j (returning s), slots := slots s - 1\<rparr>"

text \<open>\<open>cancelOnClose.Close\<close>: closing the body, once or more, ends the job's context.\<close>

definition close_response :: "nat \<Rightarrow> sched \<Rightarrow> sched" where
  "close_response j = upd_job j (j_ctx_update (\<lambda>_. Cancelled))"

subsection \<open>Events\<close>

datatype sched_event =
    Start
  | Submit nat
  | StopCall
  | Tick duration
  | Fire
  | Recv
  | TimerCase
  | StopCase
  | DrainRecv
  | DrainDone
  | Launch
  | DoReturn nat "go_error + response \<times> string"
  | Release nat
  | CloseResponse nat

definition at_select :: "batcher \<Rightarrow> sched \<Rightarrow> bool" where
  "at_select p s \<longleftrightarrow> pc s = p \<and> pending s = []"

fun exec :: "sched_event \<Rightarrow> sched \<Rightarrow> sched option" where
  "exec Start s = (if pc s = NotStarted then Some (s\<lparr>pc := Selecting\<rparr>) else None)"
| "exec (Submit j) s = Some (snd (submit j s))"
| "exec StopCall s = Some (s\<lparr>stopCh_closed := True\<rparr>)"
| "exec (Tick d) s = (if 0 \<le> d then Some (s\<lparr>clock := clock s + d\<rparr>) else None)"
| "exec Fire s =
     (case timer_at s of
        None \<Rightarrow> None
      | Some t \<Rightarrow> if t \<le> clock s then Some (s\<lparr>timer_at := None, timer_c := True\<rparr>) else None)"
| "exec Recv s =
     (case queue s of [] \<Rightarrow> None | j # q \<Rightarrow> if at_select Selecting s then Some (recv_case j q s) else None)"
| "exec TimerCase s = (if at_select Selecting s \<and> timer_c s then Some (timer_case s) else None)"
| "exec StopCase s = (if at_select Selecting s \<and> stopCh_closed s then Some (stop_case s) else None)"
| "exec DrainRecv s =
     (case queue s of
        [] \<Rightarrow> None
      | j # q \<Rightarrow> if at_select Draining s then Some (s\<lparr>queue := q, pending := [j]\<rparr>) else None)"
| "exec DrainDone s =
     (if at_select Draining s \<and> queue s = [] then Some (s\<lparr>pc := Exited, stopped_closed := True\<rparr>) else None)"
| "exec Launch s =
     (case pending s of [] \<Rightarrow> None | j # p \<Rightarrow> if slots s < Workers (s_cfg s) then Some (launch j p s) else None)"
| "exec (DoReturn j res) s = (if j \<in> set (in_do s) then Some (do_return j res s) else None)"
| "exec (Release j) s = (if j \<in> set (returning s) then Some (release j s) else None)"
| "exec (CloseResponse j) s =
     (if j_Response (jobs s j) \<noteq> None then Some (close_response j s) else None)"

fun run :: "sched_event list \<Rightarrow> sched \<Rightarrow> sched option" where
  "run [] s = Some s"
| "run (ev # evs) s = (case exec ev s of None \<Rightarrow> None | Some s \<Rightarrow> run evs s)"

interpretation sched_runs: runs exec "\<lambda>_. False" run
  by unfold_locales (auto split: option.splits)

text \<open>The states of a scheduler made by \<open>New\<close> over jobs that are not finished.\<close>

definition fresh_job :: "job \<Rightarrow> bool" where
  "fresh_job x \<longleftrightarrow> j_Response x = None \<and> j_Err x = None \<and> Done x \<noteq> ClosedChan \<and> j_ctx x = NoContext"

inductive reachable :: "sched \<Rightarrow> bool" where
  New: "(\<And>j. fresh_job (js j)) \<Longrightarrow> reachable (new_sched c js now)"
| Step: "reachable s \<Longrightarrow> exec ev s = Some s' \<Longrightarrow> reachable s'"


subsection \<open>The effect of the steps\<close>

lemma upd_job_fields [simp]:
  "s_cfg (upd_job j f s) = s_cfg s" "queue (upd_job j f s) = queue s" "batch (upd_job j f s) = batch s"
  "pending (upd_job j f s) = pending s" "in_do (upd_job j f s) = in_do s"
  "returning (upd_job j f s) = returning s" "slots (upd_job j f s) = slots s" "pc (upd_job j f s) = pc s"
  "timer_at (upd_job j f s) = timer_at s" "timer_c (upd_job j f s) = timer_c s"
  "clock (upd_job j f s) = clock s" "stopCh_closed (upd_job j f s) = stopCh_closed s"
  "stopped_closed (upd_job j f s) = stopped_closed s" "panicked (upd_job j f s) = panicked s"
  "QueueDepth (upd_job j f s) = QueueDepth s" "BatchSizes (upd_job j f s) = BatchSizes s"
  "BatchesDispatched (upd_job j f s) = BatchesDispatched s"
  "SchedulerRejections (upd_job j f s) = SchedulerRejections s" "accepted (upd_job j f s) = accepted s"
  "launched (upd_job j f s) = launched s" "first_at (upd_job j f s) = first_at s"
  by (simp_all add: upd_job_def)

lemma close_done_fields [simp]:
  "s_cfg (close_done j s) = s_cfg s" "queue (close_done j s) = queue s" "batch (close_done j s) = batch s"
  "pending (close_done j s) = pending s" "in_do (close_done j s) = in_do s"
  "returning (close_done j s) = returning s" "slots (close_done j s) = slots s" "pc (close_done j s) = pc s"
  "timer_at (close_done j s) = timer_at s" "timer_c (close_done j s) = timer_c s"
  "clock (close_done j s) = clock s" "stopCh_closed (close_done j s) = stopCh_closed s"
  "stopped_closed (close_done j s) = stopped_closed s" "QueueDepth (close_done j s) = QueueDepth s"
  "BatchSizes (close_done j s) = BatchSizes s" "BatchesDispatched (close_done j s) = BatchesDispatched s"
  "SchedulerRejections (close_done j s) = SchedulerRejections s" "accepted (close_done j s) = accepted s"
  "launched (close_done j s) = launched s" "first_at (close_done j s) = first_at s"
  by (simp_all add: close_done_def)

lemma do_return_fields [simp]:
  "s_cfg (do_return j res s) = s_cfg s" "queue (do_return j res s) = queue s"
  "batch (do_return j res s) = batch s" "pending (do_return j res s) = pending s"
  "slots (do_return j res s) = slots s" "pc (do_return j res s) = pc s"
  "timer_at (do_return j res s) = timer_at s" "timer_c (do_return j res s) = timer_c s"
  "clock (do_return j res s) = clock s" "stopCh_closed (do_return j res s) = stopCh_closed s"
  "stopped_closed (do_return j res s) = stopped_closed s" "QueueDepth (do_return j res s) = QueueDepth s"
  "BatchSizes (do_return j res s) = BatchSizes s"
  "BatchesDispatched (do_return j res s) = BatchesDispatched s"
  "SchedulerRejections (do_return j res s) = SchedulerRejections s"
  "accepted (do_return j res s) = accepted s" "launched (do_return j res s) = launched s"
  "first_at (do_return j res s) = first_at s"
  by (simp_all add: do_return_def Let_def split: sum.split prod.split)

lemma do_return_workers [simp]:
  "in_do (do_return j res s) = remove1 j (in_do s)" "returning (do_return j res s) = j # returning s"
  by (simp_all add: do_return_def Let_def split: sum.split prod.split)

lemma submit_fields [simp]:
  "s_cfg (snd (submit j s)) = s_cfg s" "batch (snd (submit j s)) = batch s"
  "pending (snd (submit j s)) = pending s" "in_do (snd (submit j s)) = in_do s"
  "returning (snd (submit j s)) = returning s" "slots (snd (submit j s)) = slots s"
  "pc (snd (submit j s)) = pc s" "timer_at (snd (submit j s)) = timer_at s"
  "timer_c (snd (submit j s)) = timer_c s" "clock (snd (submit j s)) = clock s"
  "stopCh_closed (snd (submit j s)) = stopCh_closed s" "stopped_closed (snd (submit j s)) = stopped_closed s"
  "panicked (snd (submit j s)) = panicked s" "BatchSizes (snd (submit j s)) = BatchSizes s"
  "BatchesDispatched (snd (submit j s)) = BatchesDispatched s" "launched (snd (submit j s)) = launched s"
  "first_at (snd (submit j s)) = first_at s"
  by (simp_all add: submit_def Let_def)

lemma submit_queue:
  "queue (snd (submit j s)) = (if int (length (queue s)) < QueueCapacity (s_cfg s) then queue s @ [j] else queue s)"
  "accepted (snd (submit j s)) = (if int (length (queue s)) < QueueCapacity (s_cfg s) then accepted s @ [j] else accepted s)"
  by (simp_all add: submit_def Let_def)

lemma launch_fields [simp]:
  "s_cfg (launch j p s) = s_cfg s" "queue (launch j p s) = queue s" "batch (launch j p s) = batch s"
  "returning (launch j p s) = returning s" "pc (launch j p s) = pc s" "timer_at (launch j p s) = timer_at s"
  "timer_c (launch j p s) = timer_c s" "clock (launch j p s) = clock s"
  "stopCh_closed (launch j p s) = stopCh_closed s" "stopped_closed (launch j p s) = stopped_closed s"
  "panicked (launch j p s) = panicked s" "QueueDepth (launch j p s) = QueueDepth s"
  "BatchSizes (launch j p s) = BatchSizes s" "BatchesDispatched (launch j p s) = BatchesDispatched s"
  "SchedulerRejections (launch j p s) = SchedulerRejections s" "accepted (launch j p s) = accepted s"
  "first_at (launch j p s) = first_at s"
  by (simp_all add: launch_def)

lemma launch_workers [simp]:
  "pending (launch j p s) = p" "slots (launch j p s) = slots s + 1" "in_do (launch j p s) = in_do s @ [j]"
  "launched (launch j p s) = launched s @ [j]"
  by (simp_all add: launch_def)

lemma release_fields [simp]:
  "s_cfg (release j s) = s_cfg s" "queue (release j s) = queue s" "batch (release j s) = batch s"
  "pending (release j s) = pending s" "in_do (release j s) = in_do s" "pc (release j s) = pc s"
  "timer_at (release j s) = timer_at s" "timer_c (release j s) = timer_c s" "clock (release j s) = clock s"
  "stopCh_closed (release j s) = stopCh_closed s" "stopped_closed (release j s) = stopped_closed s"
  "panicked (release j s) = panicked s" "QueueDepth (release j s) = QueueDepth s"
  "BatchSizes (release j s) = BatchSizes s" "BatchesDispatched (release j s) = BatchesDispatched s"
  "SchedulerRejections (release j s) = SchedulerRejections s" "accepted (release j s) = accepted s"
  "launched (release j s) = launched s" "first_at (release j s) = first_at s"
  by (simp_all add: release_def)

lemma release_workers [simp]:
  "returning (release j s) = remove1 j (returning s)" "slots (release j s) = slots s - 1"
  by (simp_all add: release_def)

lemma close_response_fields [simp]:
  "s_cfg (close_response j s) = s_cfg s" "queue (close_response j s) = queue s"
  "batch (close_response j s) = batch s" "pending (close_response j s) = pending s"
  "in_do (close_response j s) = in_do s" "returning (close_response j s) = returning s"
  "slots (close_response j s) = slots s" "pc (close_response j s) = pc s"
  "timer_at (close_response j s) = timer_at s" "timer_c (close_response j s) = timer_c s"
  "clock (close_response j s) = clock s" "stopCh_closed (close_response j s) = stopCh_closed s"
  "stopped_closed (close_response j s) = stopped_closed s" "panicked (close_response j s) = panicked s"
  "QueueDepth (close_response j s) = QueueDepth s" "BatchSizes (close_response j s) = BatchSizes s"
  "BatchesDispatched (close_response j s) = BatchesDispatched s"
  "SchedulerRejections (close_response j s) = SchedulerRejections s"
  "accepted (close_response j s) = accepted s" "launched (close_response j s) = launched s"
  "first_at (close_response j s) = first_at s"
  by (simp_all add: close_response_def)

lemma flush_fields [simp]:
  "s_cfg (flush s) = s_cfg s" "queue (flush s) = queue s" "in_do (flush s) = in_do s"
  "returning (flush s) = returning s" "slots (flush s) = slots s" "pc (flush s) = pc s"
  "timer_at (flush s) = timer_at s" "timer_c (flush s) = timer_c s" "clock (flush s) = clock s"
  "stopCh_closed (flush s) = stopCh_closed s" "stopped_closed (flush s) = stopped_closed s"
  "panicked (flush s) = panicked s" "SchedulerRejections (flush s) = SchedulerRejections s"
  "accepted (flush s) = accepted s" "launched (flush s) = launched s" "first_at (flush s) = first_at s"
  by (simp_all add: flush_def)

lemma flush_batch [simp]:
  "batch (flush s) = []" "pending (flush s) = (if batch s = [] then pending s else batch s)"
  "BatchSizes (flush s) = (if batch s = [] then BatchSizes s else BatchSizes s @ [length (batch s)])"
  "BatchesDispatched (flush s) = (if batch s = [] then BatchesDispatched s else Suc (BatchesDispatched s))"
  by (simp_all add: flush_def)

lemma arm_fields [simp]:
  "s_cfg (arm s) = s_cfg s" "queue (arm s) = queue s" "batch (arm s) = batch s" "pending (arm s) = pending s"
  "in_do (arm s) = in_do s" "returning (arm s) = returning s" "slots (arm s) = slots s" "pc (arm s) = pc s"
  "clock (arm s) = clock s" "stopCh_closed (arm s) = stopCh_closed s"
  "stopped_closed (arm s) = stopped_closed s" "panicked (arm s) = panicked s"
  "QueueDepth (arm s) = QueueDepth s" "BatchSizes (arm s) = BatchSizes s"
  "BatchesDispatched (arm s) = BatchesDispatched s" "SchedulerRejections (arm s) = SchedulerRejections s"
  "accepted (arm s) = accepted s" "launched (arm s) = launched s"
  by (simp_all add: arm_def timer_stop_def)

lemma arm_timer [simp]:
  "timer_at (arm s) = Some (clock s + MaxWait (s_cfg s))" "first_at (arm s) = clock s"
  "timer_c (arm s) \<longleftrightarrow> timer_c s \<and> timer_at s \<noteq> None"
  by (auto simp: arm_def timer_stop_def)

text \<open>The three cases of the \<open>select\<close>, field by field.\<close>

lemma recv_fields [simp]:
  "s_cfg (recv_case j q s) = s_cfg s" "in_do (recv_case j q s) = in_do s"
  "returning (recv_case j q s) = returning s" "slots (recv_case j q s) = slots s"
  "pc (recv_case j q s) = pc s" "clock (recv_case j q s) = clock s"
  "stopCh_closed (recv_case j q s) = stopCh_closed s" "stopped_closed (recv_case j q s) = stopped_closed s"
  "panicked (recv_case j q s) = panicked s" "SchedulerRejections (recv_case j q s) = SchedulerRejections s"
  "accepted (recv_case j q s) = accepted s" "launched (recv_case j q s) = launched s"
  "jobs (recv_case j q s) = jobs s"
  by (simp_all add: recv_case_def Let_def flush_def arm_def timer_stop_def)

lemma recv_batch:
  "queue (recv_case j q s) = q"
  "batch (recv_case j q s) =
     (if MaxBatchSize (s_cfg s) \<le> int (Suc (length (batch s))) then [] else batch s @ [j])"
  "pending (recv_case j q s) =
     (if MaxBatchSize (s_cfg s) \<le> int (Suc (length (batch s))) then batch s @ [j] else pending s)"
  "BatchSizes (recv_case j q s) =
     (if MaxBatchSize (s_cfg s) \<le> int (Suc (length (batch s)))
      then BatchSizes s @ [Suc (length (batch s))] else BatchSizes s)"
  "BatchesDispatched (recv_case j q s) =
     (if MaxBatchSize (s_cfg s) \<le> int (Suc (length (batch s)))
      then Suc (BatchesDispatched s) else BatchesDispatched s)"
  by (simp_all add: recv_case_def Let_def)

lemma recv_timer:
  "timer_at (recv_case j q s) = (if batch s = [] then Some (clock s + MaxWait (s_cfg s)) else timer_at s)"
  "first_at (recv_case j q s) = (if batch s = [] then clock s else first_at s)"
  "timer_c (recv_case j q s) \<longleftrightarrow> timer_c s \<and> (batch s = [] \<longrightarrow> timer_at s \<noteq> None)"
  by (simp_all add: recv_case_def Let_def)

lemma timer_case_fields [simp]:
  "s_cfg (timer_case s) = s_cfg s" "in_do (timer_case s) = in_do s" "returning (timer_case s) = returning s"
  "slots (timer_case s) = slots s" "pc (timer_case s) = pc s" "clock (timer_case s) = clock s"
  "stopCh_closed (timer_case s) = stopCh_closed s" "stopped_closed (timer_case s) = stopped_closed s"
  "panicked (timer_case s) = panicked s" "SchedulerRejections (timer_case s) = SchedulerRejections s"
  "accepted (timer_case s) = accepted s" "launched (timer_case s) = launched s"
  "queue (timer_case s) = queue s" "timer_at (timer_case s) = timer_at s"
  "first_at (timer_case s) = first_at s" "jobs (timer_case s) = jobs s"
  by (simp_all add: timer_case_def flush_def)

lemma timer_case_batch [simp]:
  "timer_c (timer_case s) = False" "batch (timer_case s) = []"
  "pending (timer_case s) = (if batch s = [] then pending s else batch s)"
  "BatchSizes (timer_case s) = (if batch s = [] then BatchSizes s else BatchSizes s @ [length (batch s)])"
  "BatchesDispatched (timer_case s) = (if batch s = [] then BatchesDispatched s else Suc (BatchesDispatched s))"
  by (simp_all add: timer_case_def)

lemma stop_case_fields [simp]:
  "s_cfg (stop_case s) = s_cfg s" "in_do (stop_case s) = in_do s" "returning (stop_case s) = returning s"
  "slots (stop_case s) = slots s" "clock (stop_case s) = clock s"
  "stopCh_closed (stop_case s) = stopCh_closed s" "stopped_closed (stop_case s) = stopped_closed s"
  "panicked (stop_case s) = panicked s" "SchedulerRejections (stop_case s) = SchedulerRejections s"
  "accepted (stop_case s) = accepted s" "launched (stop_case s) = launched s" "queue (stop_case s) = queue s"
  "timer_at (stop_case s) = timer_at s" "timer_c (stop_case s) = timer_c s"
  "first_at (stop_case s) = first_at s" "jobs (stop_case s) = jobs s"
  by (simp_all add: stop_case_def flush_def)

lemma stop_case_batch [simp]:
  "pc (stop_case s) = Draining" "batch (stop_case s) = []"
  "pending (stop_case s) = (if batch s = [] then pending s else batch s)"
  "BatchSizes (stop_case s) = (if batch s = [] then BatchSizes s else BatchSizes s @ [length (batch s)])"
  "BatchesDispatched (stop_case s) = (if batch s = [] then BatchesDispatched s else Suc (BatchesDispatched s))"
  by (simp_all add: stop_case_def)

lemmas exec_splits = if_splits option.splits list.splits

subsection \<open>Invariants\<close>

text \<open>
  The queue, the current batch and the jobs that wait for a worker are one first-in
  first-out line.
\<close>

definition waiting :: "sched \<Rightarrow> nat list" where
  "waiting s = pending s @ batch s @ queue s"

definition line_inv :: "sched \<Rightarrow> bool" where
  "line_inv s \<longleftrightarrow> accepted s = launched s @ waiting s \<and>
     (batch s \<noteq> [] \<longrightarrow> pc s = Selecting \<and> pending s = []) \<and>
     (pending s \<noteq> [] \<longrightarrow> pc s = Selecting \<or> pc s = Draining) \<and>
     (stopped_closed s \<longleftrightarrow> pc s = Exited)"

definition bounds_inv :: "sched \<Rightarrow> bool" where
  "bounds_inv s \<longleftrightarrow> 0 < MaxBatchSize (s_cfg s) \<and> 0 < Workers (s_cfg s) \<and>
     int (length (queue s)) \<le> QueueCapacity (s_cfg s) \<and>
     int (length (batch s)) < MaxBatchSize (s_cfg s) \<and>
     int (length (pending s)) \<le> MaxBatchSize (s_cfg s) \<and>
     slots s = int (length (in_do s) + length (returning s)) \<and> slots s \<le> Workers (s_cfg s) \<and>
     length (BatchSizes s) = BatchesDispatched s \<and>
     (\<forall>n \<in> set (BatchSizes s). 0 < n \<and> int n \<le> MaxBatchSize (s_cfg s))"

definition timer_inv :: "sched \<Rightarrow> bool" where
  "timer_inv s \<longleftrightarrow> (timer_at s \<noteq> None \<longrightarrow> \<not> timer_c s) \<and>
     (batch s \<noteq> [] \<longrightarrow>
        (if timer_c s then first_at s + MaxWait (s_cfg s) \<le> clock s
         else timer_at s = Some (first_at s + MaxWait (s_cfg s))))"

lemma line_step:
  assumes "exec ev s = Some s'" "line_inv s"
  shows "line_inv s'"
  by (insert assms, cases ev; auto simp: line_inv_def waiting_def at_select_def submit_queue recv_batch split: exec_splits)

lemma length_remove1_int: "x \<in> set xs \<Longrightarrow> int (length (remove1 x xs)) = int (length xs) - 1"
  by (cases "length xs") (auto simp: length_remove1)

lemma bounds_step:
  assumes "exec ev s = Some s'" "bounds_inv s"
  shows "bounds_inv s'"
  by (insert assms, cases ev; auto simp: bounds_inv_def at_select_def submit_queue recv_batch length_remove1_int
      split: exec_splits)

lemma timer_step:
  assumes "exec ev s = Some s'" "timer_inv s"
  shows "timer_inv s'"
  by (insert assms, cases ev; auto simp: timer_inv_def at_select_def recv_batch recv_timer split: exec_splits)

lemma exec_cfg: "exec ev s = Some s' \<Longrightarrow> s_cfg s' = s_cfg s"
  by (cases ev) (auto split: exec_splits)

lemma new_inv: "line_inv (new_sched c js now)" "bounds_inv (new_sched c js now)" "timer_inv (new_sched c js now)"
  by (simp_all add: line_inv_def bounds_inv_def timer_inv_def new_sched_def waiting_def with_defaults_def)

lemma reachable_inv:
  assumes "reachable s"
  shows "line_inv s" "bounds_inv s" "timer_inv s"
  using assms by induction (blast intro: new_inv line_step bounds_step timer_step)+

text \<open>
  A job through its life: waiting, with a worker, and finished.  Jobs are submitted
  successfully at most once.
\<close>

definition job_ok :: "bool \<Rightarrow> bool \<Rightarrow> bool \<Rightarrow> job \<Rightarrow> bool" where
  "job_ok in_line started unfinished x \<longleftrightarrow>
     (if \<not> started then
        j_Response x = None \<and> j_Err x = None \<and> Done x \<noteq> ClosedChan \<and> j_ctx x = NoContext
        \<and> (in_line \<longrightarrow> Done x = OpenChan)
      else if unfinished then
        j_Response x = None \<and> j_Err x = None \<and> Done x = OpenChan \<and> j_ctx x = LiveContext
      else
        Done x = ClosedChan \<and> (j_Err x = None \<longleftrightarrow> j_Response x \<noteq> None) \<and> j_ctx x \<noteq> NoContext
        \<and> (j_Err x \<noteq> None \<longrightarrow> j_ctx x = Cancelled))"

definition job_inv :: "sched \<Rightarrow> nat \<Rightarrow> bool" where
  "job_inv s j = job_ok (j \<in> set (accepted s)) (j \<in> set (launched s)) (j \<in> set (in_do s)) (jobs s j)"

definition jobs_inv :: "sched \<Rightarrow> bool" where
  "jobs_inv s \<longleftrightarrow> distinct (in_do s) \<and> set (in_do s) \<subseteq> set (launched s) \<and> \<not> panicked s \<and> (\<forall>j. job_inv s j)"

lemma jobs_eq [simp]:
  "jobs (arm s) = jobs s" "jobs (flush s) = jobs s" "jobs (release j s) = jobs s"
  by (simp_all add: arm_def timer_stop_def flush_def release_def)

lemma job_inv_cong:
  "jobs s' = jobs s \<Longrightarrow> launched s' = launched s \<Longrightarrow> in_do s' = in_do s \<Longrightarrow> set (accepted s') = set (accepted s)
    \<Longrightarrow> job_inv s' j = job_inv s j"
  by (simp add: job_inv_def)

lemma jobs_inv_cong:
  assumes "jobs s' = jobs s" "launched s' = launched s" "in_do s' = in_do s" "accepted s' = accepted s"
    "panicked s' = panicked s" "jobs_inv s"
  shows "jobs_inv s'"
  using assms job_inv_cong [of s' s] by (simp add: jobs_inv_def)

lemma jobs_invD: "jobs_inv s \<Longrightarrow> job_inv s j"
  by (simp add: jobs_inv_def)

lemma jobs_submit:
  assumes "jobs_inv s" "line_inv s" "distinct (accepted (snd (submit j s)))"
  shows "jobs_inv (snd (submit j s))"
proof -
  have n: "set (launched s) \<subseteq> set (accepted s)" using assms(2) by (auto simp: line_inv_def)
  have "job_inv (snd (submit j s)) k" for k
  proof (cases "k = j")
    case True
    have x: "jobs (snd (submit j s)) j
        = (if Done (jobs s j) = NilChan then (jobs s j)\<lparr>Done := OpenChan\<rparr> else jobs s j)"
      by (simp add: submit_def upd_job_def Let_def)
    have "int (length (queue s)) < QueueCapacity (s_cfg s) \<Longrightarrow> j \<notin> set (accepted s)"
      using assms(3) by (simp add: submit_queue)
    then show ?thesis using True n jobs_invD [OF assms(1), of j]
      by (cases "Done (jobs s j)") (auto simp: job_inv_def job_ok_def x submit_queue split: if_splits)
  next
    case False
    then have "jobs (snd (submit j s)) k = jobs s k" by (simp add: submit_def upd_job_def Let_def)
    then show ?thesis using False jobs_invD [OF assms(1), of k] by (simp add: job_inv_def submit_queue)
  qed
  then show ?thesis using assms(1) by (simp add: jobs_inv_def)
qed

lemma jobs_launch:
  assumes "jobs_inv s" "line_inv s" "distinct (accepted s)" "pending s = j # p"
  shows "jobs_inv (launch j p s)"
proof -
  have new: "j \<in> set (accepted s)" "j \<notin> set (launched s)"
    using assms(2-4) by (auto simp: line_inv_def waiting_def)
  have "job_inv (launch j p s) k" for k
    using jobs_invD [OF assms(1), of k] new
    by (auto simp: job_inv_def job_ok_def launch_def upd_job_def split: if_splits)
  then show ?thesis using assms(1) new by (auto simp: jobs_inv_def)
qed

lemma jobs_return:
  assumes "jobs_inv s" "j \<in> set (in_do s)"
  shows "jobs_inv (do_return j res s)"
proof -
  have j: "Done (jobs s j) = OpenChan" "j_Response (jobs s j) = None" "j_Err (jobs s j) = None"
    "j_ctx (jobs s j) = LiveContext" "j \<in> set (launched s)" "distinct (in_do s)" "\<not> panicked s"
    using assms jobs_invD [OF assms(1), of j] by (auto simp: jobs_inv_def job_inv_def job_ok_def split: if_splits)
  have other: "jobs (do_return j res s) k = jobs s k" if "k \<noteq> j" for k
    using that by (auto simp: do_return_def close_done_def upd_job_def Let_def split: sum.split prod.split)
  have this_job: "jobs (do_return j res s) j =
      (case res of
         Inl err \<Rightarrow> (jobs s j)\<lparr>j_ctx := Cancelled, j_Err := Some err, Done := ClosedChan\<rparr>
       | Inr (resp, b) \<Rightarrow> (jobs s j)\<lparr>j_Response := Some resp, j_Backend := b, Done := ClosedChan\<rparr>)"
    using j by (simp add: do_return_def close_done_def upd_job_def Let_def split: sum.split prod.split)
  have "job_inv (do_return j res s) k" for k
  proof (cases "k = j")
    case True
    then show ?thesis using j
      by (auto simp: job_inv_def job_ok_def this_job split: sum.split prod.split)
  next
    case False
    then show ?thesis using jobs_invD [OF assms(1), of k] j(6) by (simp add: job_inv_def other)
  qed
  moreover have "\<not> panicked (do_return j res s)"
    using j by (auto simp: do_return_def close_done_def upd_job_def Let_def split: sum.split prod.split)
  moreover have "set (remove1 j (in_do s)) \<subseteq> set (launched s)"
    using assms(1) set_remove1_subset [of j "in_do s"] by (auto simp: jobs_inv_def)
  ultimately show ?thesis using j by (simp add: jobs_inv_def)
qed

lemma jobs_close:
  assumes "jobs_inv s" "j_Response (jobs s j) \<noteq> None"
  shows "jobs_inv (close_response j s)"
proof -
  have "job_inv (close_response j s) k" for k
    using jobs_invD [OF assms(1), of k] assms(2)
    by (auto simp: job_inv_def job_ok_def close_response_def upd_job_def split: if_splits)
  then show ?thesis using assms(1) by (simp add: jobs_inv_def)
qed

lemma exec_accepted: "exec ev s = Some s' \<Longrightarrow> \<exists>js. accepted s' = accepted s @ js"
  by (cases ev) (auto simp: submit_queue split: exec_splits)

lemma jobs_step:
  assumes "exec ev s = Some s'" "jobs_inv s" "line_inv s" "distinct (accepted s')"
  shows "jobs_inv s'"
proof -
  have d: "distinct (accepted s)" using exec_accepted [OF assms(1)] assms(4) by auto
  show ?thesis
  proof (cases ev)
    case (Submit j)
    then show ?thesis using assms jobs_submit by auto
  next
    case Launch
    then show ?thesis using assms d jobs_launch by (auto split: exec_splits)
  next
    case (DoReturn j res)
    then show ?thesis using assms jobs_return by (auto split: exec_splits)
  next
    case (CloseResponse j)
    then show ?thesis using assms jobs_close by (auto split: exec_splits)
  qed (use assms in \<open>auto elim!: jobs_inv_cong [rotated 5] split: exec_splits\<close>)
qed

lemma reachable_jobs:
  assumes "reachable s" "distinct (accepted s)"
  shows "jobs_inv s"
  using assms
proof induction
  case (New js c now)
  then show ?case by (auto simp: jobs_inv_def job_inv_def job_ok_def new_sched_def fresh_job_def)
next
  case (Step s ev s')
  then show ?case using exec_accepted [OF Step(2)] jobs_step reachable_inv(1) by auto
qed


text \<open>A few runs for the examples: four jobs, batches of two, two workers.\<close>

definition idle_job :: job where
  "idle_job = \<lparr>j_Model = [], j_Stream = False, j_Body = [], j_Submitted = 0, j_Response = None,
     j_Backend = [], j_Err = None, Done = OpenChan, j_ctx = NoContext\<rparr>"

definition demo :: sched where
  "demo = new_sched \<lparr>MaxBatchSize = 2, MaxWait = 40, QueueCapacity = 4, Workers = 2, s_RequestTimeout = 0\<rparr>
     (\<lambda>j. idle_job\<lparr>j_Model := (if even j then ''m1'' else ''m2'')\<rparr>) 0"

lemma demo_reachable: "reachable demo"
  unfolding demo_def by (rule New) (simp add: fresh_job_def idle_job_def)

lemma reachable_run: "reachable s \<Longrightarrow> run evs s = Some s' \<Longrightarrow> reachable s'"
  by (rule sched_runs.keeps) (auto intro: reachable.Step)

definition demo_run :: "sched_event list \<Rightarrow> sched" where
  "demo_run evs = the (run evs demo)"

lemma demo_run_reachable: "run evs demo \<noteq> None \<Longrightarrow> reachable (demo_run evs)"
  unfolding demo_run_def by (metis demo_reachable option.collapse reachable_run)

lemmas demo_eval = demo_run_def demo_def new_sched_def with_defaults_def submit_def upd_job_def
  idle_job_def recv_case_def arm_def timer_stop_def flush_def at_select_def timer_case_def launch_def
  do_return_def close_done_def release_def stop_case_def

text \<open>
  A batch may mix models: the batcher never looks at \<open>Model\<close>, where the comment in
  \<open>runBatcher\<close> says that only jobs of the same model are grouped.
\<close>

lemma batch_mixes_models:
  "map (\<lambda>j. j_Model (jobs (demo_run [Start, Submit 0, Submit 1, Recv, Recv]) j))
     (pending (demo_run [Start, Submit 0, Submit 1, Recv, Recv])) = [''m1'', ''m2'']"
  by (simp add: demo_eval Let_def)

subsection \<open>Properties\<close>

text \<open>C2:
  First in, first out, and nothing lost.  In every reachable state the jobs accepted so far,
  in the order of acceptance, are the jobs already given to a worker, then the rest of the
  batch at hand, then the batch under construction, then the queue.  So jobs are launched in
  the order they were accepted, each as often as it was accepted, and none is dropped,
  neither by the timer, nor by a full batch, nor by the shutdown.
\<close>

theorem sched_fifo:
  assumes "reachable s"
  shows "accepted s = launched s @ pending s @ batch s @ queue s"
  using reachable_inv(1) [OF assms] by (simp add: line_inv_def waiting_def)

lemma sched_fifo_witness:
  "accepted (demo_run [Start, Submit 3, Submit 1, Recv, Recv, Launch, Submit 2])
     = launched (demo_run [Start, Submit 3, Submit 1, Recv, Recv, Launch, Submit 2]) @ [1] @ [] @ [2]"
proof -
  let ?s = "demo_run [Start, Submit 3, Submit 1, Recv, Recv, Launch, Submit 2]"
  have "reachable ?s" by (rule demo_run_reachable) (simp add: demo_eval Let_def)
  moreover have "pending ?s = [1]" "batch ?s = []" "queue ?s = [2]" by (simp_all add: demo_eval Let_def)
  ultimately show ?thesis using sched_fifo [of ?s] by simp
qed

text \<open>C22:
  The scheduler refines a bounded first-in first-out queue.  Seen through \<open>waiting\<close>, an
  accepted \<open>Submit\<close> appends its job, giving a job to a worker removes the first one, and
  every other step (receiving, the timer, flushes, shutdown, returns) leaves the queue as it
  is.
\<close>

theorem sched_refines_queue:
  assumes "reachable s" "exec ev s = Some s'"
  shows "case ev of
      Submit j \<Rightarrow> waiting s' = (if int (length (queue s)) < QueueCapacity (s_cfg s)
                               then waiting s @ [j] else waiting s)
    | Launch \<Rightarrow> (\<exists>j. waiting s = j # waiting s' \<and> launched s' = launched s @ [j])
    | _ \<Rightarrow> waiting s' = waiting s \<and> launched s' = launched s"
  using assms(2) reachable_inv(1) [OF assms(1)]
  by (cases ev) (auto simp: line_inv_def waiting_def at_select_def submit_queue recv_batch split: exec_splits)

lemma sched_refines_queue_witness:
  "\<exists>j. waiting (demo_run [Start, Submit 3, Submit 1, Recv, Recv])
       = j # waiting (demo_run [Start, Submit 3, Submit 1, Recv, Recv, Launch])"
proof -
  let ?s = "demo_run [Start, Submit 3, Submit 1, Recv, Recv]"
    and ?s' = "demo_run [Start, Submit 3, Submit 1, Recv, Recv, Launch]"
  have "reachable ?s" by (rule demo_run_reachable) (simp add: demo_eval Let_def)
  moreover have "exec Launch ?s = Some ?s'" by (simp add: demo_eval Let_def)
  ultimately show ?thesis using sched_refines_queue [of ?s Launch ?s'] by auto
qed

text \<open>C27:
  The bounds.  In every reachable state the queue holds at most \<open>QueueCapacity\<close> jobs, the
  batch under construction fewer than \<open>MaxBatchSize\<close>, a dispatched batch at most that many
  and at least one, and at most \<open>Workers\<close> jobs hold a worker, with the semaphore counting
  exactly the jobs that do.
\<close>

theorem sched_bounds:
  assumes "reachable s"
  shows "int (length (queue s)) \<le> QueueCapacity (s_cfg s)
    \<and> int (length (batch s)) < MaxBatchSize (s_cfg s)
    \<and> int (length (pending s)) \<le> MaxBatchSize (s_cfg s)
    \<and> slots s = int (length (in_do s) + length (returning s)) \<and> slots s \<le> Workers (s_cfg s)
    \<and> length (BatchSizes s) = BatchesDispatched s
    \<and> set (BatchSizes s) \<subseteq> {n. 0 < n \<and> int n \<le> MaxBatchSize (s_cfg s)}"
  using reachable_inv(2) [OF assms] by (auto simp: bounds_inv_def)

lemma sched_bounds_witness:
  "int (length (queue (demo_run [Start, Submit 0, Submit 1, Submit 2, Submit 3, Submit 4]))) \<le> 4"
proof -
  let ?s = "demo_run [Start, Submit 0, Submit 1, Submit 2, Submit 3, Submit 4]"
  have "reachable ?s" by (rule demo_run_reachable) (simp add: demo_eval Let_def)
  moreover have "QueueCapacity (s_cfg ?s) = 4" by (simp add: demo_eval Let_def)
  ultimately show ?thesis using sched_bounds [of ?s] by simp
qed




text \<open>C7:
  Each job's \<open>Done\<close> is closed exactly once and after its result is there.  When no job was
  accepted twice, no reachable state has seen a panic, and \<open>Done\<close> is closed exactly for the
  jobs given to a worker whose \<open>Do\<close> has returned; those carry either a response or an error,
  never both, and no other job carries either.  The context of the upstream request is live
  while \<open>Do\<close> runs, and cancelled as soon as it fails.
\<close>

theorem sched_done_once:
  assumes "reachable s" "distinct (accepted s)"
  shows "\<not> panicked s \<and> distinct (in_do s) \<and>
    (Done (jobs s j) = ClosedChan \<longleftrightarrow> j \<in> set (launched s) - set (in_do s)) \<and>
    (if Done (jobs s j) = ClosedChan
     then (j_Err (jobs s j) = None) \<noteq> (j_Response (jobs s j) = None)
     else j_Err (jobs s j) = None \<and> j_Response (jobs s j) = None) \<and>
    (j_ctx (jobs s j) = LiveContext \<or> \<not> j \<in> set (in_do s)) \<and>
    (j_ctx (jobs s j) = Cancelled \<or> j_Err (jobs s j) = None)"
proof -
  have inv: "jobs_inv s" by (rule reachable_jobs [OF assms])
  then have "job_inv s j" "distinct (in_do s)" "set (in_do s) \<subseteq> set (launched s)" "\<not> panicked s"
    by (simp_all add: jobs_inv_def)
  then show ?thesis by (auto simp: job_inv_def job_ok_def split: if_splits)
qed

definition demo_served :: "sched_event list" where
  "demo_served = [Start, Submit 0, Submit 1, Recv, Recv, Launch, Launch, DoReturn 1 (Inl Canceled)]"

lemma sched_done_once_witness:
  "\<not> panicked (demo_run demo_served) \<and> Done (jobs (demo_run demo_served) 1) = ClosedChan
   \<and> j_Response (jobs (demo_run demo_served) 1) = None"
proof -
  have "reachable (demo_run demo_served)"
    by (rule demo_run_reachable) (simp add: demo_served_def demo_eval Let_def)
  moreover have "accepted (demo_run demo_served) = [0, 1]" "launched (demo_run demo_served) = [0, 1]"
    "in_do (demo_run demo_served) = [0]" "j_Err (jobs (demo_run demo_served) 1) = Some Canceled"
    by (simp_all add: demo_served_def demo_eval Let_def)
  ultimately show ?thesis using sched_done_once [of "demo_run demo_served" 1] by auto
qed

text \<open>\<open>Submit\<close> never waits and rejects exactly when the queue is full.  It then returns
  \<open>ErrQueueFull\<close> and counts one rejection; otherwise the job is the last of the queue, it is
  counted as accepted, and its \<open>Done\<close> is a channel one can wait on.  In both cases nothing
  that is ahead of it changes.
\<close>

lemma submit_spec:
  "(fst (submit j s) = Some ErrQueueFull \<longleftrightarrow> QueueCapacity (s_cfg s) \<le> int (length (queue s)))
   \<and> (if fst (submit j s) = None
      then queue (snd (submit j s)) = queue s @ [j] \<and> accepted (snd (submit j s)) = accepted s @ [j]
         \<and> QueueDepth (snd (submit j s)) = length (queue s) + 1
         \<and> SchedulerRejections (snd (submit j s)) = SchedulerRejections s
      else queue (snd (submit j s)) = queue s \<and> accepted (snd (submit j s)) = accepted s
         \<and> SchedulerRejections (snd (submit j s)) = SchedulerRejections s + 1)
   \<and> Done (jobs (snd (submit j s)) j) \<noteq> NilChan
   \<and> batch (snd (submit j s)) = batch s \<and> pending (snd (submit j s)) = pending s
   \<and> (\<forall>k. jobs (snd (submit j s)) k = jobs s k \<or> k = j)"
  by (auto simp: submit_def upd_job_def Let_def)

subsection \<open>Shutdown\<close>

text \<open>
  The steps of the batcher, the workers and the timer, and a measure they all decrease.
\<close>

definition internal :: "sched_event \<Rightarrow> bool" where
  "internal ev \<longleftrightarrow>
     (case ev of Submit _ \<Rightarrow> False | StopCall \<Rightarrow> False | Tick _ \<Rightarrow> False | CloseResponse _ \<Rightarrow> False | _ \<Rightarrow> True)"

definition work :: "sched \<Rightarrow> nat" where
  "work s = 6 * length (queue s) + 3 * length (batch s) + 3 * length (pending s)
     + 2 * length (in_do s) + length (returning s)
     + (if timer_at s \<noteq> None then 2 else 0) + (if timer_c s then 1 else 0)
     + (case pc s of NotStarted \<Rightarrow> 3 | Selecting \<Rightarrow> 2 | Draining \<Rightarrow> 1 | Exited \<Rightarrow> 0)"

lemma length_remove1_Suc: "x \<in> set xs \<Longrightarrow> length xs = Suc (length (remove1 x xs))"
  by (frule length_pos_if_in_set) (simp add: length_remove1)

lemma work_decreases:
  assumes "exec ev s = Some s'" "internal ev" "line_inv s"
  shows "work s' < work s"
proof (cases ev)
  case (DoReturn j res)
  then have "j \<in> set (in_do s)" "s' = do_return j res s" using assms by (simp_all split: if_splits)
  then show ?thesis using length_remove1_Suc [of j "in_do s"] by (simp add: work_def)
next
  case (Release j)
  then have "j \<in> set (returning s)" "s' = release j s" using assms by (simp_all split: if_splits)
  then show ?thesis using length_remove1_Suc [of j "returning s"] by (simp add: work_def)
qed (use assms in \<open>auto simp: internal_def work_def at_select_def recv_batch recv_timer line_inv_def split: exec_splits\<close>)

lemma stuck_exited:
  assumes "line_inv s" "bounds_inv s" "stopCh_closed s" "pc s \<noteq> NotStarted"
    and stuck: "\<And>ev. internal ev \<Longrightarrow> exec ev s = None"
  shows "pc s = Exited \<and> in_do s = [] \<and> returning s = [] \<and> pending s = [] \<and> batch s = []"
proof -
  have ret: "returning s = []" using stuck [of "Release (hd (returning s))"]
    by (cases "returning s") (auto simp: internal_def)
  have run: "in_do s = []" using stuck [of "DoReturn (hd (in_do s)) (Inl Canceled)"]
    by (cases "in_do s") (auto simp: internal_def)
  have pend: "pending s = []"
    using stuck [of Launch] assms(2) ret run by (cases "pending s") (auto simp: internal_def bounds_inv_def)
  have "pc s = Exited"
  proof (cases "pc s")
    case Selecting
    then show ?thesis using stuck [of StopCase] assms(3) pend by (simp add: internal_def at_select_def)
  next
    case Draining
    then show ?thesis using stuck [of DrainRecv] stuck [of DrainDone] pend
      by (cases "queue s") (simp_all add: internal_def at_select_def)
  qed (use assms(4) in simp_all)
  then show ?thesis using ret run pend assms(1) by (auto simp: line_inv_def)
qed

text \<open>C14:
  \<open>Stop\<close> ends.  In every reachable state each step of the batcher, a worker or the timer
  decreases a measure, so that without new submissions only finitely many are left; and
  when stop was requested and none of these steps is enabled any more, the batcher has
  closed \<open>stopped\<close>, every job it took is done and every worker is free.  In particular the
  batcher is never stuck on the worker pool.
\<close>

theorem sched_stop_terminates:
  assumes "reachable s"
  shows "(\<forall>ev s'. exec ev s = Some s' \<and> internal ev \<longrightarrow> work s' < work s)
    \<and> (stopCh_closed s \<and> pc s \<noteq> NotStarted \<and> (\<forall>ev. internal ev \<longrightarrow> exec ev s = None) \<longrightarrow>
         stopped_closed s \<and> in_do s = [] \<and> returning s = [] \<and> launched s @ queue s = accepted s)"
proof -
  note inv = reachable_inv [OF assms]
  have "stopped_closed s \<and> in_do s = [] \<and> returning s = [] \<and> launched s @ queue s = accepted s"
    if "stopCh_closed s" "pc s \<noteq> NotStarted" "\<forall>ev. internal ev \<longrightarrow> exec ev s = None"
    using stuck_exited [OF inv(1,2) that(1,2)] that(3) inv(1) by (auto simp: line_inv_def waiting_def)
  then show ?thesis using work_decreases inv(1) by blast
qed

definition demo_stopped :: "sched_event list" where
  "demo_stopped = demo_served @ [Submit 2, StopCall, StopCase, DrainRecv, Release 1, Launch,
     DoReturn 0 (Inl Canceled), DoReturn 2 (Inl Canceled), Release 0, Release 2, DrainDone]"

lemma sched_stop_terminates_witness:
  "stopped_closed (demo_run demo_stopped) \<and> launched (demo_run demo_stopped) @ [] = [0, 1, 2]"
proof -
  let ?s = "demo_run demo_stopped"
  have r: "reachable ?s"
    by (rule demo_run_reachable) (simp add: demo_stopped_def demo_served_def demo_eval Let_def)
  have f: "queue ?s = []" "accepted ?s = [0, 1, 2]" "in_do ?s = []" "returning ?s = []" "pending ?s = []"
    "pc ?s = Exited" "stopCh_closed ?s" "timer_at ?s = Some 40" "clock ?s = 0"
    by (simp_all add: demo_stopped_def demo_served_def demo_eval Let_def)
  have "\<forall>ev. internal ev \<longrightarrow> exec ev ?s = None"
  proof (intro allI impI)
    fix ev assume "internal ev"
    then show "exec ev ?s = None" using f by (cases ev) (simp_all add: internal_def at_select_def)
  qed
  then show ?thesis using sched_stop_terminates [OF r] f by simp
qed

text \<open>After the batcher has exited nothing is launched any more, yet \<open>Submit\<close> goes on accepting
  until the queue is full: in every later state the jobs launched are the same, and every
  job accepted since is still in the queue, with its \<open>Done\<close> open for ever.
\<close>

lemma sched_after_exit:
  assumes "reachable s" "stopped_closed s" "run evs s = Some s'"
  shows "launched s' = launched s \<and> accepted s' = launched s @ queue s' \<and> stopped_closed s'
    \<and> (distinct (accepted s') \<longrightarrow> (\<forall>j \<in> set (queue s'). Done (jobs s' j) = OpenChan))"
proof -
  have "launched s' = launched s \<and> stopped_closed s'"
    using assms
  proof (induction evs arbitrary: s)
    case (Cons ev evs)
    obtain t where t: "exec ev s = Some t" "run evs t = Some s'"
      using Cons.prems(3) by (auto split: option.splits)
    note inv = reachable_inv(1) [OF Cons.prems(1)]
    have "line_inv t" by (rule line_step [OF t(1) inv])
    have "launched t = launched s \<and> pc t = Exited"
      using t(1) inv Cons.prems(2)
      by (cases ev) (auto simp: line_inv_def at_select_def split: exec_splits)
    then show ?case
      using Cons.IH [OF reachable.Step [OF Cons.prems(1) t(1)] _ t(2)] \<open>line_inv t\<close> by (simp add: line_inv_def)
  qed simp
  moreover have r: "reachable s'" by (rule reachable_run [OF assms(1,3)])
  moreover have "accepted s' = launched s' @ queue s'"
    using reachable_inv(1) [OF r] calculation(1) by (auto simp: line_inv_def waiting_def)
  moreover have "Done (jobs s' j) = OpenChan" if "distinct (accepted s')" "j \<in> set (queue s')" for j
    using jobs_invD [OF reachable_jobs [OF r that(1)], of j] that \<open>accepted s' = launched s' @ queue s'\<close>
    by (auto simp: job_inv_def job_ok_def split: if_splits)
  ultimately show ?thesis by auto
qed

lemma sched_after_exit_witness:
  "launched (demo_run (demo_stopped @ [Submit 3])) = [0, 1, 2]
   \<and> Done (jobs (demo_run (demo_stopped @ [Submit 3])) 3) = OpenChan"
proof -
  let ?s = "demo_run demo_stopped" and ?s' = "demo_run (demo_stopped @ [Submit 3])"
  have "reachable ?s"
    by (rule demo_run_reachable) (simp add: demo_stopped_def demo_served_def demo_eval Let_def)
  moreover have "stopped_closed ?s" "launched ?s = [0, 1, 2]" "run [Submit 3] ?s = Some ?s'"
    "accepted ?s' = [0, 1, 2, 3]" "queue ?s' = [3]"
    by (simp_all add: demo_stopped_def demo_served_def demo_eval Let_def)
  ultimately show ?thesis using sched_after_exit [of ?s "[Submit 3]" ?s'] by simp
qed

end
