(* ===== verification/Embedder.thy ===== *)
theory Embedder
  imports Go_Prelude Go_Float "HOL-Library.Word" "HOL-Library.Multiset"
begin

unbundle bit_operations_syntax

section \<open>The hashing embedder\<close>

text \<open>
  \<open>internal/cache/embedder.go\<close>: the tokenizer, FNV-1a on 64-bit words, the signed hashing
  trick and the normalisation, in \<open>float32\<close> and \<open>float64\<close> arithmetic.  A string is its
  bytes.  The embedder that asks OpenAI is a service: for the cache it is an arbitrary
  function.
\<close>

subsection \<open>Tokens\<close>

text \<open>
  What one character of the lower-cased text is to the tokenizer: a lower-case letter or a
  digit, or a separator (\<open>None\<close>).
\<close>

definition ascii_token :: "char \<Rightarrow> char option" where
  "ascii_token c =
     (let n = of_char c :: nat
      in if 65 \<le> n \<and> n \<le> 90 then Some (char_of (n + 32))
         else if (97 \<le> n \<and> n \<le> 122) \<or> (48 \<le> n \<and> n \<le> 57) then Some c
         else None)"

text \<open>
  \<open>strings.ToLower\<close> followed by the range loop over the runes.  Only two characters outside
  ASCII have a lower-case form inside it: U+0130 (bytes C4 B0), which becomes \<open>i\<close>, and
  U+212A (bytes E2 84 AA), which becomes \<open>k\<close>.  Every other rune outside ASCII, and every
  byte that is not part of one, is a separator, and one separator or several in a row are
  the same to the tokenizer.  The bytes C4 and E2 never continue a rune, so the two
  sequences are always decoded from their first byte.
\<close>

function token_chars :: "string \<Rightarrow> char option list" where
  "token_chars [] = []"
| "token_chars (c # s) =
     (if (of_char c :: nat) < 128 then ascii_token c # token_chars s
      else if c = CHR 0xC4 \<and> take 1 s = [CHR 0xB0] then Some (CHR ''i'') # token_chars (drop 1 s)
      else if c = CHR 0xE2 \<and> take 2 s = [CHR 0x84, CHR 0xAA] then Some (CHR ''k'') # token_chars (drop 2 s)
      else None # token_chars s)"
  by pat_completeness auto
termination by (relation "measure length") auto

fun tokens_from :: "string \<Rightarrow> char option list \<Rightarrow> string list" where
  "tokens_from b [] = (if b \<noteq> [] then [b] else [])"
| "tokens_from b (Some c # rs) = tokens_from (b @ [c]) rs"
| "tokens_from b (None # rs) = (if b \<noteq> [] then b # tokens_from [] rs else tokens_from [] rs)"

definition tokenize :: "string \<Rightarrow> string list" where
  "tokenize s = tokens_from [] (token_chars s)"

subsection \<open>Hashing\<close>

definition fnv1a :: "string \<Rightarrow> 64 word" where
  "fnv1a s = fold (\<lambda>c h. (h XOR of_char c) * 1099511628211) s 14695981039346656037"

definition hash_token :: "string \<Rightarrow> nat \<Rightarrow> nat \<times> bool" where
  "hash_token tok d =
     (let v = fnv1a tok in (unat v mod d, drop_bit 32 v AND 1 = 0))"

subsection \<open>The square root\<close>

text \<open>
  The integer square root, and the square root of a rational rounded to 53 bits: with
  \<open>y = x * 4 ^ k\<close> at least \<open>4 ^ 54\<close>, the root of \<open>y\<close> has 55 integer bits or more, and a half
  stands for whatever is below them.
\<close>

function isqrt :: "nat \<Rightarrow> nat" where
  "isqrt n =
     (if n = 0 then 0 else let r = 2 * isqrt (n div 4) in if (r + 1) * (r + 1) \<le> n then r + 1 else r)"
  by pat_completeness auto
termination by (relation "measure id") auto

declare isqrt.simps [simp del]

definition sqrt_scale :: "rat \<Rightarrow> nat" where
  "sqrt_scale x = nat (54 - expo x div 2)"

definition sqrt64 :: "rat \<Rightarrow> float64" where
  "sqrt64 x =
     (if x \<le> 0 then 0
      else
        let k = sqrt_scale x; y = x * 4 ^ k; r = isqrt (nat \<lfloor>y\<rfloor>)
        in fl64 ((of_nat r + (if of_nat (r * r) = y then 0 else 1 / 2)) / 2 ^ k))"

subsection \<open>Embedding\<close>

record hashing_embedder =
  dim :: int

definition new_hashing_embedder :: "int \<Rightarrow> hashing_embedder" where
  "new_hashing_embedder d = \<lparr>dim = (if d \<le> 0 then 384 else d)\<rparr>"

type_synonym vec = "float32 list"

definition bump :: "nat \<Rightarrow> bool \<Rightarrow> vec \<Rightarrow> vec" where
  "bump i sign v = v[i := fl32 (if sign then v ! i + 1 else v ! i - 1)]"

definition count_tokens :: "nat \<Rightarrow> string list \<Rightarrow> vec" where
  "count_tokens d toks =
     fold (\<lambda>tok v. let (i, sign) = hash_token tok d in bump i sign v) toks (replicate d 0)"

definition sum_squares :: "vec \<Rightarrow> float64" where
  "sum_squares v = fold (\<lambda>x s. fl64 (s + fl64 (x * x))) v 0"

definition normalize :: "vec \<Rightarrow> vec" where
  "normalize v =
     (let norm = fl32 (sqrt64 (sum_squares v)) in if norm > 0 then map (\<lambda>x. fl32 (x / norm)) v else v)"

definition embed :: "hashing_embedder \<Rightarrow> string \<Rightarrow> vec" where
  "embed h text = normalize (count_tokens (nat (dim h)) (tokenize text))"

definition cosine_dot :: "vec \<Rightarrow> vec \<Rightarrow> float64" where
  "cosine_dot a b =
     (if length a \<noteq> length b then - 1
      else fold (\<lambda>(x, y) s. fl64 (s + fl64 (x * y))) (zip a b) 0)"


subsection \<open>The square root is correct to a relative error\<close>

lemma isqrt_bounds: "isqrt n * isqrt n \<le> n \<and> n < (isqrt n + 1) * (isqrt n + 1)"
proof (induction n rule: isqrt.induct)
  case (1 n)
  show ?case
  proof (cases "n = 0")
    case False
    let ?q = "isqrt (n div 4)" and ?r = "2 * isqrt (n div 4)"
    have q: "?q * ?q \<le> n div 4" "n div 4 < (?q + 1) * (?q + 1)" using 1 False by auto
    have "?r * ?r \<le> n" using q(1) by simp
    moreover have "n div 4 + 1 \<le> (?q + 1) * (?q + 1)" using q(2) by linarith
    then have "n < (?r + 2) * (?r + 2)" by (simp add: algebra_simps)
    ultimately show ?thesis using False by (subst (1 2 3 4) isqrt.simps) (simp add: Let_def)
  qed (simp add: isqrt.simps)
qed

lemma isqrt_ge: "m * m \<le> n \<Longrightarrow> m \<le> isqrt n"
proof (rule ccontr)
  assume m: "m * m \<le> n" "\<not> m \<le> isqrt n"
  then have "(isqrt n + 1) * (isqrt n + 1) \<le> m * m" by (intro mult_mono) auto
  then show False using isqrt_bounds [of n] m(1) by linarith
qed

lemma sqrt_scale_large:
  assumes "0 < x"
  shows "4 ^ 54 \<le> x * 4 ^ sqrt_scale x"
proof -
  have e: "2 powi expo x \<le> x" using expo_bounds [of x] assms by simp
  have "(108 :: int) \<le> expo x + 2 * int (sqrt_scale x)" by (simp add: sqrt_scale_def) presburger
  then have "(2 :: rat) powi 108 \<le> 2 powi (expo x + int (2 * sqrt_scale x))"
    by (simp only: powi_le_iff of_nat_mult of_nat_numeral)
  also have "\<dots> = 2 powi expo x * 4 ^ sqrt_scale x"
    by (simp add: power_int_add power_mult del: of_nat_mult)
  also have "\<dots> \<le> x * 4 ^ sqrt_scale x" using e by simp
  finally show ?thesis by simp
qed

lemma sqrt64_upper:
  assumes "0 < x"
  shows "0 < sqrt64 x" "sqrt64 x * sqrt64 x \<le> x * (1 + 1 / 2 ^ 50)"
proof -
  define k where "k = sqrt_scale x"
  define y where "y = x * 4 ^ k"
  define r where "r = isqrt (nat \<lfloor>y\<rfloor>)"
  define q :: rat where "q = (of_nat r + (if of_nat (r * r) = y then 0 else 1 / 2)) / 2 ^ k"
  have y: "4 ^ 54 \<le> y" using sqrt_scale_large [OF assms] by (simp add: y_def k_def)
  have s: "sqrt64 x = fl64 q"
    using assms by (simp add: sqrt64_def Let_def q_def r_def y_def k_def)
  have f: "of_nat (nat \<lfloor>y\<rfloor>) \<le> y" "(4 :: int) ^ 54 \<le> \<lfloor>y\<rfloor>" using y by (simp_all add: le_floor_iff)
  have "of_nat (r * r) \<le> (of_nat (nat \<lfloor>y\<rfloor>) :: rat)"
    using isqrt_bounds [of "nat \<lfloor>y\<rfloor>"] unfolding r_def by (simp only: of_nat_le_iff)
  then have ry: "of_nat r * of_nat r \<le> y" using f(1) by simp
  have "2 ^ 54 * 2 ^ 54 \<le> nat \<lfloor>y\<rfloor>" using nat_mono [OF f(2)] by simp
  then have r54: "2 ^ 54 \<le> r" unfolding r_def by (rule isqrt_ge)
  then have R: "(2 ^ 54 :: rat) \<le> of_nat r" by (metis of_nat_le_iff of_nat_numeral of_nat_power)
  have q0: "0 < q" using R by (simp add: q_def add_pos_nonneg)
  show "0 < sqrt64 x" using f64.lower [of q] q0 unfolding s by (simp add: less_le_trans)
  have "q \<le> of_nat r * (1 + 1 / 2 ^ 55) / 2 ^ k"
    using R unfolding q_def by (intro divide_right_mono) (auto simp: algebra_simps)
  then have "fl64 q \<le> of_nat r * (1 + 1 / 2 ^ 55) / 2 ^ k * (1 + 1 / 2 ^ 53)"
    using f64.upper [of q] q0 by (meson less_imp_le mult_right_mono order_trans zero_le_one add_nonneg_nonneg divide_nonneg_nonneg zero_le_numeral zero_le_power)
  then have "fl64 q * fl64 q \<le> (of_nat r * (1 + 1 / 2 ^ 55) / 2 ^ k * (1 + 1 / 2 ^ 53)) * (of_nat r * (1 + 1 / 2 ^ 55) / 2 ^ k * (1 + 1 / 2 ^ 53))"
    using f64.nonneg [of q] q0 by (intro mult_mono) auto
  also have "\<dots> = (of_nat r * of_nat r) / 4 ^ k * (((1 + 1 / 2 ^ 55) * (1 + 1 / 2 ^ 53)) * ((1 + 1 / 2 ^ 55) * (1 + 1 / 2 ^ 53)))"
    by (simp add: field_simps flip: power_mult_distrib)
  also have "\<dots> \<le> y / 4 ^ k * (1 + 1 / 2 ^ 50)"
    using ry y by (intro mult_mono divide_right_mono) (auto intro: divide_nonneg_nonneg)
  finally show "sqrt64 x * sqrt64 x \<le> x * (1 + 1 / 2 ^ 50)" by (simp add: s y_def)
qed


subsection \<open>The counts are exact\<close>

text \<open>
  The signed count of the tokens that fall into a bucket.  As long as there are at most
  \<open>2^24\<close> tokens, the \<open>float32\<close> vector holds these integers exactly.
\<close>

definition vote :: "nat \<Rightarrow> string \<Rightarrow> nat \<Rightarrow> int" where
  "vote d tok i = (if fst (hash_token tok d) = i then (if snd (hash_token tok d) then 1 else - 1) else 0)"

definition tally :: "nat \<Rightarrow> string list \<Rightarrow> nat \<Rightarrow> int" where
  "tally d toks i = (\<Sum>tok\<leftarrow>toks. vote d tok i)"

lemma abs_vote: "\<bar>vote d tok i\<bar> \<le> (if fst (hash_token tok d) = i then 1 else 0)"
  by (simp add: vote_def)

lemma abs_tally: "\<bar>tally d toks i\<bar> \<le> int (length toks)"
proof (induction toks)
  case (Cons tok toks)
  then show ?case using abs_vote [of d tok i] by (simp add: tally_def split: if_splits)
qed (simp add: tally_def)

lemma sum_abs_tally: "(\<Sum>i<d. \<bar>tally d toks i\<bar>) \<le> int (length toks)"
proof (induction toks)
  case (Cons tok toks)
  have "\<bar>tally d (tok # toks) i\<bar> \<le> (if fst (hash_token tok d) = i then 1 else 0) + \<bar>tally d toks i\<bar>" for i
    using abs_vote [of d tok i] by (simp add: tally_def split: if_splits)
  then have "(\<Sum>i<d. \<bar>tally d (tok # toks) i\<bar>)
      \<le> (\<Sum>i<d. (if fst (hash_token tok d) = i then 1 else 0) + \<bar>tally d toks i\<bar>)"
    by (rule sum_mono)
  also have "\<dots> \<le> 1 + (\<Sum>i<d. \<bar>tally d toks i\<bar>)" by (simp add: sum.distrib sum.delta)
  finally show ?case using Cons by simp
qed (simp add: tally_def)

lemma length_count_tokens: "length (count_tokens d toks) = d"
proof -
  have "length (fold (\<lambda>tok v. let (i, sign) = hash_token tok d in bump i sign v) toks v) = length v" for v
    by (induction toks arbitrary: v) (simp_all add: bump_def split: prod.split)
  then show ?thesis by (simp add: count_tokens_def)
qed

lemma count_tokens_exact:
  assumes "0 < d" "length toks \<le> 2 ^ 24"
  shows "count_tokens d toks = map (\<lambda>i. of_int (tally d toks i)) [0..<d]"
  using assms(2)
proof (induction toks rule: rev_induct)
  case Nil
  then show ?case by (simp add: count_tokens_def tally_def map_replicate_trivial)
next
  case (snoc tok toks)
  obtain i sign where h: "hash_token tok d = (i, sign)" by force
  then have i: "i < d" using assms(1) by (auto simp: hash_token_def Let_def)
  have t: "tally d (toks @ [tok]) k = tally d toks k + vote d tok k" for k by (simp add: tally_def)
  have ex: "fl32 (of_int (tally d (toks @ [tok]) k)) = of_int (tally d (toks @ [tok]) k)" for k
    using abs_tally [of d "toks @ [tok]" k] snoc.prems by (intro f32.exact_int) simp
  have "count_tokens d (toks @ [tok]) = bump i sign (map (\<lambda>i. of_int (tally d toks i)) [0..<d])"
    using snoc by (simp add: count_tokens_def h)
  also have "\<dots> = map (\<lambda>i. of_int (tally d (toks @ [tok]) i)) [0..<d]"
  proof (rule nth_equalityI)
    fix k assume "k < length (bump i sign (map (\<lambda>i. of_int (tally d toks i)) [0..<d]))"
    then have k: "k < d" by (simp add: bump_def)
    show "bump i sign (map (\<lambda>i. of_int (tally d toks i)) [0..<d]) ! k
        = map (\<lambda>i. of_int (tally d (toks @ [tok]) i)) [0..<d] ! k"
      using i k ex [of i] by (cases "k = i") (auto simp: bump_def t vote_def h)
  qed (simp add: bump_def)
  finally show ?case .
qed

text \<open>The rounded sum of squares lies within a relative error of the sum.\<close>

definition eps :: rat where "eps = 1 / 2 ^ 53"

lemma sum_squares_lower:
  assumes "0 \<le> s"
  shows "(s + (\<Sum>x\<leftarrow>xs. x * x)) * (1 - eps) ^ (2 * length xs) \<le> fold (\<lambda>x s. fl64 (s + fl64 (x * x))) xs s"
  using assms
proof (induction xs arbitrary: s)
  case (Cons x xs)
  let ?s = "fl64 (s + fl64 (x * x))" and ?u = "1 - eps" and ?t = "\<Sum>x\<leftarrow>xs. x * x"
  have u: "0 \<le> ?u" "?u \<le> 1" by (simp_all add: eps_def)
  have t: "0 \<le> ?t" by (intro sum_list_nonneg) auto
  have "(s + x * x) * ?u \<le> s + fl64 (x * x)"
    using f64.lower [of "x * x"] Cons.prems u by (simp add: eps_def distrib_right mult_left_le add_mono)
  then have "(s + x * x) * ?u * ?u \<le> (s + fl64 (x * x)) * ?u" using u by (intro mult_right_mono)
  also have "\<dots> \<le> ?s" using f64.lower [of "s + fl64 (x * x)"] f64.nonneg [of "x * x"] Cons.prems
    by (simp add: eps_def)
  finally have s: "(s + x * x) * ?u ^ 2 \<le> ?s" by (simp add: power2_eq_square mult.assoc)
  have "?t * ?u ^ 2 \<le> ?t" using u t by (intro mult_left_le power_le_one) auto
  then have "(s + x * x + ?t) * ?u ^ 2 \<le> ?s + ?t" using s by (simp add: distrib_right)
  then have "(s + x * x + ?t) * ?u ^ 2 * ?u ^ (2 * length xs) \<le> (?s + ?t) * ?u ^ (2 * length xs)"
    using u by (intro mult_right_mono) auto
  also have "\<dots> \<le> fold (\<lambda>x s. fl64 (s + fl64 (x * x))) xs ?s"
    using Cons.prems by (intro Cons.IH f64.nonneg add_nonneg_nonneg) auto
  finally show ?case by (simp add: add.assoc power2_eq_square mult.assoc)
qed simp

lemma sum_squares_upper:
  assumes "0 \<le> s"
  shows "fold (\<lambda>x s. fl64 (s + fl64 (x * x))) xs s * (1 - eps) ^ (2 * length xs) \<le> s + (\<Sum>x\<leftarrow>xs. x * x)"
  using assms
proof (induction xs arbitrary: s)
  case (Cons x xs)
  let ?s = "fl64 (s + fl64 (x * x))" and ?u = "1 - eps" and ?v = "1 + eps" and ?t = "\<Sum>x\<leftarrow>xs. x * x"
  have u: "0 \<le> ?u" "?u \<le> 1" "0 \<le> ?v" and uv: "?v * ?u \<le> 1" by (simp_all add: eps_def)
  have t: "0 \<le> ?t" by (intro sum_list_nonneg) auto
  have q: "0 \<le> fl64 (x * x)" by (simp add: f64.nonneg)
  have "fl64 (x * x) * ?u \<le> x * x * (?v * ?u)"
    using mult_right_mono [OF f64.upper [of "x * x"] u(1)] by (simp add: eps_def mult.assoc)
  also have "\<dots> \<le> x * x" using uv by (intro mult_left_le) auto
  finally have x: "fl64 (x * x) * ?u \<le> x * x" .
  have "?s * ?u \<le> (s + fl64 (x * x)) * (?v * ?u)"
    using mult_right_mono [OF f64.upper [of "s + fl64 (x * x)"] u(1)] Cons.prems q by (simp add: eps_def mult.assoc)
  also have "\<dots> \<le> s + fl64 (x * x)" using uv Cons.prems q by (intro mult_left_le) auto
  finally have "?s * ?u * ?u \<le> (s + fl64 (x * x)) * ?u" using u by (intro mult_right_mono)
  also have "\<dots> \<le> s + x * x" using x Cons.prems u by (simp add: distrib_right mult_left_le add_mono)
  finally have s: "?s * ?u ^ 2 \<le> s + x * x" by (simp add: power2_eq_square mult.assoc)
  have "fold (\<lambda>x s. fl64 (s + fl64 (x * x))) xs ?s * ?u ^ (2 * length xs) \<le> ?s + ?t"
    using Cons.prems q by (intro Cons.IH f64.nonneg add_nonneg_nonneg) simp_all
  then have "fold (\<lambda>x s. fl64 (s + fl64 (x * x))) xs ?s * ?u ^ (2 * length xs) * ?u ^ 2 \<le> (?s + ?t) * ?u ^ 2"
    using u by (intro mult_right_mono) auto
  also have "\<dots> \<le> s + x * x + ?t"
    using s mult_left_le [OF power_le_one [OF u(1,2), of 2] t] by (simp add: distrib_right)
  finally show ?case by (simp add: add.assoc power2_eq_square mult_ac)
qed simp

lemma bernoulli:
  fixes e :: rat
  assumes "0 \<le> e" "e \<le> 1"
  shows "1 - of_nat n * e \<le> (1 - e) ^ n"
proof (induction n)
  case (Suc n)
  have "1 - of_nat (Suc n) * e \<le> (1 - of_nat n * e) * (1 - e)"
    using assms by (simp add: algebra_simps)
  also have "\<dots> \<le> (1 - e) ^ n * (1 - e)" using Suc assms by (intro mult_right_mono) auto
  finally show ?case by (simp add: mult.commute)
qed simp


subsection \<open>Tokens of plain text\<close>

definition word_char :: "char \<Rightarrow> bool" where
  "word_char c \<longleftrightarrow> (let n = of_char c :: nat in (97 \<le> n \<and> n \<le> 122) \<or> (48 \<le> n \<and> n \<le> 57))"

lemma token_chars_range: "Some c \<in> set (token_chars s) \<Longrightarrow> word_char c"
proof (induction s rule: token_chars.induct)
  case (2 a s)
  have "ascii_token a = Some c \<Longrightarrow> word_char c"
    by (auto simp: ascii_token_def word_char_def Let_def split: if_splits)
  moreover have "word_char (CHR ''i'')" "word_char (CHR ''k'')" by (simp_all add: word_char_def Let_def)
  ultimately show ?case using 2 by (auto split: if_splits)
qed simp

lemma tokens_from_nonempty: "[] \<notin> set (tokens_from b rs)"
  by (induction b rs rule: tokens_from.induct) simp_all

lemma tokens_from_concat: "concat (tokens_from b rs) = b @ map the (filter (\<lambda>r. r \<noteq> None) rs)"
  by (induction b rs rule: tokens_from.induct) simp_all

lemma tokens_from_append_None: "set ns \<subseteq> {None} \<Longrightarrow> tokens_from b (rs @ ns) = tokens_from b rs"
proof (induction b rs rule: tokens_from.induct)
  case (1 b)
  have "tokens_from [] ns = []" using 1 by (induction ns) auto
  then show ?case using 1 by (cases ns) auto
qed auto

lemma token_chars_append:
  "\<forall>c \<in> set s. (of_char c :: nat) < 128 \<Longrightarrow> token_chars (s @ t) = token_chars s @ token_chars t"
  by (induction s) auto

lemma token_chars_ascii: "\<forall>c \<in> set s. (of_char c :: nat) < 128 \<Longrightarrow> token_chars s = map ascii_token s"
  by (induction s) auto

lemma ascii_token_word: "word_char c \<Longrightarrow> (of_char c :: nat) < 128 \<and> ascii_token c = Some c"
  by (auto simp: word_char_def ascii_token_def Let_def)

lemma tokens_from_word: "tokens_from b (map Some w @ rs) = tokens_from (b @ w) rs"
  by (induction w arbitrary: b) auto

text \<open>The tokenizer.  Its tokens are not empty, consist of lower-case ASCII letters and digits,
  and put together they are the letters and digits of the text, in order; and it is the
  inverse of writing words separated by single spaces.
\<close>

lemma tokenize_spec:
  assumes "\<forall>w \<in> set ws. w \<noteq> [] \<and> (\<forall>c \<in> set w. word_char c)"
  shows "(\<forall>w \<in> set (tokenize s). w \<noteq> [] \<and> (\<forall>c \<in> set w. word_char c))
    \<and> concat (tokenize s) = map the (filter (\<lambda>r. r \<noteq> None) (token_chars s))
    \<and> tokenize (concat (map (\<lambda>w. w @ '' '') ws)) = ws"
proof -
  have spec: "[] \<notin> set (tokenize s)" "concat (tokenize s) = map the (filter (\<lambda>r. r \<noteq> None) (token_chars s))"
    by (simp_all add: tokenize_def tokens_from_nonempty tokens_from_concat)
  have "word_char c" if "w \<in> set (tokenize s)" "c \<in> set w" for w c
  proof -
    have "c \<in> set (concat (tokenize s))" using that by auto
    then have "Some c \<in> set (token_chars s)" unfolding spec(2) by auto
    then show ?thesis by (rule token_chars_range)
  qed
  moreover have "tokens_from [] (token_chars (concat (map (\<lambda>w. w @ '' '') ws))) = ws"
    using assms
  proof (induction ws)
    case (Cons w ws)
    have a: "\<forall>c \<in> set (w @ '' ''). (of_char c :: nat) < 128" using Cons.prems ascii_token_word by auto
    have "map ascii_token w = map Some w" using Cons.prems ascii_token_word by auto
    then have "token_chars (w @ '' '') = map Some w @ [None]"
      using token_chars_ascii [OF a] by (simp add: ascii_token_def Let_def)
    then have "token_chars ((w @ '' '') @ concat (map (\<lambda>w. w @ '' '') ws))
        = map Some w @ None # token_chars (concat (map (\<lambda>w. w @ '' '') ws))"
      unfolding token_chars_append [OF a] by simp
    then show ?case using Cons by (simp add: tokens_from_word)
  qed simp
  ultimately show ?thesis using spec unfolding tokenize_def by blast
qed

lemma tokenize_spec_witness:
  "concat (tokenize ''What is X-12?'') = ''whatisx12'' \<and> tokenize ''what is x12 '' = [''what'', ''is'', ''x12'']"
proof -
  have "tokenize (concat (map (\<lambda>w. w @ '' '') [''what'', ''is'', ''x12''])) = [''what'', ''is'', ''x12'']"
    "concat (tokenize ''What is X-12?'') = map the (filter (\<lambda>r. r \<noteq> None) (token_chars ''What is X-12?''))"
    using tokenize_spec [of "[''what'', ''is'', ''x12'']" "''What is X-12?''"]
    by (simp_all add: word_char_def Let_def)
  moreover have "map the (filter (\<lambda>r. r \<noteq> None) (token_chars ''What is X-12?'')) = ''whatisx12''" by code_simp
  ultimately show ?thesis by simp
qed

subsection \<open>What the embedding forgets\<close>

text \<open>C37:
  The embedding is a bag of words: two prompts with the same words in any order have the
  same vector, and so any two prompts that differ only in the order of their words answer
  each other from the cache.
\<close>

theorem embed_bag_of_words:
  assumes "0 < dim h" "mset (tokenize s) = mset (tokenize t)" "length (tokenize s) \<le> 2 ^ 24"
  shows "embed h s = embed h t"
proof -
  have "tally (nat (dim h)) (tokenize s) i = tally (nat (dim h)) (tokenize t) i" for i
    using assms(2) unfolding tally_def by (metis mset_map sum_mset_sum_list)
  moreover have "length (tokenize t) = length (tokenize s)" using assms(2) by (metis size_mset)
  ultimately show ?thesis
    using assms by (simp add: embed_def count_tokens_exact)
qed

lemma embed_bag_of_words_witness:
  "embed (new_hashing_embedder 0) ''dog bites man'' = embed (new_hashing_embedder 0) ''Man, bites dog''"
proof -
  have "tokenize ''dog bites man'' = [''dog'', ''bites'', ''man'']"
    "tokenize ''Man, bites dog'' = [''man'', ''bites'', ''dog'']" by code_simp+
  then show ?thesis
    by (intro embed_bag_of_words) (simp_all add: new_hashing_embedder_def)
qed

text \<open>Text outside ASCII is invisible to the embedding: whatever follows an ASCII prefix without
  an ASCII letter or digit of its own (Chinese, Russian, Arabic, emoji) leaves the vector of
  the prefix unchanged, so that all such prompts have the same vector.
\<close>

lemma embed_ignores_non_ascii:
  assumes "\<forall>c \<in> set p. (of_char c :: nat) < 128"
    and "set (token_chars a) \<subseteq> {None}" "set (token_chars b) \<subseteq> {None}"
  shows "embed h (p @ a) = embed h (p @ b)"
  using assms by (simp add: embed_def tokenize_def token_chars_append tokens_from_append_None)

text \<open>The Chinese for water and for fire.\<close>

lemma embed_ignores_non_ascii_witness:
  "embed (new_hashing_embedder 384) (''user: '' @ [CHR 0xE6, CHR 0xB0, CHR 0xB4])
   = embed (new_hashing_embedder 384) (''user: '' @ [CHR 0xE7, CHR 0x81, CHR 0xAB])"
  by (rule embed_ignores_non_ascii) (simp_all, (simp add: numeral_eq_Suc)?)


subsection \<open>A prompt is similar to itself\<close>

lemma cosine_dot_self: "cosine_dot v v = sum_squares v"
proof -
  have "fold (\<lambda>(x, y) s. fl64 (s + fl64 (x * y))) (zip v v) a = fold (\<lambda>x s. fl64 (s + fl64 (x * x))) v a" for a
    by (induction v arbitrary: a) auto
  then show ?thesis by (simp add: cosine_dot_def sum_squares_def)
qed

text \<open>The norm that is divided by is hardly above the length of the vector.\<close>

lemma norm_upper:
  assumes "0 < x"
  shows "0 < fl32 (sqrt64 x)" "fl32 (sqrt64 x) * fl32 (sqrt64 x) \<le> x * (1 + 1 / 2 ^ 22)"
proof -
  let ?s = "sqrt64 x" and ?n = "fl32 (sqrt64 x)"
  note s = sqrt64_upper [OF assms]
  show pos: "0 < ?n" using f32.lower [of ?s] s(1) by (simp add: less_le_trans)
  have "?n \<le> ?s * (1 + 1 / 2 ^ 24)" using f32.upper [of ?s] s(1) by simp
  then have "?n * ?n \<le> (?s * (1 + 1 / 2 ^ 24)) * (?s * (1 + 1 / 2 ^ 24))"
    using pos s(1) by (intro mult_mono) auto
  also have "\<dots> = (?s * ?s) * ((1 + 1 / 2 ^ 24) * (1 + 1 / 2 ^ 24))" by (simp only: mult_ac)
  also have "\<dots> \<le> (x * (1 + 1 / 2 ^ 50)) * ((1 + 1 / 2 ^ 24) * (1 + 1 / 2 ^ 24))"
    using s(2) by (intro mult_right_mono) auto
  also have "\<dots> = x * ((1 + 1 / 2 ^ 50) * ((1 + 1 / 2 ^ 24) * (1 + 1 / 2 ^ 24)))" by (simp only: mult_ac)
  also have "\<dots> \<le> x * (1 + 1 / 2 ^ 22)" using assms by (intro mult_left_mono) auto
  finally show "?n * ?n \<le> x * (1 + 1 / 2 ^ 22)" .
qed

lemma quotient_square:
  assumes "0 < n"
  shows "x * x / (n * n) * (1 - 1 / 2 ^ 22) \<le> fl32 (x / n) * fl32 (x / n)"
proof -
  let ?q = "\<bar>x\<bar> / n" and ?u = "1 - 1 / 2 ^ 24 :: rat"
  have a: "\<bar>fl32 (x / n)\<bar> = fl32 ?q"
  proof (cases "0 \<le> x")
    case True
    then show ?thesis using assms f32.nonneg [of "x / n"] by simp
  next
    case False
    then have "fl32 ?q = - fl32 (x / n)" using rnd_neg [of 24 "x / n"] by (simp add: fl32_def)
    then show ?thesis using f32.nonpos [of "x / n"] False assms by (simp add: divide_nonpos_pos)
  qed
  have q: "0 \<le> ?q" using assms by simp
  have "?q * ?u \<le> fl32 ?q" using f32.lower [OF q] by simp
  then have "(?q * ?u) * (?q * ?u) \<le> fl32 ?q * fl32 ?q" using q by (intro mult_mono) auto
  moreover have "(?q * ?u) * (?q * ?u) = x * x / (n * n) * (?u * ?u)" by (simp add: field_simps flip: abs_mult)
  moreover have "x * x / (n * n) * (1 - 1 / 2 ^ 22) \<le> x * x / (n * n) * (?u * ?u)"
    using assms by (intro mult_left_mono) auto
  moreover have "fl32 ?q * fl32 ?q = fl32 (x / n) * fl32 (x / n)" by (metis a abs_mult_self_eq)
  ultimately show ?thesis by linarith
qed

lemma squares_scaled: "(\<Sum>x\<leftarrow>xs. x * x) / m * k = (\<Sum>x\<leftarrow>xs. x * x / m * (k :: rat))"
  by (induction xs) (simp_all add: add_divide_distrib distrib_right)

text \<open>
  A normalised vector of at most \<open>2^20\<close> coordinates that is not zero is similar to itself:
  with every rounding of the sum, of the root, of the \<open>float32\<close> quotients and of the
  \<open>float64\<close> dot product, at least 0.999.
\<close>

lemma normalize_self:
  assumes "length v \<le> 2 ^ 20" "0 < sum_squares v"
  shows "999 / 1000 \<le> cosine_dot (normalize v) (normalize v)"
proof -
  let ?S = "sum_squares v" and ?E = "\<Sum>x\<leftarrow>v. x * x"
  define n where "n = fl32 (sqrt64 ?S)"
  define w where "w = normalize v"
  have n: "0 < n" "n * n \<le> ?S * (1 + 1 / 2 ^ 22)"
    using norm_upper [OF assms(2)] by (simp_all add: n_def)
  have w: "w = map (\<lambda>x. fl32 (x / n)) v"
    using n(1) unfolding w_def normalize_def n_def [symmetric] Let_def by simp
  have "of_nat (2 * length v) * eps \<le> 1 / 2 ^ 30" using assms(1) by (simp add: eps_def)
  then have r: "1 - 1 / 2 ^ 30 \<le> (1 - eps) ^ (2 * length v)"
    using bernoulli [of eps "2 * length v"] by (simp add: eps_def)
  have "?S * (1 - 1 / 2 ^ 30) \<le> ?S * (1 - eps) ^ (2 * length v)" using r assms(2) by (intro mult_left_mono) auto
  also have "\<dots> \<le> ?E" using sum_squares_upper [of 0 v] by (simp add: sum_squares_def)
  finally have E: "?S * (1 - 1 / 2 ^ 30) \<le> ?E" .
  have "(1 - 1 / 2 ^ 30) / (1 + 1 / 2 ^ 22) = ?S * (1 - 1 / 2 ^ 30) / (?S * (1 + 1 / 2 ^ 22))" using assms(2) by simp
  also have "\<dots> \<le> ?E / (n * n)" using E n assms(2) by (intro frac_le) auto
  finally have "(1 - 1 / 2 ^ 30) / (1 + 1 / 2 ^ 22) * (1 - 1 / 2 ^ 22) \<le> ?E / (n * n) * (1 - 1 / 2 ^ 22)"
    by (intro mult_right_mono) simp_all
  also have "\<dots> = (\<Sum>x\<leftarrow>v. x * x / (n * n) * (1 - 1 / 2 ^ 22))" by (rule squares_scaled)
  also have "\<dots> \<le> (\<Sum>x\<leftarrow>v. fl32 (x / n) * fl32 (x / n))" by (intro sum_list_mono quotient_square n(1))
  also have "\<dots> = (\<Sum>x\<leftarrow>w. x * x)" by (simp add: w comp_def)
  finally have "(1 - 1 / 2 ^ 30) / (1 + 1 / 2 ^ 22) * (1 - 1 / 2 ^ 22) * (1 - 1 / 2 ^ 30)
      \<le> (\<Sum>x\<leftarrow>w. x * x) * (1 - eps) ^ (2 * length v)"
    using r by (intro mult_mono) (auto simp: eps_def)
  also have "\<dots> \<le> cosine_dot w w"
    using sum_squares_lower [of 0 w] by (simp add: cosine_dot_self sum_squares_def w)
  finally show ?thesis unfolding w_def by simp
qed

text \<open>
  So is the embedding of a prompt whose tokens do not cancel to the zero vector.
\<close>

lemma self_similar:
  assumes "0 < dim h" "dim h \<le> 2 ^ 20"
    and "\<exists>i < nat (dim h). count_tokens (nat (dim h)) (tokenize s) ! i \<noteq> 0"
  shows "999 / 1000 \<le> cosine_dot (embed h s) (embed h s)"
proof -
  let ?v = "count_tokens (nat (dim h)) (tokenize s)"
  have len: "length ?v = nat (dim h)" by (rule length_count_tokens)
  obtain i where i: "i < length ?v" "?v ! i \<noteq> 0" using assms(3) len by auto
  have "?v ! i * ?v ! i \<le> (\<Sum>x\<leftarrow>?v. x * x)"
    using i(1) by (intro member_le_sum_list) auto
  moreover have "0 < ?v ! i * ?v ! i" using i(2) by (auto simp: zero_less_mult_iff linorder_neq_iff)
  ultimately have "0 < (\<Sum>x\<leftarrow>?v. x * x)" by linarith
  then have "0 < (0 + (\<Sum>x\<leftarrow>?v. x * x)) * (1 - eps) ^ (2 * length ?v)" by (simp add: eps_def)
  also have "\<dots> \<le> sum_squares ?v" unfolding sum_squares_def by (rule sum_squares_lower) simp
  finally show ?thesis unfolding embed_def using len assms(2) by (intro normalize_self) simp_all
qed

end
