(* ===== verification/Cache.thy ===== *)
theory Cache
  imports Router Embedder
begin

section \<open>The semantic cache\<close>

text \<open>
  \<open>internal/cache\<close>: the entry and the policy (\<open>cache.go\<close>) and the in-memory store
  (\<open>memory_store.go\<close>).  The interface \<open>Store\<close> is a record of operations on a state; what
  the cache relies on is the locale \<open>vector_store\<close>, which the in-memory store satisfies.
  The interface \<open>Embedder\<close> is a function.  A store holds pointers to entries nobody
  changes afterwards, so an entry is a value.
\<close>

subsection \<open>Entries and stores\<close>

record entry =
  e_Model :: string
  Content :: string
  Raw :: string
  CreatedAt :: time

text \<open>The zero value of \<open>time.Time\<close>, January 1 of the year 1.\<close>

definition zero_time :: time where
  "zero_time = - 62135596800 * second"

record 's store_ops =
  Nearest :: "'s \<Rightarrow> vec \<Rightarrow> float64 \<Rightarrow> time \<Rightarrow> go_error + entry option \<times> float64"
  Put :: "'s \<Rightarrow> vec \<Rightarrow> string \<Rightarrow> entry \<Rightarrow> go_error option \<times> 's"
  Size :: "'s \<Rightarrow> go_error + nat"

subsection \<open>The cache\<close>

record cache =
  emb :: "string \<Rightarrow> go_error + vec"
  threshold :: float64
  ttl :: duration
  CacheHits :: nat
  CacheMisses :: nat
  CacheStoreSize :: nat

definition new_cache :: "(string \<Rightarrow> go_error + vec) \<Rightarrow> float64 \<Rightarrow> duration \<Rightarrow> cache" where
  "new_cache em th t = \<lparr>emb = em, threshold = th, ttl = t, CacheHits = 0, CacheMisses = 0, CacheStoreSize = 0\<rparr>"

text \<open>\<open>Lookup\<close> at the time \<open>now\<close>; \<open>None\<close> for the store is a nil store.\<close>

definition cache_lookup ::
  "'s store_ops \<Rightarrow> cache \<Rightarrow> 's option \<Rightarrow> string \<Rightarrow> time \<Rightarrow> (go_error + entry option) \<times> cache" where
  "cache_lookup ops c store prompt now =
     (case store of
        None \<Rightarrow> (Inr None, c)
      | Some s \<Rightarrow>
          (case emb c prompt of
             Inl err \<Rightarrow> (Inl err, c)
           | Inr vec \<Rightarrow>
               (case Nearest ops s vec (threshold c) (now - ttl c) of
                  Inl err \<Rightarrow> (Inl err, c)
                | Inr (None, _) \<Rightarrow> (Inr None, c\<lparr>CacheMisses := Suc (CacheMisses c)\<rparr>)
                | Inr (Some e, _) \<Rightarrow> (Inr (Some e), c\<lparr>CacheHits := Suc (CacheHits c)\<rparr>))))"

definition cache_store ::
  "'s store_ops \<Rightarrow> cache \<Rightarrow> 's option \<Rightarrow> string \<Rightarrow> entry \<Rightarrow> time \<Rightarrow> go_error option \<times> cache \<times> 's option" where
  "cache_store ops c store prompt e now =
     (case store of
        None \<Rightarrow> (None, c, store)
      | Some s \<Rightarrow>
          let e = (if CreatedAt e = zero_time then e\<lparr>CreatedAt := now\<rparr> else e)
          in case emb c prompt of
               Inl err \<Rightarrow> (Some err, c, store)
             | Inr vec \<Rightarrow>
                 (case Put ops s vec prompt e of
                    (Some err, s') \<Rightarrow> (Some err, c, Some s')
                  | (None, s') \<Rightarrow>
                      (case Size ops s' of
                         Inl _ \<Rightarrow> (None, c, Some s')
                       | Inr n \<Rightarrow> (None, c\<lparr>CacheStoreSize := n\<rparr>, Some s'))))"

subsection \<open>The in-memory store\<close>

record mem_entry =
  me_vec :: vec
  me_entry :: entry

record memory_store =
  entries :: "mem_entry list"
  maxSize :: int

definition new_memory_store :: "int \<Rightarrow> memory_store" where
  "new_memory_store n = \<lparr>entries = [], maxSize = (if n \<le> 0 then 10000 else n)\<rparr>"

definition scan_entry :: "vec \<Rightarrow> time \<Rightarrow> mem_entry \<Rightarrow> entry option \<times> float64 \<Rightarrow> entry option \<times> float64" where
  "scan_entry vec fresh e best =
     (if CreatedAt (me_entry e) < fresh then best
      else let sim = cosine_dot vec (me_vec e)
           in if sim > snd best then (Some (me_entry e), sim) else best)"

definition mem_nearest :: "memory_store \<Rightarrow> vec \<Rightarrow> float64 \<Rightarrow> time \<Rightarrow> entry option \<times> float64" where
  "mem_nearest m vec th fresh =
     (let (best, sim) = fold (scan_entry vec fresh) (entries m) (None, - 1)
      in if best = None \<or> sim < th then (None, sim) else (best, sim))"

text \<open>\<open>sort.SliceStable\<close> by \<open>After\<close> is the stable sort on the negated time.\<close>

definition mem_put :: "memory_store \<Rightarrow> vec \<Rightarrow> entry \<Rightarrow> memory_store" where
  "mem_put m vec e =
     (let es = entries m @ [\<lparr>me_vec = vec, me_entry = e\<rparr>]
      in if int (length es) > maxSize m
         then m\<lparr>entries := take (nat (maxSize m)) (sort_key (\<lambda>x. - CreatedAt (me_entry x)) es)\<rparr>
         else m\<lparr>entries := es\<rparr>)"

definition mem_size :: "memory_store \<Rightarrow> nat" where
  "mem_size m = length (entries m)"

definition memory_ops :: "memory_store store_ops" where
  "memory_ops =
     \<lparr>Nearest = (\<lambda>m vec th fresh. Inr (mem_nearest m vec th fresh)),
      Put = (\<lambda>m vec _ e. (None, mem_put m vec e)),
      Size = (\<lambda>m. Inr (mem_size m))\<rparr>"

subsection \<open>What the cache relies on\<close>

text \<open>
  A store holds vectors with their entries.  A search returns something held that is fresh
  and similar enough, with its similarity, and fails to only if nothing is; a put adds at
  most its own entry, and certainly adds it when it is newer than all the others.
\<close>

locale vector_store =
  fixes ops :: "'s store_ops"
    and holds :: "'s \<Rightarrow> (vec \<times> entry) set"
    and wf :: "'s \<Rightarrow> bool"
  assumes nearest_sound: "Nearest ops s v th fresh = Inr (Some e, x) \<Longrightarrow>
      \<exists>u. (u, e) \<in> holds s \<and> x = cosine_dot v u \<and> th \<le> x \<and> fresh \<le> CreatedAt e"
    and nearest_complete: "(u, e) \<in> holds s \<Longrightarrow> fresh \<le> CreatedAt e \<Longrightarrow> th \<le> cosine_dot v u \<Longrightarrow> - 1 < th \<Longrightarrow>
      \<exists>e' x. Nearest ops s v th fresh = Inr (Some e', x) \<and> cosine_dot v u \<le> x"
    and put_holds: "Put ops s v p e = (None, s') \<Longrightarrow> holds s' \<subseteq> insert (v, e) (holds s)"
    and put_newest: "Put ops s v p e = (None, s') \<Longrightarrow> wf s \<Longrightarrow>
      (\<And>u e'. (u, e') \<in> holds s \<Longrightarrow> CreatedAt e' < CreatedAt e) \<Longrightarrow> (v, e) \<in> holds s'"
begin

lemma lookup_sound:
  assumes "cache_lookup ops c (Some s) prompt now = (Inr (Some e), c')"
  shows "\<exists>v u. emb c prompt = Inr v \<and> (u, e) \<in> holds s \<and> threshold c \<le> cosine_dot v u \<and> now - ttl c \<le> CreatedAt e"
proof -
  obtain v where v: "emb c prompt = Inr v" using assms by (auto simp: cache_lookup_def split: sum.splits)
  obtain x where "Nearest ops s v (threshold c) (now - ttl c) = Inr (Some e, x)"
    using assms v by (auto simp: cache_lookup_def split: sum.splits prod.splits option.splits)
  then show ?thesis using nearest_sound v by blast
qed

lemma lookup_complete:
  assumes "emb c prompt = Inr v" "(u, e) \<in> holds s" "now - ttl c \<le> CreatedAt e"
    and "threshold c \<le> cosine_dot v u" "- 1 < threshold c"
  shows "\<exists>e' u'. cache_lookup ops c (Some s) prompt now = (Inr (Some e'), c\<lparr>CacheHits := Suc (CacheHits c)\<rparr>)
    \<and> (u', e') \<in> holds s \<and> cosine_dot v u \<le> cosine_dot v u'"
proof -
  obtain e' x where n: "Nearest ops s v (threshold c) (now - ttl c) = Inr (Some e', x)" "cosine_dot v u \<le> x"
    using nearest_complete [OF assms(2,3,4,5)] by blast
  then show ?thesis using nearest_sound [OF n(1)] assms(1) by (auto simp: cache_lookup_def)
qed

text \<open>What was just stored is found, if it is the newest and the prompt is similar to itself.\<close>

lemma store_then_lookup:
  assumes st: "cache_store ops c (Some s) prompt e now = (None, c', Some s')"
    and v: "emb c prompt = Inr v" and self: "threshold c \<le> cosine_dot v v" "- 1 < threshold c"
    and new: "wf s" "CreatedAt e = zero_time" "\<And>u e'. (u, e') \<in> holds s \<Longrightarrow> CreatedAt e' < now"
    and fresh: "later - ttl c \<le> now"
  shows "\<exists>e' u'. fst (cache_lookup ops c' (Some s') prompt later) = Inr (Some e')
    \<and> (u', e') \<in> holds s' \<and> cosine_dot v v \<le> cosine_dot v u'"
proof -
  have p: "Put ops s v prompt (e\<lparr>CreatedAt := now\<rparr>) = (None, s')"
    using st v new(2) by (auto simp: cache_store_def Let_def split: prod.splits option.splits sum.splits)
  have c': "emb c' = emb c" "ttl c' = ttl c" "threshold c' = threshold c"
    using st by (auto simp: cache_store_def Let_def split: prod.splits option.splits sum.splits)
  have "(v, e\<lparr>CreatedAt := now\<rparr>) \<in> holds s'" by (rule put_newest [OF p new(1)]) (simp add: new(3))
  then show ?thesis using lookup_complete [of c' prompt v v "e\<lparr>CreatedAt := now\<rparr>" s' later] v self fresh c' by auto
qed

end


subsection \<open>The in-memory store is a vector store\<close>

definition mem_holds :: "memory_store \<Rightarrow> (vec \<times> entry) set" where
  "mem_holds m = (\<lambda>x. (me_vec x, me_entry x)) ` set (entries m)"

definition mem_store_wf :: "memory_store \<Rightarrow> bool" where
  "mem_store_wf m \<longleftrightarrow> 0 < maxSize m"

lemma scan_spec:
  fixes es :: "mem_entry list" and vec fresh
  defines "f \<equiv> fold (scan_entry vec fresh) es"
  shows "snd b \<le> snd (f b)"
    "\<forall>x \<in> set es. fresh \<le> CreatedAt (me_entry x) \<longrightarrow> cosine_dot vec (me_vec x) \<le> snd (f b)"
    "f b = b \<or> (\<exists>x \<in> set es. fresh \<le> CreatedAt (me_entry x)
        \<and> f b = (Some (me_entry x), cosine_dot vec (me_vec x)))"
proof -
  have "snd b \<le> snd (f b)
    \<and> (\<forall>x \<in> set es. fresh \<le> CreatedAt (me_entry x) \<longrightarrow> cosine_dot vec (me_vec x) \<le> snd (f b))
    \<and> (f b = b \<or> (\<exists>x \<in> set es. fresh \<le> CreatedAt (me_entry x)
        \<and> f b = (Some (me_entry x), cosine_dot vec (me_vec x))))"
    unfolding f_def
  proof (induction es arbitrary: b)
    case (Cons x es)
    let ?b = "scan_entry vec fresh x b"
    have "snd b \<le> snd ?b"
      and "fresh \<le> CreatedAt (me_entry x) \<longrightarrow> cosine_dot vec (me_vec x) \<le> snd ?b"
      and "?b = b \<or> (fresh \<le> CreatedAt (me_entry x) \<and> ?b = (Some (me_entry x), cosine_dot vec (me_vec x)))"
      by (auto simp: scan_entry_def Let_def)
    then show ?case using Cons.IH [of ?b] by auto
  qed simp
  then show "snd b \<le> snd (f b)"
    "\<forall>x \<in> set es. fresh \<le> CreatedAt (me_entry x) \<longrightarrow> cosine_dot vec (me_vec x) \<le> snd (f b)"
    "f b = b \<or> (\<exists>x \<in> set es. fresh \<le> CreatedAt (me_entry x)
        \<and> f b = (Some (me_entry x), cosine_dot vec (me_vec x)))" by blast+
qed

lemma mem_nearest_cases:
  "(\<exists>sim. mem_nearest m v th fresh = (None, sim)
      \<and> (\<forall>x \<in> set (entries m). fresh \<le> CreatedAt (me_entry x) \<longrightarrow>
           cosine_dot v (me_vec x) < th \<or> cosine_dot v (me_vec x) \<le> - 1))
   \<or> (\<exists>x \<in> set (entries m). mem_nearest m v th fresh = (Some (me_entry x), cosine_dot v (me_vec x))
      \<and> fresh \<le> CreatedAt (me_entry x) \<and> th \<le> cosine_dot v (me_vec x)
      \<and> (\<forall>y \<in> set (entries m). fresh \<le> CreatedAt (me_entry y) \<longrightarrow>
           cosine_dot v (me_vec y) \<le> cosine_dot v (me_vec x)))"
proof -
  obtain best sim where f: "fold (scan_entry v fresh) (entries m) (None, - 1) = (best, sim)" by force
  note spec = scan_spec [where b = "(None, - 1)" and vec = v and fresh = fresh and es = "entries m", unfolded f]
  have n: "mem_nearest m v th fresh = (if best = None \<or> sim < th then (None, sim) else (best, sim))"
    by (simp add: mem_nearest_def f)
  show ?thesis
  proof (cases "best = None \<or> sim < th")
    case True
    then have "\<forall>x \<in> set (entries m). fresh \<le> CreatedAt (me_entry x) \<longrightarrow>
        cosine_dot v (me_vec x) < th \<or> cosine_dot v (me_vec x) \<le> - 1"
      using spec(2,3) by fastforce
    then show ?thesis using True n by simp
  next
    case False
    then show ?thesis using spec(2,3) n by auto
  qed
qed

lemma sorted_take_drop:
  "sorted (map f xs) \<Longrightarrow> x \<in> set (take n xs) \<Longrightarrow> y \<in> set (drop n xs) \<Longrightarrow> f x \<le> f y"
proof -
  assume s: "sorted (map f xs)" "x \<in> set (take n xs)" "y \<in> set (drop n xs)"
  have "sorted (map f (take n xs) @ map f (drop n xs))"
    using s(1) by (metis append_take_drop_id map_append)
  then show ?thesis using s(2,3) by (simp add: sorted_append)
qed

lemma mem_put_cases:
  obtains dropped where
    "mset (entries (mem_put m v e)) + mset dropped = mset (entries m) + {#\<lparr>me_vec = v, me_entry = e\<rparr>#}"
    "\<forall>x \<in> set (entries (mem_put m v e)). \<forall>y \<in> set dropped. CreatedAt (me_entry y) \<le> CreatedAt (me_entry x)"
    "length (entries (mem_put m v e)) =
       (if int (length (entries m)) < maxSize m then Suc (length (entries m))
        else min (Suc (length (entries m))) (nat (maxSize m)))"
    "maxSize (mem_put m v e) = maxSize m"
proof -
  let ?es = "entries m @ [\<lparr>me_vec = v, me_entry = e\<rparr>]" and ?n = "nat (maxSize m)"
  let ?ss = "sort_key (\<lambda>x. - CreatedAt (me_entry x)) ?es"
  show thesis
  proof (cases "int (length ?es) > maxSize m")
    case False
    then show thesis by (intro that [of "[]"]) (simp_all add: mem_put_def Let_def)
  next
    case True
    then have p: "entries (mem_put m v e) = take ?n ?ss" "maxSize (mem_put m v e) = maxSize m"
      by (simp_all add: mem_put_def Let_def)
    have "mset (take ?n ?ss) + mset (drop ?n ?ss) = mset ?ss" by (metis append_take_drop_id mset_append)
    then have "mset (take ?n ?ss) + mset (drop ?n ?ss) = mset (entries m) + {#\<lparr>me_vec = v, me_entry = e\<rparr>#}"
      by simp
    moreover have "\<forall>x \<in> set (take ?n ?ss). \<forall>y \<in> set (drop ?n ?ss). CreatedAt (me_entry y) \<le> CreatedAt (me_entry x)"
      using sorted_take_drop [OF sorted_sort_key, of _ ?n "\<lambda>x. - CreatedAt (me_entry x)" ?es] by fastforce
    ultimately show thesis using p True by (intro that [of "drop ?n ?ss"]) auto
  qed
qed

lemma mem_put_newest:
  assumes "0 < maxSize m" "\<forall>x \<in> set (entries m). CreatedAt (me_entry x) < CreatedAt e"
  shows "\<lparr>me_vec = v, me_entry = e\<rparr> \<in> set (entries (mem_put m v e))"
proof (rule mem_put_cases [of m v e])
  let ?new = "\<lparr>me_vec = v, me_entry = e\<rparr>" and ?es = "entries (mem_put m v e)"
  fix dropped
  assume d: "mset ?es + mset dropped = mset (entries m) + {#?new#}"
    "\<forall>x \<in> set ?es. \<forall>y \<in> set dropped. CreatedAt (me_entry y) \<le> CreatedAt (me_entry x)"
    "length ?es = (if int (length (entries m)) < maxSize m then Suc (length (entries m))
        else min (Suc (length (entries m))) (nat (maxSize m)))"
  have union: "set ?es \<union> set dropped = insert ?new (set (entries m))"
    using arg_cong [OF d(1), of set_mset] by auto
  have "?es \<noteq> []" using d(3) assms(1) by (auto simp: min_def split: if_splits)
  then obtain x where x: "x \<in> set ?es" by (meson last_in_set)
  show "?new \<in> set ?es"
  proof (rule ccontr)
    assume no: "?new \<notin> set ?es"
    have "?new \<in> set dropped" using union no by blast
    have "x \<in> set (entries m)" using union x no by (metis UnI1 insertE)
    have "CreatedAt e \<le> CreatedAt (me_entry x)" using d(2) x \<open>?new \<in> set dropped\<close> by fastforce
    then show False using assms(2) \<open>x \<in> set (entries m)\<close> by fastforce
  qed
qed

lemma mem_put_subset: "set (entries (mem_put m v e)) \<subseteq> insert \<lparr>me_vec = v, me_entry = e\<rparr> (set (entries m))"
proof (rule mem_put_cases [of m v e])
  fix dropped
  assume "mset (entries (mem_put m v e)) + mset dropped = mset (entries m) + {#\<lparr>me_vec = v, me_entry = e\<rparr>#}"
  from arg_cong [OF this, of set_mset] show ?thesis by auto
qed

interpretation mem_vectors: vector_store memory_ops mem_holds mem_store_wf
proof
  fix s v th fresh e x
  assume "Nearest memory_ops s v th fresh = Inr (Some e, x)"
  then show "\<exists>u. (u, e) \<in> mem_holds s \<and> x = cosine_dot v u \<and> th \<le> x \<and> fresh \<le> CreatedAt e"
    using mem_nearest_cases [of s v th fresh] by (auto simp: memory_ops_def mem_holds_def)
next
  fix u e s fresh th v
  assume "(u, e) \<in> mem_holds s" "fresh \<le> CreatedAt e" "th \<le> cosine_dot v u" "(- 1 :: rat) < th"
  then show "\<exists>e' x. Nearest memory_ops s v th fresh = Inr (Some e', x) \<and> cosine_dot v u \<le> x"
    using mem_nearest_cases [of s v th fresh] by (fastforce simp: memory_ops_def mem_holds_def)
next
  fix s v p e s'
  assume "Put memory_ops s v p e = (None, s')"
  then show "mem_holds s' \<subseteq> insert (v, e) (mem_holds s)"
    using mem_put_subset [of s v e] by (auto simp: memory_ops_def mem_holds_def)
next
  fix s v p e s'
  assume p: "Put memory_ops s v p e = (None, s')" and w: "mem_store_wf s"
    and n: "\<And>u e'. (u, e') \<in> mem_holds s \<Longrightarrow> CreatedAt e' < CreatedAt e"
  have "\<forall>x \<in> set (entries s). CreatedAt (me_entry x) < CreatedAt e" using n by (auto simp: mem_holds_def)
  then have "\<lparr>me_vec = v, me_entry = e\<rparr> \<in> set (entries s')"
    using mem_put_newest [of s e v] p w by (simp add: memory_ops_def mem_store_wf_def)
  then show "(v, e) \<in> mem_holds s'" by (force simp: mem_holds_def)
qed


subsection \<open>Properties\<close>

definition demo_entry :: "string \<Rightarrow> time \<Rightarrow> entry" where
  "demo_entry s t = \<lparr>e_Model = ''m'', Content = s, Raw = [], CreatedAt = t\<rparr>"

definition demo_store :: memory_store where
  "demo_store = \<lparr>entries = [\<lparr>me_vec = [1, 0], me_entry = demo_entry ''x'' 5\<rparr>,
     \<lparr>me_vec = [0, 1], me_entry = demo_entry ''y'' 9\<rparr>], maxSize = 2\<rparr>"

text \<open>C18:
  \<open>MemoryStore.Nearest\<close> is an exact nearest-neighbour search with expiry.  If it returns an
  entry, that entry is in the store, was not created before \<open>freshUntil\<close>, its similarity is
  the one returned and at least the threshold, and no fresh entry is more similar.  If it
  returns none, every fresh entry is below the threshold (or at most -1, the value the
  search starts from).
\<close>

theorem mem_nearest_spec:
  "case mem_nearest m v th fresh of
     (None, _) \<Rightarrow> \<forall>x \<in> set (entries m). fresh \<le> CreatedAt (me_entry x) \<longrightarrow>
        cosine_dot v (me_vec x) < th \<or> cosine_dot v (me_vec x) \<le> - 1
   | (Some e, sim) \<Rightarrow> th \<le> sim \<and>
        (\<exists>x \<in> set (entries m). me_entry x = e \<and> fresh \<le> CreatedAt e \<and> sim = cosine_dot v (me_vec x)) \<and>
        (\<forall>y \<in> set (entries m). fresh \<le> CreatedAt (me_entry y) \<longrightarrow> cosine_dot v (me_vec y) \<le> sim)"
  using mem_nearest_cases [of m v th fresh] by (elim disjE exE conjE bexE) auto

text \<open>The first entry is the most similar one but has expired.\<close>

lemma mem_nearest_spec_witness:
  "mem_nearest demo_store [1, 0] (1 / 2) 6 = (None, 0) \<and> cosine_dot [1, 0] [0, 1] < 1 / 2"
proof -
  have c: "cosine_dot [1, 0] [0, 1] = 0" by (simp add: cosine_dot_def)
  have n: "mem_nearest demo_store [1, 0] (1 / 2) 6 = (None, 0)"
    by (simp add: mem_nearest_def demo_store_def demo_entry_def scan_entry_def c Let_def)
  then show ?thesis
    using mem_nearest_spec [where m = demo_store and v = "[1, 0]" and th = "1 / 2" and fresh = 6] c by simp
qed

text \<open>\<open>MemoryStore.Put\<close> and its eviction.  The entries after a put are those before it and the
  new one, less some that are dropped; nothing dropped is newer than anything kept; nothing
  is dropped while there is room, and a store within its maximum size stays within it.
\<close>

lemma mem_put_spec:
  assumes "int (length (entries m)) \<le> maxSize m"
  shows "\<exists>dropped.
      mset (entries (mem_put m v e)) + mset dropped = mset (entries m) + {#\<lparr>me_vec = v, me_entry = e\<rparr>#}
    \<and> (\<forall>x \<in> set (entries (mem_put m v e)). \<forall>y \<in> set dropped. CreatedAt (me_entry y) \<le> CreatedAt (me_entry x))
    \<and> length dropped = (if int (length (entries m)) < maxSize m then 0 else 1)
    \<and> int (length (entries (mem_put m v e))) \<le> maxSize m"
proof (rule mem_put_cases [of m v e])
  fix dropped
  assume d: "mset (entries (mem_put m v e)) + mset dropped = mset (entries m) + {#\<lparr>me_vec = v, me_entry = e\<rparr>#}"
    "\<forall>x \<in> set (entries (mem_put m v e)). \<forall>y \<in> set dropped. CreatedAt (me_entry y) \<le> CreatedAt (me_entry x)"
    "length (entries (mem_put m v e)) = (if int (length (entries m)) < maxSize m then Suc (length (entries m))
        else min (Suc (length (entries m))) (nat (maxSize m)))"
  have "length (entries (mem_put m v e)) + length dropped = Suc (length (entries m))"
    using arg_cong [OF d(1), of size] by simp
  then show ?thesis using d assms by (intro exI [of _ dropped]) (auto split: if_splits)
qed

lemma mem_put_spec_witness:
  "int (length (entries (mem_put demo_store [1, 1] (demo_entry ''z'' 7)))) \<le> 2"
  using mem_put_spec [of demo_store "[1, 1]" "demo_entry ''z'' 7"] by (auto simp: demo_store_def)

definition put_all :: "(vec \<times> entry) list \<Rightarrow> memory_store \<Rightarrow> memory_store" where
  "put_all ps m = fold (\<lambda>(v, e) m. mem_put m v e) ps m"

definition as_entry :: "vec \<times> entry \<Rightarrow> mem_entry" where
  "as_entry p = \<lparr>me_vec = fst p, me_entry = snd p\<rparr>"

lemma as_entry_simps [simp]: "me_entry (as_entry p) = snd p" "me_vec (as_entry p) = fst p"
  by (simp_all add: as_entry_def)

text \<open>One put beyond the capacity, into a store whose entries are in order of time.\<close>

lemma mem_put_drops_oldest:
  assumes "mset (entries m) = mset (old # rest)" "int (Suc (length rest)) = maxSize m"
    and "\<forall>x \<in> set rest. CreatedAt (me_entry old) < CreatedAt (me_entry x)"
    and "CreatedAt (me_entry old) < CreatedAt e"
  shows "mset (entries (mem_put m v e)) = mset rest + {#\<lparr>me_vec = v, me_entry = e\<rparr>#}"
proof (rule mem_put_cases [of m v e])
  let ?new = "\<lparr>me_vec = v, me_entry = e\<rparr>" and ?es = "entries (mem_put m v e)"
  fix dropped
  assume d: "mset ?es + mset dropped = mset (entries m) + {#?new#}"
    "\<forall>x \<in> set ?es. \<forall>y \<in> set dropped. CreatedAt (me_entry y) \<le> CreatedAt (me_entry x)"
    "length ?es = (if int (length (entries m)) < maxSize m then Suc (length (entries m))
        else min (Suc (length (entries m))) (nat (maxSize m)))"
  have "length (entries m) = Suc (length rest)" using assms(1) by (metis length_Cons size_mset)
  moreover have "length ?es + length dropped = Suc (length (entries m))"
    using arg_cong [OF d(1), of size] by simp
  ultimately have "length dropped = 1" using d(3) assms(2) by auto
  then obtain y where y: "dropped = [y]" by (cases dropped) auto
  have all: "mset ?es + {#y#} = {#old#} + (mset rest + {#?new#})" using d(1) y assms(1) by simp
  have "y = old"
  proof (rule ccontr)
    assume "y \<noteq> old"
    then have "y \<in> set rest \<union> {?new}" "old \<in> set ?es"
      using arg_cong [OF all, of set_mset] arg_cong [OF all, of "\<lambda>M. old \<in># M"] by auto
    then have "CreatedAt (me_entry y) \<le> CreatedAt (me_entry old)" "CreatedAt (me_entry old) < CreatedAt (me_entry y)"
      using d(2) y assms(3,4) by auto
    then show False by simp
  qed
  then show ?thesis using all by simp
qed

text \<open>First in, first out.  After any sequence of puts with increasing times a store made with
  capacity \<open>n\<close> holds exactly the last \<open>n\<close> of them.
\<close>

lemma mem_fifo:
  assumes "0 < n" "sorted_wrt (\<lambda>p q. CreatedAt (snd p) < CreatedAt (snd q)) ps"
  shows "mset (entries (put_all ps (new_memory_store n))) = mset (map as_entry (drop (length ps - nat n) ps))
    \<and> maxSize (put_all ps (new_memory_store n)) = n"
  using assms(2)
proof (induction ps rule: rev_induct)
  case Nil
  then show ?case using assms(1) by (simp add: put_all_def new_memory_store_def)
next
  case (snoc p ps)
  obtain v e where p: "p = (v, e)" by force
  let ?m = "put_all ps (new_memory_store n)" and ?k = "length ps - nat n"
  have s: "put_all (ps @ [p]) (new_memory_store n) = mem_put ?m v e" by (simp add: put_all_def p)
  have srt: "sorted_wrt (\<lambda>p q. CreatedAt (snd p) < CreatedAt (snd q)) ps" "\<forall>q \<in> set ps. CreatedAt (snd q) < CreatedAt e"
    using snoc.prems by (auto simp: sorted_wrt_append p)
  note ih = snoc.IH [OF srt(1)]
  have mx: "maxSize (mem_put ?m v e) = n" using ih by (metis mem_put_cases)
  have len: "length (entries ?m) = length ps - ?k" using ih by (metis length_drop length_map size_mset)
  have "mset (entries (mem_put ?m v e)) = mset (map as_entry (drop (Suc (length ps) - nat n) (ps @ [p])))"
  proof (cases "length ps < nat n")
    case True
    then have room: "int (length (entries ?m)) < maxSize ?m" using ih len by simp
    then have "entries (mem_put ?m v e) = entries ?m @ [as_entry p]"
      by (simp add: mem_put_def Let_def as_entry_def p)
    then show ?thesis using ih True by simp
  next
    case False
    then obtain q qs where q: "drop ?k ps = q # qs" using assms(1) by (cases "drop ?k ps") auto
    have l: "int (Suc (length qs)) = n" using arg_cong [OF q, of length] False assms(1) by auto
    have "sorted_wrt (\<lambda>p q. CreatedAt (snd p) < CreatedAt (snd q)) (drop ?k ps)"
      using srt(1) by (rule sorted_wrt_drop)
    then have old: "\<forall>x \<in> set qs. CreatedAt (snd q) < CreatedAt (snd x)" using q by simp
    have "q \<in> set ps" using q by (metis in_set_dropD list.set_intros(1))
    then have "CreatedAt (snd q) < CreatedAt e" using srt(2) by blast
    then have "mset (entries (mem_put ?m v e)) = mset (map as_entry qs) + {#\<lparr>me_vec = v, me_entry = e\<rparr>#}"
      using ih q l old by (intro mem_put_drops_oldest [where old = "as_entry q"]) auto
    moreover have "drop (Suc (length ps) - nat n) ps = qs"
      using q False by (metis Suc_diff_le drop_Suc list.sel(3) not_less tl_drop)
    moreover have "Suc 0 - nat n = 0" using assms(1) by simp
    ultimately show ?thesis using False by (simp add: as_entry_def p)
  qed
  then show ?case using mx by (simp only: s length_append list.size add_Suc_right add_0_right)
qed

lemma mem_fifo_witness:
  "mset (entries (put_all [([1], demo_entry ''x'' 5), ([0], demo_entry ''y'' 6)] (new_memory_store 1)))
   = {#\<lparr>me_vec = [0], me_entry = demo_entry ''y'' 6\<rparr>#}"
  using mem_fifo [of 1 "[([1], demo_entry ''x'' 5), ([0], demo_entry ''y'' 6)]"]
  by (simp add: demo_entry_def as_entry_def)


text \<open>What the cache serves.  A hit from the in-memory store is an entry that some put left
  there, created at most \<open>ttl\<close> ago, whose vector is at least as similar to the vector of the
  prompt as the threshold says; and if there is such an entry, and the threshold is above
  -1, the lookup is a hit, counted as one, and the answer is at least as similar.
\<close>

lemma mem_lookup_spec:
  assumes "emb c prompt = Inr v"
  shows "(\<forall>e c'. cache_lookup memory_ops c (Some m) prompt now = (Inr (Some e), c') \<longrightarrow>
        (\<exists>x \<in> set (entries m). me_entry x = e \<and> now - ttl c \<le> CreatedAt e \<and> threshold c \<le> cosine_dot v (me_vec x)))
    \<and> (\<forall>x \<in> set (entries m). now - ttl c \<le> CreatedAt (me_entry x) \<and> threshold c \<le> cosine_dot v (me_vec x)
          \<and> - 1 < threshold c \<longrightarrow>
        (\<exists>y \<in> set (entries m). cosine_dot v (me_vec x) \<le> cosine_dot v (me_vec y) \<and>
           cache_lookup memory_ops c (Some m) prompt now
             = (Inr (Some (me_entry y)), c\<lparr>CacheHits := Suc (CacheHits c)\<rparr>)))"
proof (intro conjI allI impI ballI)
  fix e c'
  assume "cache_lookup memory_ops c (Some m) prompt now = (Inr (Some e), c')"
  from mem_vectors.lookup_sound [OF this] assms
  show "\<exists>x \<in> set (entries m). me_entry x = e \<and> now - ttl c \<le> CreatedAt e \<and> threshold c \<le> cosine_dot v (me_vec x)"
    by (auto simp: mem_holds_def)
next
  fix x
  assume x: "x \<in> set (entries m)" and "now - ttl c \<le> CreatedAt (me_entry x) \<and> threshold c \<le> cosine_dot v (me_vec x)
    \<and> - 1 < threshold c"
  then have "\<exists>e' u'. cache_lookup memory_ops c (Some m) prompt now = (Inr (Some e'), c\<lparr>CacheHits := Suc (CacheHits c)\<rparr>)
    \<and> (u', e') \<in> mem_holds m \<and> cosine_dot v (me_vec x) \<le> cosine_dot v u'"
    using assms by (intro mem_vectors.lookup_complete) (auto simp: mem_holds_def)
  then show "\<exists>y \<in> set (entries m). cosine_dot v (me_vec x) \<le> cosine_dot v (me_vec y) \<and>
      cache_lookup memory_ops c (Some m) prompt now = (Inr (Some (me_entry y)), c\<lparr>CacheHits := Suc (CacheHits c)\<rparr>)"
    by (auto simp: mem_holds_def)
qed

lemma mem_lookup_spec_witness:
  "\<exists>y \<in> set (entries demo_store).
     cache_lookup memory_ops (new_cache (\<lambda>_. Inr [0, 1]) (1 / 2) 4) (Some demo_store) ''p'' 10
       = (Inr (Some (me_entry y)), (new_cache (\<lambda>_. Inr [0, 1]) (1 / 2) 4)\<lparr>CacheHits := 1\<rparr>)"
proof -
  let ?c = "new_cache (\<lambda>_. Inr [0, 1]) (1 / 2) 4" and ?x = "\<lparr>me_vec = [0, 1], me_entry = demo_entry ''y'' 9\<rparr>"
  have s: "cosine_dot [0, 1] [0, 1] = 1" by (simp add: cosine_dot_def)
  have x: "?x \<in> set (entries demo_store)" by (simp add: demo_store_def)
  show ?thesis
    using mem_lookup_spec [of ?c "''p''" "[0, 1]" demo_store 10] x s
    by (fastforce simp: new_cache_def demo_entry_def)
qed



text \<open>
  The model plays no part: an answer of one model is served to a request for another with
  the same messages.
\<close>

lemma hit_of_another_model:
  "fst (cache_lookup memory_ops (new_cache (\<lambda>_. Inr [0, 1]) (1 / 2) 4) (Some demo_store) prompt 10)
     = Inr (Some (demo_entry ''y'' 9))"
proof -
  have "cosine_dot [0, 1] [0, 1] = 1" "cosine_dot [0, 1] [1, 0] = 0" by (simp_all add: cosine_dot_def)
  then show ?thesis
    by (simp add: cache_lookup_def new_cache_def memory_ops_def mem_nearest_def demo_store_def
        demo_entry_def scan_entry_def Let_def)
qed

end
