(* ===== verification/Go_Json.thy ===== *)
theory Go_Json
  imports Go_Strings
begin

section \<open>JSON\<close>

text \<open>
  What the program uses of \<open>encoding/json\<close> (Go 1.22): the scanner with its stack and its
  limit on nesting, \<open>Unmarshal\<close> and \<open>Decoder.Decode\<close> into structs, and \<open>Marshal\<close>.  A
  parsed value keeps the literals of numbers; strings are decoded to bytes.  Strings that are not
  valid UTF-8 are repaired, when parsed and when printed, with the replacement rune.
\<close>

datatype json =
    JNull
  | JBool bool
  | JNum string
  | JStr string
  | JArr "json list"
  | JObj "(string \<times> json) list"

subsection \<open>UTF-8\<close>

text \<open>\<open>utf8.DecodeRune\<close>: the length of the rune a string starts with, 0 for a byte that is not part of one.\<close>

fun in_ranges :: "(nat \<times> nat) list \<Rightarrow> string \<Rightarrow> bool" where
  "in_ranges [] s = True"
| "in_ranges (r # rs) [] = False"
| "in_ranges (r # rs) (c # s) = (fst r \<le> of_char c \<and> of_char c \<le> snd r \<and> in_ranges rs s)"

definition tail_ranges :: "nat \<Rightarrow> (nat \<times> nat) list option" where
  "tail_ranges b =
     (if b < 0x80 then Some []
      else if b < 0xC2 then None
      else if b \<le> 0xDF then Some [(0x80, 0xBF)]
      else if b \<le> 0xEF then Some [(if b = 0xE0 then 0xA0 else 0x80, if b = 0xED then 0x9F else 0xBF), (0x80, 0xBF)]
      else if b \<le> 0xF4 then Some [(if b = 0xF0 then 0x90 else 0x80, if b = 0xF4 then 0x8F else 0xBF), (0x80, 0xBF), (0x80, 0xBF)]
      else None)"

fun rune_len :: "string \<Rightarrow> nat" where
  "rune_len [] = 0"
| "rune_len (c # s) =
     (case tail_ranges (of_char c) of
        None \<Rightarrow> 0
      | Some rs \<Rightarrow> if in_ranges rs s then Suc (length rs) else 0)"

definition replacement :: string where
  "replacement = [CHR 0xEF, CHR 0xBF, CHR 0xBD]"

function valid_utf8 :: "string \<Rightarrow> string" where
  "valid_utf8 [] = []"
| "valid_utf8 (c # s) =
     (let n = rune_len (c # s)
      in if n = 0 then replacement @ valid_utf8 s else take n (c # s) @ valid_utf8 (drop n (c # s)))"
  by pat_completeness auto
termination by (relation "measure length") auto

text \<open>\<open>utf8.EncodeRune\<close> of a code point that is not a surrogate.\<close>

definition encode_rune :: "nat \<Rightarrow> string" where
  "encode_rune r =
     (if r < 0x80 then [char_of r]
      else if r < 0x800 then [char_of (0xC0 + r div 0x40), char_of (0x80 + r mod 0x40)]
      else if r < 0x10000
      then [char_of (0xE0 + r div 0x1000), char_of (0x80 + r div 0x40 mod 0x40), char_of (0x80 + r mod 0x40)]
      else [char_of (0xF0 + r div 0x40000), char_of (0x80 + r div 0x1000 mod 0x40),
            char_of (0x80 + r div 0x40 mod 0x40), char_of (0x80 + r mod 0x40)])"

subsection \<open>Strings\<close>

definition bslash :: char where "bslash = CHR 0x5C"
definition dquote :: char where "dquote = CHR 0x22"

definition hex_val :: "char \<Rightarrow> nat option" where
  "hex_val c =
     (let n = of_char c :: nat
      in if 48 \<le> n \<and> n \<le> 57 then Some (n - 48)
         else if 97 \<le> n \<and> n \<le> 102 then Some (n - 87)
         else if 65 \<le> n \<and> n \<le> 70 then Some (n - 55)
         else None)"

text \<open>The four digits of a \<open>\u\<close> escape, and the rest.\<close>

fun hex_digits :: "nat \<Rightarrow> nat \<Rightarrow> string \<Rightarrow> (nat \<times> string) option" where
  "hex_digits 0 r s = Some (r, s)"
| "hex_digits (Suc k) r [] = None"
| "hex_digits (Suc k) r (c # s) =
     (case hex_val c of None \<Rightarrow> None | Some d \<Rightarrow> hex_digits k (16 * r + d) s)"

text \<open>
  What follows \<open>\u\<close>.  A surrogate must be the first half of a pair; if it is not, the
  replacement rune stands for it and what follows is read on its own.
\<close>

definition u_escape :: "string \<Rightarrow> (string \<times> string) option" where
  "u_escape s =
     (case hex_digits 4 0 s of
        None \<Rightarrow> None
      | Some (r, t) \<Rightarrow>
          if r < 0xD800 \<or> 0xE000 \<le> r then Some (encode_rune r, t)
          else case (if take 2 t = [bslash, CHR ''u''] then hex_digits 4 0 (drop 2 t) else None) of
                 None \<Rightarrow> Some (replacement, t)
               | Some (r2, t2) \<Rightarrow>
                   if r < 0xDC00 \<and> 0xDC00 \<le> r2 \<and> r2 < 0xE000
                   then Some (encode_rune (0x10000 + (r - 0xD800) * 0x400 + (r2 - 0xDC00)), t2)
                   else Some (replacement, t))"

definition simple_escape :: "char \<Rightarrow> char option" where
  "simple_escape c =
     map_of [(dquote, dquote), (bslash, bslash), (CHR ''/'', CHR ''/''), (CHR ''b'', CHR 0x08),
       (CHR ''f'', CHR 0x0C), (CHR ''n'', CHR 0x0A), (CHR ''r'', CHR 0x0D), (CHR ''t'', CHR 0x09)] c"

definition prepend :: "string \<Rightarrow> (string \<times> string) option \<Rightarrow> (string \<times> string) option" where
  "prepend b r = map_option (\<lambda>(s, t). (b @ s, t)) r"

lemma hex_digits_length: "hex_digits k r s = Some (v, t) \<Longrightarrow> length t \<le> length s"
  by (induction k r s rule: hex_digits.induct) (auto split: option.splits)

lemma u_escape_length: "u_escape s = Some (b, t) \<Longrightarrow> length t \<le> length s"
  by (auto simp: u_escape_def dest!: hex_digits_length split: option.splits if_splits)

text \<open>From after the opening quote: the bytes of the string, and the rest after the closing quote.\<close>

function scan_string :: "string \<Rightarrow> (string \<times> string) option" where
  "scan_string [] = None"
| "scan_string (c # s) =
     (if c = dquote then Some ([], s)
      else if c = bslash
      then (case s of
              [] \<Rightarrow> None
            | e # t \<Rightarrow>
                if e = CHR ''u''
                then (case u_escape t of None \<Rightarrow> None | Some (b, u) \<Rightarrow> prepend b (scan_string u))
                else (case simple_escape e of None \<Rightarrow> None | Some b \<Rightarrow> prepend [b] (scan_string t)))
      else if of_char c < (0x20 :: nat) then None
      else let n = rune_len (c # s)
           in if n = 0 then prepend replacement (scan_string s)
              else prepend (take n (c # s)) (scan_string (drop n (c # s))))"
  by pat_completeness auto
termination by (relation "measure length") (auto dest: u_escape_length)

lemma scan_string_length: "scan_string s = Some (v, t) \<Longrightarrow> length t < length s"
proof (induction s arbitrary: v t rule: scan_string.induct)
  case (2 c s)
  have p: "prepend b r = Some (v, t) \<Longrightarrow> \<exists>w. r = Some (w, t)" for b r
    by (auto simp: prepend_def)
  consider "c = dquote" | "c \<noteq> dquote" "c = bslash" | "c \<noteq> dquote" "c \<noteq> bslash" by blast
  then show ?case
  proof cases
    case 1
    then show ?thesis using 2(5) by simp
  next
    case b: 2
    then obtain e u where s: "s = e # u" using 2(5) by (auto split: list.splits)
    show ?thesis
    proof (cases "e = CHR ''u''")
      case True
      obtain x w where e: "u_escape u = Some (x, w)" using 2(5) b s True by (auto split: option.splits)
      then obtain y where y: "scan_string w = Some (y, t)" using 2(5) b s True p by auto
      have "length t < length w" by (rule 2(1) [OF _ _ s True e _ y]) (use b in simp_all)
      then show ?thesis using u_escape_length [OF e] s by simp
    next
      case False
      obtain x where e: "simple_escape e = Some x" using 2(5) b s False by (auto split: option.splits)
      then obtain y where y: "scan_string u = Some (y, t)" using 2(5) b s False p by auto
      have "length t < length u" by (rule 2(2) [OF _ _ s False e y]) (use b in simp_all)
      then show ?thesis using s by simp
    qed
  next
    case b: 3
    then have lo: "\<not> of_char c < (0x20 :: nat)" using 2(5) by (auto split: if_splits)
    show ?thesis
    proof (cases "rune_len (c # s) = 0")
      case True
      then obtain y where y: "scan_string s = Some (y, t)" using 2(5) b lo p by (auto simp: Let_def)
      have "length t < length s" by (rule 2(3) [OF _ _ lo refl True y]) (use b in simp_all)
      then show ?thesis by simp
    next
      case False
      then obtain y where y: "scan_string (drop (rune_len (c # s)) (c # s)) = Some (y, t)"
        using 2(5) b lo p by (auto simp: Let_def)
      have "length t < length (drop (rune_len (c # s)) (c # s))"
        by (rule 2(4) [OF _ _ lo refl False y]) (use b in simp_all)
      then show ?thesis by simp
    qed
  qed
qed simp

subsection \<open>Numbers\<close>

text \<open>A number is the longest prefix that fits the grammar; a point or an exponent needs digits.\<close>

definition opt_digits :: "string \<Rightarrow> string \<Rightarrow> (string \<times> string) option" where
  "opt_digits intro s =
     (if takeWhile is_digit s = [] then None else Some (intro @ takeWhile is_digit s, dropWhile is_digit s))"

definition scan_int :: "string \<Rightarrow> (string \<times> string) option" where
  "scan_int s =
     (case s of
        [] \<Rightarrow> None
      | c # t \<Rightarrow>
          if \<not> is_digit c then None
          else if c = CHR ''0'' then Some ([c], t)
          else Some (takeWhile is_digit s, dropWhile is_digit s))"

definition scan_frac :: "string \<Rightarrow> (string \<times> string) option" where
  "scan_frac s =
     (if s \<noteq> [] \<and> hd s = CHR ''.'' then opt_digits ''.'' (tl s) else Some ([], s))"

definition scan_exp :: "string \<Rightarrow> (string \<times> string) option" where
  "scan_exp s =
     (if s \<noteq> [] \<and> (hd s = CHR ''e'' \<or> hd s = CHR ''E'')
      then (if tl s \<noteq> [] \<and> (hd (tl s) = CHR ''+'' \<or> hd (tl s) = CHR ''-'')
            then opt_digits [hd s, hd (tl s)] (tl (tl s))
            else opt_digits [hd s] (tl s))
      else Some ([], s))"

definition scan_unsigned :: "string \<Rightarrow> (string \<times> string) option" where
  "scan_unsigned s =
     (case scan_int s of
        None \<Rightarrow> None
      | Some (i, s) \<Rightarrow>
          (case scan_frac s of
             None \<Rightarrow> None
           | Some (f, s) \<Rightarrow> prepend (i @ f) (scan_exp s)))"

definition scan_number :: "string \<Rightarrow> (string \<times> string) option" where
  "scan_number s =
     (if s \<noteq> [] \<and> hd s = CHR ''-'' then prepend ''-'' (scan_unsigned (tl s)) else scan_unsigned s)"

lemma opt_digits_length: "opt_digits i s = Some (v, t) \<Longrightarrow> length t \<le> length s"
  by (auto simp: opt_digits_def length_dropWhile_le split: if_splits)

lemma scan_unsigned_length: "scan_unsigned s = Some (v, t) \<Longrightarrow> length t < length s"
proof -
  assume s: "scan_unsigned s = Some (v, t)"
  then obtain i s1 f s2 e where i: "scan_int s = Some (i, s1)" "scan_frac s1 = Some (f, s2)" "scan_exp s2 = Some (e, t)"
    by (auto simp: scan_unsigned_def prepend_def split: option.splits)
  have "length s1 < length s"
    using i(1) by (auto simp: scan_int_def le_imp_less_Suc length_dropWhile_le split: list.splits if_splits)
  moreover have "length s2 \<le> length s1"
    using i(2) opt_digits_length [of _ "tl s1"] by (fastforce simp: scan_frac_def split: if_splits)
  moreover have "length t \<le> length s2"
    using i(3) opt_digits_length [of _ "tl s2" e t] opt_digits_length [of _ "tl (tl s2)" e t]
    by (fastforce simp: scan_exp_def split: if_splits)
  ultimately show ?thesis by linarith
qed

lemma scan_number_length: "scan_number s = Some (v, t) \<Longrightarrow> length t < length s"
  using scan_unsigned_length [of s v t] scan_unsigned_length [of "tl s" _ t]
  by (cases s) (fastforce simp: scan_number_def prepend_def split: if_splits)+

subsection \<open>Values\<close>

text \<open>
  The scanner's stack: an array with the elements so far, or an object with the members so
  far and the key whose value is being read.  \<open>ReadValue\<close> and \<open>ReadKey\<close> say what comes next, with
  \<open>True\<close> if the closing bracket may come instead; \<open>GotValue\<close> carries the value just completed.
\<close>

datatype frame = ArrFrame "json list" | ObjFrame "(string \<times> json) list" string

datatype mode = ReadValue bool | ReadKey bool | GotValue json

definition is_ws :: "char \<Rightarrow> bool" where
  "is_ws c \<longleftrightarrow> c = CHR 0x20 \<or> c = CHR 0x09 \<or> c = CHR 0x0D \<or> c = CHR 0x0A"

definition skip_ws :: "string \<Rightarrow> string" where
  "skip_ws s = dropWhile is_ws s"

definition max_nesting :: nat where "max_nesting = 10000"

definition scan_scalar :: "string \<Rightarrow> (json \<times> string) option" where
  "scan_scalar s =
     (if s \<noteq> [] \<and> hd s = dquote then map_option (map_prod JStr id) (scan_string (tl s))
      else if prefix ''true'' s then Some (JBool True, drop 4 s)
      else if prefix ''false'' s then Some (JBool False, drop 5 s)
      else if prefix ''null'' s then Some (JNull, drop 4 s)
      else map_option (map_prod JNum id) (scan_number s))"

lemma skip_ws_length: "skip_ws s = c # t \<Longrightarrow> length t < length s"
  unfolding skip_ws_def by (metis length_dropWhile_le length_Cons less_eq_Suc_le)

lemma scan_scalar_length: "scan_scalar s = Some (v, t) \<Longrightarrow> length t < length s"
  by (cases s) (auto simp: scan_scalar_def map_prod_def dest!: scan_string_length scan_number_length split: if_splits)

function (sequential) parse :: "frame list \<Rightarrow> mode \<Rightarrow> string \<Rightarrow> (json \<times> string) option" where
  "parse [] (GotValue v) s = Some (v, s)"
| "parse (ArrFrame vs # st) (GotValue v) s =
     (case skip_ws s of
        [] \<Rightarrow> None
      | c # t \<Rightarrow>
          if c = CHR '','' then parse (ArrFrame (vs @ [v]) # st) (ReadValue False) t
          else if c = CHR '']'' then parse st (GotValue (JArr (vs @ [v]))) t
          else None)"
| "parse (ObjFrame kvs k # st) (GotValue v) s =
     (case skip_ws s of
        [] \<Rightarrow> None
      | c # t \<Rightarrow>
          if c = CHR '','' then parse (ObjFrame (kvs @ [(k, v)]) [] # st) (ReadKey False) t
          else if c = CHR ''}'' then parse st (GotValue (JObj (kvs @ [(k, v)]))) t
          else None)"
| "parse st (ReadValue close) s =
     (case skip_ws s of
        [] \<Rightarrow> None
      | c # t \<Rightarrow>
          if close \<and> c = CHR '']''
          then (case st of ArrFrame vs # st \<Rightarrow> parse st (GotValue (JArr vs)) t | _ \<Rightarrow> None)
          else if c = CHR ''['' then (if length st < max_nesting then parse (ArrFrame [] # st) (ReadValue True) t else None)
          else if c = CHR ''{'' then (if length st < max_nesting then parse (ObjFrame [] [] # st) (ReadKey True) t else None)
          else (case scan_scalar (c # t) of None \<Rightarrow> None | Some (v, u) \<Rightarrow> parse st (GotValue v) u))"
| "parse st (ReadKey close) s =
     (case st of
        ObjFrame kvs k0 # st' \<Rightarrow>
          (case skip_ws s of
             [] \<Rightarrow> None
           | c # t \<Rightarrow>
               if close \<and> c = CHR ''}'' then parse st' (GotValue (JObj kvs)) t
               else if c = dquote
               then (case scan_string t of
                       None \<Rightarrow> None
                     | Some (k, u) \<Rightarrow>
                         (case skip_ws u of
                            [] \<Rightarrow> None
                          | d # w \<Rightarrow> if d = CHR '':'' then parse (ObjFrame kvs k # st') (ReadValue False) w else None))
               else None)
      | _ \<Rightarrow> None)"
  by pat_completeness auto
termination
  by (relation "measure (\<lambda>(st, m, s). length s)")
     (auto dest!: skip_ws_length scan_scalar_length scan_string_length)

declare parse.simps [simp del]

text \<open>
  The syntax of a whole document, as \<open>Unmarshal\<close> checks it before it decodes, and of the
  first value of a stream, as \<open>Decoder.Decode\<close> reads it.
\<close>

definition parse_document :: "string \<Rightarrow> json option" where
  "parse_document s =
     (case parse [] (ReadValue False) s of
        Some (v, t) \<Rightarrow> if skip_ws t = [] then Some v else None
      | None \<Rightarrow> None)"

definition parse_first :: "string \<Rightarrow> json option" where
  "parse_first s = map_option fst (parse [] (ReadValue False) s)"

subsection \<open>Printing\<close>

definition hex_digit :: "nat \<Rightarrow> char" where
  "hex_digit n = char_of (if n < 10 then 48 + n else 87 + n)"

text \<open>One byte below 0x80, with the escapes of \<open>htmlSafeSet\<close>.\<close>

definition escape_byte :: "char \<Rightarrow> string" where
  "escape_byte c =
     (if c = dquote \<or> c = bslash then [bslash, c]
      else if c = CHR 0x08 then [bslash, CHR ''b'']
      else if c = CHR 0x0C then [bslash, CHR ''f'']
      else if c = CHR 0x0A then [bslash, CHR ''n'']
      else if c = CHR 0x0D then [bslash, CHR ''r'']
      else if c = CHR 0x09 then [bslash, CHR ''t'']
      else if of_char c < (0x20 :: nat) \<or> c = CHR ''<'' \<or> c = CHR ''>'' \<or> c = CHR ''&''
      then [bslash, CHR ''u'', CHR ''0'', CHR ''0'', hex_digit (of_char c div 16), hex_digit (of_char c mod 16)]
      else [c])"

function escape_string :: "string \<Rightarrow> string" where
  "escape_string [] = []"
| "escape_string (c # s) =
     (let n = rune_len (c # s)
      in if n = 0 then [bslash] @ ''ufffd'' @ escape_string s
         else if n = 1 then escape_byte c @ escape_string s
         else if take n (c # s) = [CHR 0xE2, CHR 0x80, CHR 0xA8] then [bslash] @ ''u2028'' @ escape_string (drop n (c # s))
         else if take n (c # s) = [CHR 0xE2, CHR 0x80, CHR 0xA9] then [bslash] @ ''u2029'' @ escape_string (drop n (c # s))
         else take n (c # s) @ escape_string (drop n (c # s)))"
  by pat_completeness auto
termination by (relation "measure length") auto

definition quote :: "string \<Rightarrow> string" where
  "quote s = [dquote] @ escape_string s @ [dquote]"

fun marshal :: "json \<Rightarrow> string" where
  "marshal JNull = ''null''"
| "marshal (JBool b) = (if b then ''true'' else ''false'')"
| "marshal (JNum n) = n"
| "marshal (JStr s) = quote s"
| "marshal (JArr vs) = ''['' @ join '','' (map marshal vs) @ '']''"
| "marshal (JObj kvs) = ''{'' @ join '','' (map (\<lambda>(k, v). quote k @ '':'' @ marshal v) kvs) @ ''}''"

text \<open>Integers in decimal.\<close>

fun show_nat :: "nat \<Rightarrow> string" where
  "show_nat n = (if n < 10 then [char_of (48 + n)] else show_nat (n div 10) @ [char_of (48 + n mod 10)])"

declare show_nat.simps [simp del]

definition show_int :: "int \<Rightarrow> string" where
  "show_int i = (if i < 0 then ''-'' @ show_nat (nat (- i)) else show_nat (nat i))"

text \<open>\<open>%.*f\<close> of a number, with the digits correctly rounded.\<close>

definition format_f :: "nat \<Rightarrow> float64 \<Rightarrow> string" where
  "format_f k x =
     (let n = nat (round_even (\<bar>x\<bar> * 10 ^ k));
          frac = show_nat (n mod 10 ^ k)
      in (if x < 0 then ''-'' else []) @ show_nat (n div 10 ^ k)
         @ (if k = 0 then [] else ''.'' @ replicate (k - length frac) CHR ''0'' @ frac))"

subsection \<open>Decoding into structs\<close>

text \<open>
  A decoder takes the value that is there already: a member given twice decodes into what
  the first one left, \<open>null\<close> leaves most values alone, and the elements of an array are
  decoded into the old elements of the slice, those beyond its length included.  A slice is
  therefore its elements and the rest of its backing array.  A type error makes the whole
  call fail, so it is \<open>None\<close>.
\<close>

type_synonym 'a decoder = "'a \<Rightarrow> json \<Rightarrow> 'a option"

function fold_name :: "string \<Rightarrow> string" where
  "fold_name [] = []"
| "fold_name (c # s) =
     (if c = CHR 0xC5 \<and> take 1 s = [CHR 0xBF] then CHR ''S'' # fold_name (drop 1 s)
      else if c = CHR 0xE2 \<and> take 2 s = [CHR 0x84, CHR 0xAA] then CHR ''K'' # fold_name (drop 2 s)
      else if (97 :: nat) \<le> of_char c \<and> of_char c \<le> (122 :: nat) then char_of (of_char c - 32 :: nat) # fold_name s
      else c # fold_name s)"
  by pat_completeness auto
termination by (relation "measure length") auto

text \<open>The field a key stands for: the exact name, or else one that differs in case only.\<close>

definition find_field :: "string list \<Rightarrow> string \<Rightarrow> string option" where
  "find_field names k =
     (if k \<in> set names then Some k else find (\<lambda>n. fold_name n = fold_name k) names)"

fun decode_members :: "(string \<times> 'a decoder) list \<Rightarrow> (string \<times> json) list \<Rightarrow> 'a \<Rightarrow> 'a option" where
  "decode_members fs [] a = Some a"
| "decode_members fs ((k, v) # kvs) a =
     (case Option.bind (find_field (map fst fs) k) (map_of fs) of
        None \<Rightarrow> decode_members fs kvs a
      | Some d \<Rightarrow> (case d a v of None \<Rightarrow> None | Some b \<Rightarrow> decode_members fs kvs b))"

definition decode_struct :: "(string \<times> 'a decoder) list \<Rightarrow> 'a decoder" where
  "decode_struct fs a j =
     (case j of JNull \<Rightarrow> Some a | JObj kvs \<Rightarrow> decode_members fs kvs a | _ \<Rightarrow> None)"

text \<open>A decoder for one field of a record.\<close>

definition at_field :: "('a \<Rightarrow> 'b) \<Rightarrow> ('b \<Rightarrow> 'a \<Rightarrow> 'a) \<Rightarrow> 'b decoder \<Rightarrow> 'a decoder" where
  "at_field get put d a j = map_option (\<lambda>x. put x a) (d (get a) j)"

type_synonym 'a slice = "'a list \<times> 'a list"

fun decode_elems :: "'a decoder \<Rightarrow> 'a \<Rightarrow> 'a list \<Rightarrow> json list \<Rightarrow> 'a slice option" where
  "decode_elems d zero old [] = Some ([], old)"
| "decode_elems d zero old (j # js) =
     (case d (case old of [] \<Rightarrow> zero | x # _ \<Rightarrow> x) j of
        None \<Rightarrow> None
      | Some y \<Rightarrow> map_option (\<lambda>(ys, rest). (y # ys, rest)) (decode_elems d zero (tl old) js))"

definition decode_slice :: "'a decoder \<Rightarrow> 'a \<Rightarrow> 'a slice decoder" where
  "decode_slice d zero a j =
     (case j of
        JNull \<Rightarrow> Some ([], [])
      | JArr js \<Rightarrow> if js = [] then Some ([], []) else decode_elems d zero (fst a @ snd a) js
      | _ \<Rightarrow> None)"

definition decode_string :: "string decoder" where
  "decode_string a j = (case j of JNull \<Rightarrow> Some a | JStr s \<Rightarrow> Some s | _ \<Rightarrow> None)"

definition decode_bool :: "bool decoder" where
  "decode_bool a j = (case j of JNull \<Rightarrow> Some a | JBool b \<Rightarrow> Some b | _ \<Rightarrow> None)"

definition decode_int :: "int decoder" where
  "decode_int a j = (case j of JNull \<Rightarrow> Some a | JNum n \<Rightarrow> atoi n | _ \<Rightarrow> None)"

text \<open>The value of a literal, exactly; a literal beyond the range of \<open>float64\<close> is an error.\<close>

definition literal_value :: "string \<Rightarrow> rat" where
  "literal_value n =
     (let neg = (n \<noteq> [] \<and> hd n = CHR ''-'');
          s = (if neg then tl n else n);
          i = takeWhile is_digit s;
          s = dropWhile is_digit s;
          f = (if s \<noteq> [] \<and> hd s = CHR ''.'' then takeWhile is_digit (tl s) else []);
          s = (if s \<noteq> [] \<and> hd s = CHR ''.'' then dropWhile is_digit (tl s) else s);
          e = (if s = [] then 0 else
                 let t = tl s; eneg = (t \<noteq> [] \<and> hd t = CHR ''-'');
                     t = (if t \<noteq> [] \<and> (hd t = CHR ''+'' \<or> hd t = CHR ''-'') then tl t else t);
                     x = (case digits_value 0 t of Some x \<Rightarrow> x | None \<Rightarrow> 0)
                 in if eneg then - x else x);
          m = (case digits_value 0 (i @ f) of Some m \<Rightarrow> m | None \<Rightarrow> 0);
          v = of_int m * 10 powi (e - int (length f))
      in if neg then - v else v)"

definition decode_float64 :: "float64 decoder" where
  "decode_float64 a j =
     (case j of
        JNull \<Rightarrow> Some a
      | JNum n \<Rightarrow> if \<bar>literal_value n\<bar> < 2 ^ 1024 - 2 ^ 970 then Some (fl64 (literal_value n)) else None
      | _ \<Rightarrow> None)"

text \<open>
  The anonymous structs through which the gateway and the load generator look into a
  completion: the content of the first choice's \<open>delta\<close> or \<open>message\<close>, or \<open>None\<close> if the
  payload does not decode or has no choice.
\<close>

definition decode_choice :: "string \<Rightarrow> string decoder" where
  "decode_choice inner = decode_struct [(inner, decode_struct [(''content'', decode_string)])]"

definition decode_choices :: "string \<Rightarrow> string slice decoder" where
  "decode_choices inner = decode_struct [(''choices'', decode_slice (decode_choice inner) [])]"

definition first_content :: "string \<Rightarrow> string \<Rightarrow> string option" where
  "first_content inner payload =
     (case parse_document payload of
        None \<Rightarrow> None
      | Some v \<Rightarrow>
          (case decode_choices inner ([], []) v of
             None \<Rightarrow> None
           | Some (cs, _) \<Rightarrow> (case cs of [] \<Rightarrow> None | c # _ \<Rightarrow> Some c)))"

subsection \<open>Runes\<close>

lemma in_ranges_append:
  "in_ranges rs s \<Longrightarrow> length rs \<le> length s \<and> in_ranges rs (take (length rs) s @ u)"
  by (induction rs s rule: in_ranges.induct) auto

lemma in_ranges_high:
  "in_ranges rs s \<Longrightarrow> \<forall>r \<in> set rs. 0x80 \<le> fst r \<Longrightarrow> \<forall>c \<in> set (take (length rs) s). (0x80 :: nat) \<le> of_char c"
  by (induction rs s rule: in_ranges.induct) auto

lemma tail_ranges_high: "tail_ranges b = Some rs \<Longrightarrow> \<forall>r \<in> set rs. 0x80 \<le> fst r"
  by (auto simp: tail_ranges_def split: if_splits)

lemma tail_ranges_Nil: "tail_ranges b = Some [] \<longleftrightarrow> b < 0x80"
  by (auto simp: tail_ranges_def)

lemma rune_len_le: "rune_len s \<le> length s"
  by (cases s) (auto simp: in_ranges_append split: option.splits)

lemma rune_len_append:
  assumes "rune_len s \<noteq> 0"
  shows "rune_len (take (rune_len s) s @ u) = rune_len s"
  using assms by (cases s) (auto simp: in_ranges_append split: option.splits if_splits)

lemma rune_len_one: "rune_len (c # s) = 1 \<longleftrightarrow> of_char c < (0x80 :: nat)"
  by (auto simp: tail_ranges_Nil [symmetric] split: option.splits if_splits)

lemma rune_bytes_high:
  assumes "rune_len (c # s) \<noteq> 0" "rune_len (c # s) \<noteq> 1"
  shows "\<forall>d \<in> set (take (rune_len (c # s)) (c # s)). (0x80 :: nat) \<le> of_char d"
proof -
  have c: "(0x80 :: nat) \<le> of_char c" using assms(2) rune_len_one [of c s] by simp
  obtain rs where rs: "tail_ranges (of_char c) = Some rs" "in_ranges rs s"
    using assms(1) by (auto split: option.splits if_splits)
  then show ?thesis using c in_ranges_high [OF rs(2) tail_ranges_high [OF rs(1)]] by simp
qed

subsection \<open>Strings come back\<close>

lemma prepend_Some [simp]: "prepend b (Some (s, t)) = Some (b @ s, t)"
  by (simp add: prepend_def)

lemma hex_val_digit: "n < 16 \<Longrightarrow> hex_val (hex_digit n) = Some n"
  by (auto simp: hex_val_def hex_digit_def)

lemma hex_digits_4:
  assumes "hex_val a = Some w" "hex_val b = Some x" "hex_val c = Some y" "hex_val d = Some z"
  shows "hex_digits 4 0 (a # b # c # d # r) = Some (16 * (16 * (16 * w + x) + y) + z, r)"
proof -
  have four: "4 = Suc (Suc (Suc (Suc 0)))" by simp
  show ?thesis using assms by (subst four) simp
qed

lemma scan_u_escape:
  "u_escape (s @ r) = Some (b, r) \<Longrightarrow> scan_string (bslash # CHR ''u'' # s @ r) = prepend b (scan_string r)"
  by (simp add: bslash_def dquote_def)

lemma scan_escape_byte:
  assumes "of_char c < (0x80 :: nat)"
  shows "scan_string (escape_byte c @ r) = prepend [c] (scan_string r)"
proof (cases "c \<in> {dquote, bslash, CHR 0x08, CHR 0x0C, CHR 0x0A, CHR 0x0D, CHR 0x09}")
  case True
  then obtain e where e: "escape_byte c = [bslash, e]" "simple_escape e = Some c" "e \<noteq> CHR ''u''"
    by (auto simp: escape_byte_def simple_escape_def dquote_def bslash_def)
  have "e = dquote \<or> e \<noteq> dquote" by blast
  then show ?thesis using e by (simp add: bslash_def dquote_def)
next
  case s: False
  show ?thesis
  proof (cases "of_char c < (0x20 :: nat) \<or> c = CHR ''<'' \<or> c = CHR ''>'' \<or> c = CHR ''&''")
    case True
    then have e: "escape_byte c =
        bslash # CHR ''u'' # [CHR ''0'', CHR ''0'', hex_digit (of_char c div 16), hex_digit (of_char c mod 16)]"
      using s by (simp add: escape_byte_def)
    have z: "hex_val CHR ''0'' = Some 0" by (simp add: hex_val_def)
    have "hex_digits 4 0 (CHR ''0'' # CHR ''0'' # hex_digit (of_char c div 16) # hex_digit (of_char c mod 16) # r)
        = Some (of_char c, r)"
      using assms hex_digits_4 [OF z z hex_val_digit hex_val_digit, of "of_char c div 16" "of_char c mod 16" r] by simp
    then have "u_escape ([CHR ''0'', CHR ''0'', hex_digit (of_char c div 16), hex_digit (of_char c mod 16)] @ r) = Some ([c], r)"
      using assms by (simp add: u_escape_def encode_rune_def)
    from scan_u_escape [OF this] show ?thesis by (simp add: e)
  next
    case False
    then have "escape_byte c = [c]" "c \<noteq> dquote" "c \<noteq> bslash" using s by (auto simp: escape_byte_def)
    moreover have "rune_len (c # r) = 1" using assms rune_len_one by blast
    ultimately show ?thesis using False by simp
  qed
qed

lemma rune_chars:
  "[char_of (239 :: nat), char_of (191 :: nat), char_of (189 :: nat)] = [CHR 0xEF, CHR 0xBF, CHR 0xBD]"
  "[char_of (226 :: nat), char_of (128 :: nat), char_of (168 :: nat), char_of (169 :: nat)] = [CHR 0xE2, CHR 0x80, CHR 0xA8, CHR 0xA9]"
  by code_simp+

lemma u_escape_literals:
  "u_escape (''fffd'' @ r) = Some (replacement, r)"
  "u_escape (''2028'' @ r) = Some ([CHR 0xE2, CHR 0x80, CHR 0xA8], r)"
  "u_escape (''2029'' @ r) = Some ([CHR 0xE2, CHR 0x80, CHR 0xA9], r)"
  by (simp_all add: u_escape_def hex_digits_4 hex_val_def encode_rune_def replacement_def rune_chars [simplified])

lemma scan_plain_rune:
  assumes "rune_len (c # s) \<noteq> 0" "rune_len (c # s) \<noteq> 1"
  shows "scan_string (take (rune_len (c # s)) (c # s) @ r) = prepend (take (rune_len (c # s)) (c # s)) (scan_string r)"
proof -
  let ?n = "rune_len (c # s)"
  obtain m where m: "?n = Suc m" using assms(1) by (cases ?n) auto
  have c: "(0x80 :: nat) \<le> of_char c" using assms(2) rune_len_one [of c s] by simp
  have t: "take ?n (c # s) @ r = c # (take m s @ r)" by (simp add: m del: rune_len.simps)
  have n: "rune_len (c # (take m s @ r)) = ?n" using rune_len_append [OF assms(1), of r] t by simp
  have l: "length (take m s) = m" using rune_len_le [of "c # s"] m by simp
  have "c \<noteq> dquote" "c \<noteq> bslash" "\<not> of_char c < (0x20 :: nat)" using c by (auto simp: dquote_def bslash_def)
  then have "scan_string (c # (take m s @ r))
      = prepend (take ?n (c # (take m s @ r))) (scan_string (drop ?n (c # (take m s @ r))))"
    using n assms(1) by (simp add: Let_def del: rune_len.simps)
  then show ?thesis unfolding t using l by (simp add: m del: rune_len.simps)
qed

text \<open>What is printed for a string is read back as the string with its invalid bytes replaced.\<close>

lemma scan_escape_string: "scan_string (escape_string s @ dquote # rest) = Some (valid_utf8 s, rest)"
proof (induction s rule: escape_string.induct)
  case 1
  then show ?case by simp
next
  case (2 c s)
  let ?n = "rune_len (c # s)"
  note u = scan_u_escape [OF u_escape_literals(1)] scan_u_escape [OF u_escape_literals(2)] scan_u_escape [OF u_escape_literals(3)]
  consider "?n = 0" | "?n = 1" | "?n \<noteq> 0" "?n \<noteq> 1" "take ?n (c # s) = [CHR 0xE2, CHR 0x80, CHR 0xA8]"
    | "?n \<noteq> 0" "?n \<noteq> 1" "take ?n (c # s) = [CHR 0xE2, CHR 0x80, CHR 0xA9]"
    | "?n \<noteq> 0" "?n \<noteq> 1" "take ?n (c # s) \<noteq> [CHR 0xE2, CHR 0x80, CHR 0xA8]"
      "take ?n (c # s) \<noteq> [CHR 0xE2, CHR 0x80, CHR 0xA9]" by blast
  then show ?case
  proof cases
    case 1
    then show ?thesis using 2(1) [OF refl 1] u(1) by (simp del: rune_len.simps scan_string.simps)
  next
    case n: 2
    then have "of_char c < (0x80 :: nat)" by (simp only: rune_len_one)
    then show ?thesis using 2(2) [OF refl _ n] n scan_escape_byte by (simp del: rune_len.simps scan_string.simps)
  next
    case 3
    then show ?thesis using 2(3) [OF refl 3] u(2) by (simp del: rune_len.simps scan_string.simps)
  next
    case 4
    then have "take ?n (c # s) \<noteq> [CHR 0xE2, CHR 0x80, CHR 0xA8]" by simp
    then show ?thesis using 2(4) [OF refl 4(1,2) _ 4(3)] 4 u(3) by (simp del: rune_len.simps scan_string.simps)
  next
    case 5
    then show ?thesis using 2(5) [OF refl 5] scan_plain_rune [OF 5(1,2)]
      by (simp add: Let_def del: rune_len.simps scan_string.simps)
  qed
qed

subsection \<open>Numbers come back\<close>

definition ends_number :: "string \<Rightarrow> bool" where
  "ends_number s \<longleftrightarrow> s = [] \<or> \<not> is_digit (hd s) \<and> hd s \<notin> {CHR ''.'', CHR ''e'', CHR ''E''}"

lemma digits_append:
  assumes "ends_number r"
  shows "takeWhile is_digit (s @ r) = takeWhile is_digit s" "dropWhile is_digit (s @ r) = dropWhile is_digit s @ r"
proof -
  have "takeWhile is_digit r = []" "dropWhile is_digit r = r"
    using assms by (cases r; simp add: ends_number_def)+
  then show "takeWhile is_digit (s @ r) = takeWhile is_digit s" "dropWhile is_digit (s @ r) = dropWhile is_digit s @ r"
    by (induction s) auto
qed

lemma opt_digits_append:
  "ends_number r \<Longrightarrow> opt_digits i s = Some (v, t) \<Longrightarrow> opt_digits i (s @ r) = Some (v, t @ r)"
  by (auto simp: opt_digits_def digits_append split: if_splits)

lemma scan_int_append:
  "ends_number r \<Longrightarrow> scan_int s = Some (v, t) \<Longrightarrow> scan_int (s @ r) = Some (v, t @ r)"
  using digits_append [of r "tl s"]
  by (cases s) (auto simp: scan_int_def split: if_splits)

lemma scan_frac_append:
  "ends_number r \<Longrightarrow> scan_frac s = Some (v, t) \<Longrightarrow> scan_frac (s @ r) = Some (v, t @ r)"
  by (cases s; cases r) (auto simp: scan_frac_def ends_number_def opt_digits_append split: if_splits)

lemma scan_exp_append:
  assumes "ends_number r" "scan_exp s = Some (v, t)"
  shows "scan_exp (s @ r) = Some (v, t @ r)"
proof (cases s)
  case Nil
  then show ?thesis using assms by (auto simp: scan_exp_def ends_number_def)
next
  case (Cons c s')
  show ?thesis
  proof (cases s')
    case Nil
    then show ?thesis using assms Cons by (auto simp: scan_exp_def opt_digits_def split: if_splits)
  next
    case (Cons d s'')
    then show ?thesis using assms \<open>s = c # s'\<close> opt_digits_append [OF assms(1)]
      by (auto simp: scan_exp_def simp flip: append_Cons split: if_splits)
  qed
qed

lemma scan_unsigned_append:
  assumes "ends_number r" "scan_unsigned s = Some (v, t)"
  shows "scan_unsigned (s @ r) = Some (v, t @ r)"
  using assms(2) scan_int_append [OF assms(1)] scan_frac_append [OF assms(1)] scan_exp_append [OF assms(1)]
  by (fastforce simp: scan_unsigned_def prepend_def split: option.splits)

lemma scan_number_append:
  assumes "ends_number r" "scan_number s = Some (v, t)"
  shows "scan_number (s @ r) = Some (v, t @ r)"
proof (cases s)
  case Nil
  then show ?thesis using assms by (simp add: scan_number_def scan_unsigned_def scan_int_def)
next
  case (Cons c s')
  then show ?thesis using assms scan_unsigned_append [OF assms(1), of "c # s'"] scan_unsigned_append [OF assms(1), of s']
    by (auto simp: scan_number_def prepend_def split: if_splits)
qed

definition number_ok :: "string \<Rightarrow> bool" where
  "number_ok n \<longleftrightarrow> scan_number n = Some (n, [])"

lemma scan_number_first: "scan_number (c # s) = Some x \<Longrightarrow> c = CHR ''-'' \<or> is_digit c"
  by (cases x) (auto simp: scan_number_def scan_unsigned_def scan_int_def split: if_splits option.splits)

lemma number_first: "number_ok n \<Longrightarrow> \<exists>c s. n = c # s \<and> (c = CHR ''-'' \<or> is_digit c)"
  by (cases n) (auto simp: number_ok_def dest: scan_number_first, simp add: scan_number_def scan_unsigned_def scan_int_def)

lemma digit_chars: "is_digit c \<Longrightarrow> c \<in> set ''0123456789''"
proof -
  assume c: "is_digit c"
  define n where "n = (of_char c :: nat)"
  have "48 \<le> n" "n < 58" using c by (simp_all add: is_digit_def n_def)
  then have "n \<in> set [48..<58]" by (simp only: set_upt atLeastLessThan_iff)
  then have "char_of n \<in> set (map char_of [48..<58 :: nat])" unfolding set_map by (rule imageI)
  also have "map char_of [48..<58 :: nat] = ''0123456789''" by code_simp
  finally show ?thesis by (simp add: n_def)
qed

subsection \<open>Documents come back\<close>

text \<open>What printing and parsing does to a value: only strings that are not UTF-8 change.\<close>

fun repair :: "json \<Rightarrow> json" where
  "repair (JStr s) = JStr (valid_utf8 s)"
| "repair (JArr vs) = JArr (map repair vs)"
| "repair (JObj kvs) = JObj (map (\<lambda>(k, v). (valid_utf8 k, repair v)) kvs)"
| "repair v = v"

fun printable :: "json \<Rightarrow> bool" where
  "printable (JNum n) = number_ok n"
| "printable (JArr vs) = (\<forall>v \<in> set vs. printable v)"
| "printable (JObj kvs) = (\<forall>(k, v) \<in> set kvs. printable v)"
| "printable v = True"

fun depth :: "json \<Rightarrow> nat" where
  "depth (JArr vs) = Suc (fold max (map depth vs) 0)"
| "depth (JObj kvs) = Suc (fold max (map (\<lambda>(k, v). depth v) kvs) 0)"
| "depth v = 0"

lemma fold_max_ge: "x \<in> set xs \<Longrightarrow> x \<le> fold max xs (a :: nat)"
proof (induction xs arbitrary: a)
  case (Cons y xs)
  have base: "b \<le> fold max xs b" for b
    by (induction xs arbitrary: b) (auto intro: order_trans [OF max.cobounded2])
  show ?case using Cons base [of "max y a"] by (auto intro: order_trans [OF max.cobounded1])
qed simp

lemma depth_elem: "v \<in> set vs \<Longrightarrow> depth v < depth (JArr vs)"
  using fold_max_ge [of "depth v" "map depth vs" 0] by simp

lemma depth_member: "(k, v) \<in> set kvs \<Longrightarrow> depth v < depth (JObj kvs)"
  using fold_max_ge [of "depth v" "map (\<lambda>(k, v). depth v) kvs" 0] by force

text \<open>What may follow a value inside a document.\<close>

definition follows :: "string \<Rightarrow> bool" where
  "follows r \<longleftrightarrow> r = [] \<or> hd r \<in> {CHR '','', CHR '']'', CHR ''}'', CHR 0x0A}"

lemma follows_ends: "follows r \<Longrightarrow> ends_number r"
  by (auto simp: follows_def ends_number_def is_digit_def)

lemma skip_ws_first [simp]: "\<not> is_ws c \<Longrightarrow> skip_ws (c # s) = c # s"
  by (simp add: skip_ws_def)

definition comes_back :: "json \<Rightarrow> bool" where
  "comes_back v \<longleftrightarrow> (\<forall>st b r. depth v + length st \<le> max_nesting \<longrightarrow> follows r \<longrightarrow>
     parse st (ReadValue b) (marshal v @ r) = parse st (GotValue (repair v)) r)"

lemma parse_scalar:
  assumes "scan_scalar (c # s) = Some (v, r)" "\<not> is_ws c" "c \<notin> {CHR '']'', CHR ''['', CHR ''{''}"
  shows "parse st (ReadValue b) (c # s) = parse st (GotValue v) r"
  using assms by (simp add: parse.simps(4))

lemma scalars_come_back:
  "comes_back JNull" "comes_back (JBool x)" "comes_back (JStr s)" "number_ok n \<Longrightarrow> comes_back (JNum n)"
proof -
  show "comes_back JNull" unfolding comes_back_def
    by (auto intro!: parse_scalar simp: scan_scalar_def dquote_def is_ws_def)
  show "comes_back (JBool x)" unfolding comes_back_def
    by (cases x) (auto intro!: parse_scalar simp: scan_scalar_def dquote_def is_ws_def)
  show "comes_back (JStr s)" unfolding comes_back_def
    by (auto intro!: parse_scalar simp: scan_scalar_def quote_def scan_escape_string is_ws_def)
      (auto simp: dquote_def)
  assume n: "number_ok n"
  show "comes_back (JNum n)" unfolding comes_back_def
  proof (intro allI impI)
    fix st b r assume r: "follows r"
    obtain c s where c: "n = c # s" "c = CHR ''-'' \<or> is_digit c" using number_first [OF n] by blast
    have "scan_number (c # s @ r) = Some (n, r)"
      using scan_number_append [OF follows_ends [OF r], of n n "[]"] n c by (simp add: number_ok_def)
    moreover have "c \<noteq> dquote" "c \<noteq> CHR ''t''" "c \<noteq> CHR ''f''" "c \<noteq> CHR ''n''" "\<not> is_ws c"
        "c \<notin> {CHR '']'', CHR ''['', CHR ''{''}"
      using c(2) digit_chars [of c] by (auto simp: dquote_def is_ws_def)
    ultimately show "parse st (ReadValue b) (marshal (JNum n) @ r) = parse st (GotValue (repair (JNum n))) r"
      using c(1) by (auto intro!: parse_scalar simp: scan_scalar_def)
  qed
qed

text \<open>The elements of an array and the members of an object, and with them every value.\<close>

lemma follows_comma [simp]: "follows (CHR '','' # r)" "follows (CHR '']'' # r)" "follows (CHR ''}'' # r)"
  by (simp_all add: follows_def)

lemma not_ws [simp]: "\<not> is_ws (CHR '','')" "\<not> is_ws (CHR '']'')" "\<not> is_ws (CHR ''}'')" "\<not> is_ws (CHR ''['')"
  "\<not> is_ws (CHR ''{'')" "\<not> is_ws dquote" "\<not> is_ws (CHR '':'')"
  by (simp_all add: is_ws_def dquote_def)

lemma parse_elems:
  assumes "vs \<noteq> []" "\<forall>v \<in> set vs. comes_back v \<and> depth v + Suc (length st) \<le> max_nesting"
  shows "parse (ArrFrame us # st) (ReadValue b) (join '','' (map marshal vs) @ CHR '']'' # r)
    = parse st (GotValue (JArr (us @ map repair vs))) r"
  using assms
proof (induction vs arbitrary: us b)
  case (Cons v vs)
  have v: "parse (ArrFrame us # st) (ReadValue b) (marshal v @ s) = parse (ArrFrame us # st) (GotValue (repair v)) s"
    if "follows s" for s using Cons.prems that by (simp add: comes_back_def)
  show ?case
  proof (cases vs)
    case Nil
    then show ?thesis by (simp add: v parse.simps(2))
  next
    case (Cons w ws)
    have "parse (ArrFrame (us @ [repair v]) # st) (ReadValue False) (join '','' (map marshal vs) @ CHR '']'' # r)
      = parse st (GotValue (JArr ((us @ [repair v]) @ map repair vs))) r"
      using Cons.prems Cons by (intro Cons.IH) auto
    then show ?thesis using Cons by (simp add: v parse.simps(2))
  qed
qed simp

lemma quote_append: "quote k @ s = dquote # escape_string k @ dquote # s"
  by (simp add: quote_def)

lemma parse_members:
  assumes "kvs \<noteq> []" "\<forall>(k, v) \<in> set kvs. comes_back v \<and> depth v + Suc (length st) \<le> max_nesting"
  shows "parse (ObjFrame us k0 # st) (ReadKey b) (join '','' (map (\<lambda>(k, v). quote k @ '':'' @ marshal v) kvs) @ CHR ''}'' # r)
    = parse st (GotValue (JObj (us @ map (\<lambda>(k, v). (valid_utf8 k, repair v)) kvs))) r"
  using assms
proof (induction kvs arbitrary: us k0 b)
  case (Cons kv kvs)
  obtain k v where kv: "kv = (k, v)" by force
  have d: "dquote \<noteq> CHR ''}''" by (simp add: dquote_def)
  have v: "parse (ObjFrame us k0 # st) (ReadKey b) (quote k @ CHR '':'' # marshal v @ s)
      = parse (ObjFrame us (valid_utf8 k) # st) (GotValue (repair v)) s" if "follows s" for s
    using Cons.prems that kv d
    by (simp add: comes_back_def parse.simps(5) quote_append scan_escape_string)
  show ?case
  proof (cases kvs)
    case Nil
    then show ?thesis by (simp add: kv v parse.simps(3))
  next
    case (Cons kv' kvs')
    have "parse (ObjFrame (us @ [(valid_utf8 k, repair v)]) [] # st) (ReadKey False)
        (join '','' (map (\<lambda>(k, v). quote k @ '':'' @ marshal v) kvs) @ CHR ''}'' # r)
      = parse st (GotValue (JObj ((us @ [(valid_utf8 k, repair v)]) @ map (\<lambda>(k, v). (valid_utf8 k, repair v)) kvs))) r"
      using Cons.prems Cons by (intro Cons.IH) auto
    then show ?thesis using Cons by (simp add: kv v parse.simps(3))
  qed
qed simp

lemma all_come_back: "printable v \<Longrightarrow> comes_back v"
proof (induction v)
  case (JArr vs)
  show ?case unfolding comes_back_def
  proof (intro allI impI)
    fix st :: "frame list" and b r
    assume d: "depth (JArr vs) + length st \<le> max_nesting" and "follows r"
    have *: "\<forall>v \<in> set vs. comes_back v \<and> depth v + Suc (length st) \<le> max_nesting"
      using JArr d depth_elem [of _ vs] by fastforce
    have l: "length st < max_nesting" using d by simp
    have "parse st (ReadValue b) (marshal (JArr vs) @ r)
        = parse (ArrFrame [] # st) (ReadValue True) (join '','' (map marshal vs) @ CHR '']'' # r)"
      using l by (simp add: parse.simps(4))
    also have "\<dots> = parse st (GotValue (JArr (map repair vs))) r"
    proof (cases "vs = []")
      case True
      then show ?thesis by (simp add: parse.simps(4))
    next
      case False
      then show ?thesis using parse_elems [OF False *, of "[]"] by simp
    qed
    finally show "parse st (ReadValue b) (marshal (JArr vs) @ r) = parse st (GotValue (repair (JArr vs))) r" by simp
  qed
next
  case (JObj kvs)
  show ?case unfolding comes_back_def
  proof (intro allI impI)
    fix st :: "frame list" and b r
    assume d: "depth (JObj kvs) + length st \<le> max_nesting" and "follows r"
    have *: "\<forall>(k, v) \<in> set kvs. comes_back v \<and> depth v + Suc (length st) \<le> max_nesting"
      using JObj d depth_member [of _ _ kvs] by fastforce
    have l: "length st < max_nesting" using d by simp
    have "parse st (ReadValue b) (marshal (JObj kvs) @ r)
        = parse (ObjFrame [] [] # st) (ReadKey True) (join '','' (map (\<lambda>(k, v). quote k @ '':'' @ marshal v) kvs) @ CHR ''}'' # r)"
      using l by (simp add: parse.simps(4))
    also have "\<dots> = parse st (GotValue (JObj (map (\<lambda>(k, v). (valid_utf8 k, repair v)) kvs))) r"
    proof (cases "kvs = []")
      case True
      then show ?thesis by (simp add: parse.simps(5))
    next
      case False
      then show ?thesis using parse_members [OF False *, of "[]"] by simp
    qed
    finally show "parse st (ReadValue b) (marshal (JObj kvs) @ r) = parse st (GotValue (repair (JObj kvs))) r" by simp
  qed
qed (simp_all add: scalars_come_back)

text \<open>
  Printing and parsing of JSON.  A printed document parses, as a whole and as the first value of
  a stream, to the value it was printed from, up to the bytes in strings that are not UTF-8;
  for every nesting up to the limit, and every string, whatever needs to be escaped in it.
\<close>

lemma marshal_roundtrip:
  assumes "printable v" "depth v \<le> max_nesting"
  shows "parse_document (marshal v) = Some (repair v) \<and> parse_first (marshal v @ [CHR 0x0A]) = Some (repair v)"
proof
  have p: "parse [] (ReadValue False) (marshal v @ r) = Some (repair v, r)" if "follows r" for r
    using all_come_back [OF assms(1)] assms(2) that by (simp add: comes_back_def parse.simps(1))
  show "parse_document (marshal v) = Some (repair v)"
    using p [of "[]"] by (simp add: parse_document_def follows_def skip_ws_def)
  show "parse_first (marshal v @ [CHR 0x0A]) = Some (repair v)"
    using p [of "[CHR 0x0A]"] by (simp add: parse_first_def follows_def)
qed

subsection \<open>Integers come back\<close>

lemma show_nat_digits: "(\<forall>c \<in> set (show_nat n). is_digit c) \<and> show_nat n \<noteq> []"
proof (induction n rule: show_nat.induct)
  case (1 n)
  then show ?case by (subst (1 2) show_nat.simps) (auto simp: is_digit_def)
qed

lemma show_nat_hd: "0 < n \<Longrightarrow> hd (show_nat n) \<noteq> CHR ''0''"
proof (induction n rule: show_nat.induct)
  case (1 n)
  have z: "of_char (CHR ''0'') = (48 :: nat)" by simp
  show ?case
  proof (cases "n < 10")
    case True
    then have "of_char (char_of (48 + n)) = 48 + n" by simp
    then have "char_of (48 + n) \<noteq> CHR ''0''" using z 1(2) by (metis add_right_cancel add_0 less_numeral_extra(3) add.commute)
    then show ?thesis using True by (subst show_nat.simps) simp
  next
    case False
    then have "show_nat n = show_nat (n div 10) @ [char_of (48 + n mod 10)]" by (subst show_nat.simps) simp
    then show ?thesis using 1 False show_nat_digits [of "n div 10"] by simp
  qed
qed

lemma digits_value_snoc:
  "digits_value a (s @ [c]) = (case digits_value a s of None \<Rightarrow> None
     | Some v \<Rightarrow> if is_digit c then Some (10 * v + digit_val c) else None)"
  by (induction a s rule: digits_value.induct) auto

lemma digits_value_show_nat: "digits_value 0 (show_nat n) = Some (int n)"
proof (induction n rule: show_nat.induct)
  case (1 n)
  have d: "is_digit (char_of (48 + k)) \<and> digit_val (char_of (48 + k)) = int k" if "k < 10" for k :: nat
  proof -
    have i: "(of_char c :: int) = int (of_char c)" for c by (simp only: of_nat_of_char)
    show ?thesis using that unfolding is_digit_def digit_val_def i by simp
  qed
  show ?case
  proof (cases "n < 10")
    case True
    then show ?thesis using d by (subst show_nat.simps) simp
  next
    case False
    then show ?thesis using 1 d [of "n mod 10"]
      by (subst show_nat.simps) (simp add: digits_value_snoc, presburger)
  qed
qed

lemma scan_unsigned_show_nat: "scan_unsigned (show_nat n) = Some (show_nat n, [])"
proof -
  obtain c s where c: "show_nat n = c # s" using show_nat_digits [of n] by (cases "show_nat n") auto
  have d: "\<forall>x \<in> set (c # s). is_digit x" using show_nat_digits [of n] c by simp
  then have t: "takeWhile is_digit (c # s) = c # s" "dropWhile is_digit (c # s) = []"
    by (simp_all only: takeWhile_eq_all_conv dropWhile_eq_Nil_conv)
  have z: "c = CHR ''0'' \<Longrightarrow> s = []"
  proof -
    assume "c = CHR ''0''"
    then have "n = 0" using show_nat_hd [of n] c by force
    then show "s = []" using c by (simp add: show_nat.simps)
  qed
  have "scan_int (c # s) = Some (c # s, [])" using d t z by (auto simp: scan_int_def)
  then show ?thesis by (simp add: c scan_unsigned_def scan_frac_def scan_exp_def)
qed

lemma number_ok_show_int: "number_ok (show_int i)"
proof -
  have "hd (show_nat n) \<noteq> CHR ''-''" "show_nat n \<noteq> []" for n
    using show_nat_digits [of n] by (cases "show_nat n"; auto simp: is_digit_def)+
  then show ?thesis by (simp add: number_ok_def show_int_def scan_number_def scan_unsigned_show_nat)
qed

lemma atoi_show_int:
  assumes "int64 i" shows "atoi (show_int i) = Some i"
proof -
  have digits: "show_nat n \<noteq> []" "hd (show_nat n) \<noteq> CHR ''-''" "hd (show_nat n) \<noteq> CHR ''+''" for n
    using show_nat_digits [of n] by (cases "show_nat n"; auto simp: is_digit_def)+
  have "atoi (show_nat n) = (if int64 (int n) then Some (int n) else None)" for n
    using digits [of n] digits_value_show_nat [of n] by (cases "show_nat n") (auto simp: atoi_def Let_def)
  moreover have "atoi (CHR ''-'' # show_nat n) = (if int64 (- int n) then Some (- int n) else None)" for n
    using digits [of n] digits_value_show_nat [of n] by (simp add: atoi_def Let_def)
  ultimately show ?thesis using assms by (simp add: show_int_def)
qed

subsection \<open>What is parsed is UTF-8\<close>

definition whole_rune :: "string \<Rightarrow> bool" where
  "whole_rune b \<longleftrightarrow> b \<noteq> [] \<and> rune_len b = length b"

lemma valid_utf8_rune: "whole_rune b \<Longrightarrow> valid_utf8 (b @ s) = b @ valid_utf8 s"
proof -
  assume b: "whole_rune b"
  then obtain c u where c: "b = c # u" by (auto simp: whole_rune_def neq_Nil_conv)
  have "rune_len (b @ s) = length b" using b rune_len_append [of b s] by (simp add: whole_rune_def)
  then show ?thesis using c by (simp add: Let_def del: rune_len.simps)
qed

lemma whole_rune_take: "rune_len s \<noteq> 0 \<Longrightarrow> whole_rune (take (rune_len s) s)"
  using rune_len_append [of s "[]"] rune_len_le [of s] by (auto simp: whole_rune_def)

lemma whole_rune_ascii: "of_char c < (0x80 :: nat) \<Longrightarrow> whole_rune [c]"
  using rune_len_one [of c "[]"] by (simp add: whole_rune_def del: rune_len.simps)

lemma whole_rune_replacement: "whole_rune replacement"
  unfolding whole_rune_def replacement_def by code_simp

lemma whole_rune_bytes:
  assumes "tail_ranges b = Some rs" "list_all2 (\<lambda>r x. fst r \<le> x \<and> x \<le> snd r \<and> x < 256) rs bs" "b < 256"
  shows "whole_rune (map char_of (b # bs))"
proof -
  have "in_ranges rs (map char_of bs)" "length bs = length rs"
    using assms(2) by (induction rs bs rule: list_all2_induct) auto
  then show ?thesis using assms(1,3) by (simp add: whole_rune_def)
qed

lemma div_mod_parts: "(r :: nat) = 64 * (r div 64) + r mod 64" "r div 64 = 64 * (r div 4096) + r div 64 mod 64"
  "r div 4096 = 64 * (r div 262144) + r div 4096 mod 64"
  using div_mult2_eq [of r 64 64] div_mult2_eq [of r 4096 64] mult_div_mod_eq [of 64 "r div 64"] mult_div_mod_eq [of 64 "r div 4096"]
  by simp_all

lemma whole_rune_encode:
  assumes "r < 0x110000" "r < 0xD800 \<or> 0xE000 \<le> r"
  shows "whole_rune (encode_rune r)"
proof -
  define a b c d where "a = r div 262144" and "b = r div 4096" and "c = r div 64" and "d = r mod 64"
  define b' c' where "b' = r div 4096 mod 64" and "c' = r div 64 mod 64"
  have r: "r = 64 * c + d" "c = 64 * b + c'" "b = 64 * a + b'" "d < 64" "b' < 64" "c' < 64"
    using div_mod_parts [of r] by (simp_all add: a_def b_def c_def d_def b'_def c'_def)
  have e: "encode_rune r = map char_of (if r < 0x80 then [r] else if r < 0x800 then [0xC0 + c, 0x80 + d]
      else if r < 0x10000 then [0xE0 + b, 0x80 + c', 0x80 + d] else [0xF0 + a, 0x80 + b', 0x80 + c', 0x80 + d])"
    by (simp add: encode_rune_def a_def b_def c_def d_def b'_def c'_def)
  consider "r < 0x80" | "0x80 \<le> r" "r < 0x800" | "0x800 \<le> r" "r < 0x10000" | "0x10000 \<le> r" by linarith
  then show ?thesis
  proof cases
    case 1
    then show ?thesis by (simp add: encode_rune_def whole_rune_ascii)
  next
    case 2
    then have "2 \<le> c" "c < 32" using r by linarith+
    then have "whole_rune (map char_of [0xC0 + c, 0x80 + d])"
      using r by (intro whole_rune_bytes) (auto simp: tail_ranges_def)
    then show ?thesis using 2 e by simp
  next
    case 3
    then have "b < 16" "b = 0 \<longrightarrow> 32 \<le> c'" "b = 13 \<longrightarrow> c' < 32" using r assms(2) by linarith+
    then have "whole_rune (map char_of [0xE0 + b, 0x80 + c', 0x80 + d])"
      using r by (intro whole_rune_bytes) (auto simp: tail_ranges_def)
    then show ?thesis using 3 e by simp
  next
    case 4
    then have "a \<le> 4" "a = 0 \<longrightarrow> 16 \<le> b'" "a = 4 \<longrightarrow> b' < 16" using r assms(1) by linarith+
    then have "whole_rune (map char_of [0xF0 + a, 0x80 + b', 0x80 + c', 0x80 + d])"
      using r by (intro whole_rune_bytes) (auto simp: tail_ranges_def)
    then show ?thesis using 4 e by simp
  qed
qed

lemma hex_digits_bound: "hex_digits k r s = Some (v, t) \<Longrightarrow> v < (r + 1) * 16 ^ k"
proof (induction k r s rule: hex_digits.induct)
  case (3 k r c s)
  then obtain d where d: "hex_val c = Some d" by (auto split: option.splits)
  have "d < 16" using d by (auto simp: hex_val_def Let_def split: if_splits)
  then have "(16 * r + d + 1) * 16 ^ k \<le> (16 * (r + 1)) * 16 ^ k" by (intro mult_right_mono) auto
  moreover have "v < (16 * r + d + 1) * 16 ^ k" using 3(1) [OF d] 3(2) d by simp
  moreover have "(16 * (r + 1)) * 16 ^ k = (r + 1) * 16 ^ Suc k" by (simp add: algebra_simps)
  ultimately show ?case by linarith
qed auto

lemma pair_bound: "r < 0xDC00 \<Longrightarrow> s < 0xE000 \<Longrightarrow> 0x10000 + (r - 0xD800) * 0x400 + (s - 0xDC00) < (0x110000 :: nat)"
proof -
  assume "r < 0xDC00" "s < 0xE000"
  then have "r - 0xD800 \<le> 0x3FF" "s - 0xDC00 \<le> (0x3FF :: nat)" by linarith+
  then show ?thesis by linarith
qed

lemma u_escape_rune:
  assumes "u_escape s = Some (b, t)"
  shows "whole_rune b"
proof -
  obtain r u where r: "hex_digits 4 0 s = Some (r, u)" using assms by (auto simp: u_escape_def split: option.splits)
  have "r < 0x110000" using hex_digits_bound [OF r] by simp
  then consider "b = replacement" | "b = encode_rune r" "r < 0x110000" "r < 0xD800 \<or> 0xE000 \<le> r"
    | r2 where "r < 0xDC00" "r2 < 0xE000" "b = encode_rune (0x10000 + (r - 0xD800) * 0x400 + (r2 - 0xDC00))"
    using assms by (auto simp: u_escape_def r split: option.splits if_splits)
  then show ?thesis
  proof cases
    case 3
    show ?thesis unfolding 3(3) by (rule whole_rune_encode [OF pair_bound [OF 3(1,2)]]) simp
  qed (simp_all add: whole_rune_replacement whole_rune_encode)
qed

lemma simple_escape_ascii: "simple_escape e = Some b \<Longrightarrow> of_char b < (0x80 :: nat)"
  by (auto simp: simple_escape_def dquote_def bslash_def split: if_splits)

lemma prepend_valid:
  assumes "prepend b r = Some (v, t)" "whole_rune b" "\<And>w u. r = Some (w, u) \<Longrightarrow> valid_utf8 w = w"
  shows "valid_utf8 v = v"
  using assms valid_utf8_rune by (auto simp: prepend_def)

lemma scan_string_valid: "scan_string s = Some (v, t) \<Longrightarrow> valid_utf8 v = v"
proof (induction s arbitrary: v t rule: scan_string.induct)
  case (2 c s)
  let ?n = "rune_len (c # s)"
  show ?case
  proof (cases "c = dquote")
    case True
    then show ?thesis using 2(5) by auto
  next
    case q: False
    show ?thesis
    proof (cases "c = bslash")
      case True
      then obtain e u where s: "s = e # u" using 2(5) q by (auto split: list.splits)
      consider b w where "e = CHR ''u''" "u_escape u = Some (b, w)" "prepend b (scan_string w) = Some (v, t)"
        | b where "e \<noteq> CHR ''u''" "simple_escape e = Some b" "prepend [b] (scan_string u) = Some (v, t)"
        using 2(5) q True s by (auto split: if_splits option.splits)
      then show ?thesis
      proof cases
        case 1
        show ?thesis by (rule prepend_valid [OF 1(3) u_escape_rune [OF 1(2)]]) (rule 2(1) [OF q True s 1(1,2) refl])
      next
        case (2 b)
        show ?thesis
          by (rule prepend_valid [OF 2(3) whole_rune_ascii [OF simple_escape_ascii [OF 2(2)]]])
             (rule "2.IH"(2) [OF q True s 2(1,2)])
      qed
    next
      case b: False
      then have lo: "\<not> of_char c < (0x20 :: nat)" using 2(5) q by (auto split: if_splits)
      show ?thesis
      proof (cases "?n = 0")
        case True
        then have "prepend replacement (scan_string s) = Some (v, t)" using 2(5) q b lo by (simp add: Let_def del: rune_len.simps)
        then show ?thesis by (rule prepend_valid [OF _ whole_rune_replacement]) (rule 2(3) [OF q b lo refl True])
      next
        case False
        then have "prepend (take ?n (c # s)) (scan_string (drop ?n (c # s))) = Some (v, t)"
          using 2(5) q b lo by (simp add: Let_def del: rune_len.simps)
        then show ?thesis by (rule prepend_valid [OF _ whole_rune_take [OF False]]) (rule 2(4) [OF q b lo refl False])
      qed
    qed
  qed
qed simp

fun frame_ok :: "frame \<Rightarrow> bool" where
  "frame_ok (ArrFrame vs) = (\<forall>v \<in> set vs. repair v = v)"
| "frame_ok (ObjFrame kvs k) = (valid_utf8 k = k \<and> (\<forall>(k, v) \<in> set kvs. valid_utf8 k = k \<and> repair v = v))"

lemma repair_JArr: "\<forall>v \<in> set vs. repair v = v \<Longrightarrow> repair (JArr vs) = JArr vs"
  by (simp add: map_idI)

lemma repair_JObj: "\<forall>(k, v) \<in> set kvs. valid_utf8 k = k \<and> repair v = v \<Longrightarrow> repair (JObj kvs) = JObj kvs"
  by (auto intro!: map_idI)

lemma scan_scalar_valid: "scan_scalar s = Some (v, t) \<Longrightarrow> repair v = v"
  by (auto simp: scan_scalar_def map_prod_def dest!: scan_string_valid split: if_splits)

lemma parse_valid:
  "parse st m s = Some (v, t) \<Longrightarrow> \<forall>f \<in> set st. frame_ok f \<Longrightarrow> (\<And>w. m = GotValue w \<Longrightarrow> repair w = w) \<Longrightarrow> repair v = v"
proof (induction st m s arbitrary: v t rule: parse.induct)
  case (1 v s)
  then show ?case by (simp add: parse.simps(1))
next
  case (2 vs st w s)
  obtain c u where c: "skip_ws s = c # u" using 2(3) by (auto simp: parse.simps(2) split: list.splits)
  have *: "\<forall>v \<in> set (vs @ [w]). repair v = v" "\<forall>f \<in> set st. frame_ok f" using 2(4,5) by auto
  show ?case
  proof (cases "c = CHR '',''")
    case True
    show ?thesis by (rule 2(1) [OF c True]) (use 2(3) c True * in \<open>auto simp: parse.simps(2)\<close>)
  next
    case False
    then have b: "c = CHR '']''" using 2(3) c by (auto simp: parse.simps(2) split: if_splits)
    show ?thesis
      by (rule 2(2) [OF c False b]) (use 2(3) c b * repair_JArr [OF *(1)] in \<open>auto simp: parse.simps(2)\<close>)
  qed
next
  case (3 kvs k st w s)
  obtain c u where c: "skip_ws s = c # u" using 3(3) by (auto simp: parse.simps(3) split: list.splits)
  have *: "\<forall>(k, v) \<in> set (kvs @ [(k, w)]). valid_utf8 k = k \<and> repair v = v" "\<forall>f \<in> set st. frame_ok f"
    using 3(4,5) by auto
  show ?case
  proof (cases "c = CHR '',''")
    case True
    show ?thesis by (rule 3(1) [OF c True]) (use 3(3) c True * in \<open>auto simp: parse.simps(3)\<close>)
  next
    case False
    then have b: "c = CHR ''}''" using 3(3) c by (auto simp: parse.simps(3) split: if_splits)
    show ?thesis
      by (rule 3(2) [OF c False b]) (use 3(3) c b * repair_JObj [OF *(1)] in \<open>auto simp: parse.simps(3)\<close>)
  qed
next
  case (4 st close s)
  obtain c u where c: "skip_ws s = c # u" using 4(5) by (auto simp: parse.simps(4) split: list.splits)
  note p = trans [OF parse.simps(4) [symmetric] 4(5), unfolded c list.case]
  consider (close) "close \<and> c = CHR '']''" | (arr) "\<not> (close \<and> c = CHR '']'')" "c = CHR ''[''"
    | (obj) "\<not> (close \<and> c = CHR '']'')" "c \<noteq> CHR ''[''" "c = CHR ''{''"
    | (scalar) "\<not> (close \<and> c = CHR '']'')" "c \<noteq> CHR ''[''" "c \<noteq> CHR ''{''" by blast
  then show ?case
  proof cases
    case close
    then obtain vs st' where st: "st = ArrFrame vs # st'" using p by (auto split: list.splits frame.splits)
    have "parse st' (GotValue (JArr vs)) u = Some (v, t)" using p st close by simp
    then show ?thesis by (rule 4(1) [OF c close st refl]) (use 4(6) st repair_JArr in auto)
  next
    case arr
    then show ?thesis using 4(2) [OF c arr] p 4(6) by (auto split: if_splits)
  next
    case obj
    have "valid_utf8 [] = []" by simp
    then show ?thesis using 4(3) [OF c obj] p 4(6) obj by (auto split: if_splits)
  next
    case scalar
    then obtain w x where w: "scan_scalar (c # u) = Some (w, x)" using p by (auto split: option.splits)
    have "parse st (GotValue w) x = Some (v, t)" using p scalar w by auto
    then show ?thesis by (rule 4(4) [OF c scalar w refl]) (use 4(6) scan_scalar_valid [OF w] in auto)
  qed
next
  case (5 st close s)
  then obtain kvs k0 st' where st: "st = ObjFrame kvs k0 # st'"
    by (auto simp: parse.simps(5) split: list.splits frame.splits)
  then obtain c u where c: "skip_ws s = c # u" using 5 by (auto simp: parse.simps(5) split: list.splits)
  note p = trans [OF parse.simps(5) [symmetric] 5(3), unfolded c st list.case frame.case]
  have kvs: "\<forall>(k, v) \<in> set kvs. valid_utf8 k = k \<and> repair v = v" "\<forall>f \<in> set st'. frame_ok f"
    using 5(4) st by auto
  show ?case
  proof (cases "close \<and> c = CHR ''}''")
    case True
    then have "parse st' (GotValue (JObj kvs)) u = Some (v, t)" using p by simp
    then show ?thesis by (rule 5(1) [OF st refl c True]) (use kvs repair_JObj in auto)
  next
    case False
    then obtain k x d w where k: "c = dquote" "scan_string u = Some (k, x)" "skip_ws x = d # w" "d = CHR '':''"
      "parse (ObjFrame kvs k # st') (ReadValue False) w = Some (v, t)"
      using p by (auto split: if_splits option.splits list.splits)
    show ?thesis
      by (rule 5(2) [OF st refl c False k(1,2) refl k(3,4,5)])
         (use kvs scan_string_valid [OF k(2)] in auto)
  qed
qed

text \<open>
  Whatever document parses, every string in its value, keys included, is valid UTF-8.
\<close>

lemma parsed_is_utf8:
  assumes "parse_document s = Some v"
  shows "repair v = v"
  using assms by (auto simp: parse_document_def split: option.splits if_splits intro: parse_valid)

subsection \<open>Printed documents fit on a line\<close>

lemma takeWhile_digits: "x \<in> set (takeWhile is_digit s) \<Longrightarrow> is_digit x"
  by (rule set_takeWhileD [THEN conjunct2])

lemma opt_digits_chars: "opt_digits i s = Some (v, t) \<Longrightarrow> x \<in> set v \<Longrightarrow> x \<in> set i \<or> is_digit x"
  by (auto simp: opt_digits_def dest: takeWhile_digits split: if_splits)

lemma number_chars:
  assumes "scan_number s = Some (v, t)" "x \<in> set v"
  shows "is_digit x \<or> x \<in> {CHR ''-'', CHR ''+'', CHR ''.'', CHR ''e'', CHR ''E''}"
proof -
  have int: "is_digit x" if "scan_int s = Some (i, t)" "x \<in> set i" for s i t
    using that by (auto simp: scan_int_def dest: takeWhile_digits split: list.splits if_splits)
  have frac: "is_digit x \<or> x = CHR ''.''" if "scan_frac s = Some (i, t)" "x \<in> set i" for s i t
    using that opt_digits_chars [of "''.''" "tl s" i t x] by (auto simp: scan_frac_def split: if_splits)
  have exp: "is_digit x \<or> x \<in> {CHR ''-'', CHR ''+'', CHR ''e'', CHR ''E''}"
    if "scan_exp s = Some (i, t)" "x \<in> set i" for s i t
    using that opt_digits_chars [of "[hd s]" "tl s" i t x] opt_digits_chars [of "[hd s, hd (tl s)]" "tl (tl s)" i t x]
    by (auto simp: scan_exp_def split: if_splits)
  have un: "is_digit x \<or> x \<in> {CHR ''-'', CHR ''+'', CHR ''.'', CHR ''e'', CHR ''E''}"
    if "scan_unsigned s = Some (i, t)" "x \<in> set i" for s i t
    using that int frac exp by (fastforce simp: scan_unsigned_def prepend_def split: option.splits)
  show ?thesis using assms un by (auto simp: scan_number_def prepend_def split: if_splits)
qed

lemma escape_byte_plain: "of_char c < (0x80 :: nat) \<Longrightarrow> CHR 0x0A \<notin> set (escape_byte c)"
proof -
  assume c: "of_char c < (0x80 :: nat)"
  have h: "n < 16 \<Longrightarrow> hex_digit n \<noteq> CHR 0x0A" for n
    using hex_val_digit [of n] by (auto simp: hex_val_def)
  have "hex_digit (of_char c div 16) \<noteq> CHR 0x0A" "hex_digit (of_char c mod 16) \<noteq> CHR 0x0A"
    using c by (intro h; simp)+
  then show ?thesis by (auto simp: escape_byte_def dquote_def bslash_def)
qed

lemma escape_string_plain: "CHR 0x0A \<notin> set (escape_string s)"
proof (induction s rule: escape_string.induct)
  case (2 c s)
  let ?n = "rune_len (c # s)"
  have high: "?n \<noteq> 0 \<Longrightarrow> ?n \<noteq> 1 \<Longrightarrow> CHR 0x0A \<notin> set (take ?n (c # s))"
    using rune_bytes_high [of c s] by fastforce
  have one: "?n = 1 \<Longrightarrow> CHR 0x0A \<notin> set (escape_byte c)" using escape_byte_plain rune_len_one [of c s] by simp
  show ?case
    using 2 high one by (simp add: Let_def bslash_def del: rune_len.simps)
qed simp

lemma join_set: "x \<in> set (join sep ss) \<Longrightarrow> x \<in> set sep \<or> (\<exists>s \<in> set ss. x \<in> set s)"
  by (induction sep ss rule: join.induct) auto

lemma quote_plain: "CHR 0x0A \<notin> set (quote s)"
  using escape_string_plain by (simp add: quote_def dquote_def)

lemma marshal_line: "printable v \<Longrightarrow> CHR 0x0A \<notin> set (marshal v)"
proof (induction v)
  case (JNum n)
  then show ?case using number_chars [of n n "[]" "CHR 0x0A"] by (auto simp: number_ok_def is_digit_def)
next
  case (JArr vs)
  then show ?case using join_set [of "CHR 0x0A" "'',''" "map marshal vs"] by auto
next
  case (JObj kvs)
  have "CHR 0x0A \<notin> set (quote k @ '':'' @ marshal v)" if "(k, v) \<in> set kvs" for k v
    using JObj that quote_plain by fastforce
  then show ?case using join_set [of "CHR 0x0A" "'',''" "map (\<lambda>(k, v). quote k @ '':'' @ marshal v) kvs"] by auto
qed (auto simp: quote_plain)

lemma valid_utf8_ascii: "\<forall>c \<in> set s. of_char c < (0x80 :: nat) \<Longrightarrow> valid_utf8 s = s"
proof (induction s)
  case (Cons c s)
  then have "rune_len (c # s) = 1" by (simp only: rune_len_one) simp
  then show ?case using Cons by (simp add: Let_def del: rune_len.simps)
qed simp

lemma valid_utf8_idem: "valid_utf8 (valid_utf8 s) = valid_utf8 s"
  using scan_string_valid [OF scan_escape_string [of s "[]"]] .

lemma valid_utf8_Cons_ascii [simp]: "of_char c < (0x80 :: nat) \<Longrightarrow> valid_utf8 (c # s) = c # valid_utf8 s"
  using valid_utf8_rune [OF whole_rune_ascii [of c], of s] by simp

declare valid_utf8.simps(2) [simp del] scan_string.simps(2) [simp del] escape_string.simps(2) [simp del]

subsection \<open>Decoded values are typed\<close>

text \<open>A decoder keeps a property of its state, when it reads a value whose strings are UTF-8.\<close>

definition keeps :: "('a \<Rightarrow> bool) \<Rightarrow> 'a decoder \<Rightarrow> bool" where
  "keeps P d \<longleftrightarrow> (\<forall>a j b. P a \<longrightarrow> repair j = j \<longrightarrow> d a j = Some b \<longrightarrow> P b)"

abbreviation is_utf8 :: "string \<Rightarrow> bool" where
  "is_utf8 s \<equiv> valid_utf8 s = s"

lemma map_fixed: "map f xs = xs \<Longrightarrow> x \<in> set xs \<Longrightarrow> f x = x"
  by (induction xs) auto

lemma keeps_members:
  assumes "\<forall>(n, d) \<in> set fs. keeps P d" "\<forall>(k, v) \<in> set kvs. repair v = v" "P a" "decode_members fs kvs a = Some b"
  shows "P b"
  using assms
proof (induction fs kvs a rule: decode_members.induct)
  case (2 fs k v kvs a)
  show ?case
  proof (cases "Option.bind (find_field (map fst fs) k) (map_of fs)")
    case None
    then show ?thesis using 2 by simp
  next
    case (Some d)
    then obtain n where "map_of fs n = Some d" by (auto simp: bind_eq_Some_conv)
    then have n: "(n, d) \<in> set fs" by (rule map_of_SomeD)
    have d: "keeps P d" using bspec [OF 2(3) n] by simp
    have eq: "decode_members fs ((k, v) # kvs) a = (case d a v of None \<Rightarrow> None | Some b \<Rightarrow> decode_members fs kvs b)"
      by (simp only: decode_members.simps Some option.case)
    then obtain c where c: "d a v = Some c" using 2(6) by (cases "d a v") simp_all
    have "P c" using d [unfolded keeps_def, rule_format, OF 2(5) _ c] 2(4) by simp
    then show ?thesis using 2(2) [OF Some c 2(3)] 2(4,6) eq c by simp
  qed
qed simp

lemma keeps_struct:
  assumes "\<And>n d. (n, d) \<in> set fs \<Longrightarrow> keeps P d"
  shows "keeps P (decode_struct fs)"
proof (unfold keeps_def, intro allI impI)
  fix a j b assume a: "P a" "repair j = j" "decode_struct fs a j = Some b"
  show "P b"
  proof (cases j)
    case (JObj kvs)
    then have "\<forall>(k, v) \<in> set kvs. repair v = v" using a(2) by (auto dest: map_fixed)
    then show ?thesis using a JObj assms keeps_members [of fs P kvs a b] by (auto simp: decode_struct_def)
  qed (use a in \<open>simp_all add: decode_struct_def\<close>)
qed

lemma keeps_elems:
  assumes "keeps P d" "P zero" "\<forall>j \<in> set js. repair j = j" "\<forall>x \<in> set old. P x"
    and "decode_elems d zero old js = Some (xs, ys)"
  shows "(\<forall>x \<in> set xs. P x) \<and> (\<forall>y \<in> set ys. P y)"
  using assms(3-5)
proof (induction js arbitrary: old xs)
  case (Cons j js)
  let ?x = "case old of [] \<Rightarrow> zero | x # _ \<Rightarrow> x"
  obtain y where y: "d ?x j = Some y" using Cons.prems(3) by (auto split: option.splits)
  then obtain zs where z: "decode_elems d zero (tl old) js = Some (zs, ys)" "xs = y # zs"
    using Cons.prems(3) by auto
  have "P ?x" using assms(2) Cons.prems(2) by (cases old) auto
  then have "P y" using assms(1) y Cons.prems(1) by (auto simp: keeps_def)
  moreover have "\<forall>x \<in> set (tl old). P x" using Cons.prems(2) by (cases old) auto
  ultimately show ?case using Cons.IH [OF _ _ z(1)] Cons.prems(1) z(2) by simp
qed simp

lemma keeps_slice:
  assumes "keeps P d" "P zero"
  shows "keeps (\<lambda>(xs, ys). (\<forall>x \<in> set xs. P x) \<and> (\<forall>y \<in> set ys. P y)) (decode_slice d zero)"
proof (unfold keeps_def, intro allI impI)
  fix a j b
  assume a: "case a of (xs, ys) \<Rightarrow> (\<forall>x \<in> set xs. P x) \<and> (\<forall>y \<in> set ys. P y)" "repair j = j"
    "decode_slice d zero a j = Some b"
  show "case b of (xs, ys) \<Rightarrow> (\<forall>x \<in> set xs. P x) \<and> (\<forall>y \<in> set ys. P y)"
  proof (cases j)
    case (JArr js)
    then have js: "\<forall>j \<in> set js. repair j = j" using a(2) by (auto dest: map_fixed)
    have old: "\<forall>x \<in> set (fst a @ snd a). P x" using a(1) by (cases a) auto
    show ?thesis
    proof (cases "js = []")
      case True
      then show ?thesis using a(3) JArr by (auto simp: decode_slice_def)
    next
      case False
      then have "decode_elems d zero (fst a @ snd a) js = Some (fst b, snd b)"
        using a(3) JArr by (simp add: decode_slice_def)
      from keeps_elems [OF assms js old this] show ?thesis by (simp add: case_prod_beta)
    qed
  qed (use a in \<open>auto simp: decode_slice_def\<close>)
qed

lemma keeps_string: "keeps is_utf8 decode_string"
  by (auto simp: keeps_def decode_string_def split: json.splits)

lemma keeps_int: "keeps int64 decode_int"
  by (auto simp: keeps_def decode_int_def atoi_def Let_def split: json.splits if_splits option.splits)

lemma keeps_any: "keeps (\<lambda>_. True) d"
  by (simp add: keeps_def)

lemma keeps_at_field:
  assumes "keeps Q d" "\<And>a. P a \<Longrightarrow> Q (get a)" "\<And>a x. P a \<Longrightarrow> Q x \<Longrightarrow> P (put x a)"
  shows "keeps P (at_field get put d)"
proof (unfold keeps_def, intro allI impI)
  fix a j b assume a: "P a" "repair j = j" "at_field get put d a j = Some b"
  then obtain x where x: "d (get a) j = Some x" "b = put x a" by (auto simp: at_field_def)
  have "Q x" using assms(1) assms(2) [OF a(1)] a(2) x(1) by (auto simp: keeps_def)
  then show "P b" using assms(3) [OF a(1)] x(2) by simp
qed

lemma utf8_rune:
  assumes "is_utf8 (c # s)"
  shows "rune_len (c # s) \<noteq> 0" "is_utf8 (drop (rune_len (c # s)) (c # s))"
proof -
  let ?n = "rune_len (c # s)"
  show n: "?n \<noteq> 0"
  proof
    assume n: "?n = 0"
    then have "c # s = replacement @ valid_utf8 s" using assms by (simp add: valid_utf8.simps(2) del: rune_len.simps)
    then have "rune_len (take (rune_len replacement) replacement @ valid_utf8 s) = ?n"
      using whole_rune_replacement by (simp add: whole_rune_def del: rune_len.simps)
    then show False using rune_len_append [of replacement "valid_utf8 s"] whole_rune_replacement n
      by (simp add: whole_rune_def del: rune_len.simps)
  qed
  have "valid_utf8 (c # s) = take ?n (c # s) @ valid_utf8 (drop ?n (c # s))"
    using n by (simp add: valid_utf8.simps(2) Let_def del: rune_len.simps)
  then show "is_utf8 (drop ?n (c # s))" using assms by (metis append_take_drop_id same_append_eq)
qed

lemma utf8_append: "is_utf8 a \<Longrightarrow> is_utf8 b \<Longrightarrow> is_utf8 (a @ b)"
proof (induction a rule: valid_utf8.induct)
  case (2 c s)
  let ?n = "rune_len (c # s)"
  have w: "whole_rune (take ?n (c # s))" using whole_rune_take [OF utf8_rune(1) [OF 2(3)]] .
  have eq: "(c # s) @ b = take ?n (c # s) @ drop ?n (c # s) @ b" by (metis append.assoc append_take_drop_id)
  show ?case by (simp only: eq valid_utf8_rune [OF w] 2(2) [OF refl utf8_rune [OF 2(3)] 2(4)])
qed simp

lemma first_content_utf8: "first_content inner payload = Some c \<Longrightarrow> is_utf8 c"
proof -
  assume c: "first_content inner payload = Some c"
  have k: "keeps is_utf8 (decode_choice inner)"
    unfolding decode_choice_def by (intro keeps_struct) (auto intro!: keeps_struct keeps_string)
  obtain v xs ys where v: "parse_document payload = Some v" "decode_choices inner ([], []) v = Some (c # xs, ys)"
    using c by (auto simp: first_content_def split: option.splits list.splits)
  have s: "keeps (\<lambda>(xs, ys). (\<forall>x \<in> set xs. is_utf8 x) \<and> (\<forall>y \<in> set ys. is_utf8 y)) (decode_choices inner)"
    unfolding decode_choices_def using keeps_slice [OF k, of "[]"] by (intro keeps_struct) auto
  have "case (c # xs, ys) of (xs, ys) \<Rightarrow> (\<forall>x \<in> set xs. is_utf8 x) \<and> (\<forall>y \<in> set ys. is_utf8 y)"
    by (rule s [unfolded keeps_def, rule_format, OF _ parsed_is_utf8 [OF v(1)] v(2)]) simp
  then show "is_utf8 c" by simp
qed

end
