(* ===== verification/Sse.thy ===== *)
theory Sse
  imports Router Go_Json
begin

section \<open>Server-sent events\<close>

text \<open>
  \<open>internal/gateway/stream.go\<close>: \<open>streamProxy\<close>, which copies the upstream stream to the
  client line by line and gathers the completion, and \<open>replayCachedStream\<close>, which writes a
  cached completion as a stream.
\<close>

subsection \<open>The proxy\<close>

text \<open>\<open>ReadBytes\<close> of a newline: the line, the rest, and whether the newline was there.\<close>

definition newline :: char where "newline = CHR 0x0A"

definition read_bytes :: "string \<Rightarrow> string \<times> string \<times> bool" where
  "read_bytes s =
     (let l = takeWhile (\<lambda>c. c \<noteq> newline) s
      in case dropWhile (\<lambda>c. c \<noteq> newline) s of
           [] \<Rightarrow> (l, [], False)
         | _ # rest \<Rightarrow> (l @ [newline], rest, True))"

definition line_content :: "string \<Rightarrow> string" where
  "line_content line =
     (if take 6 line = ''data: ''
      then let payload = trim_space (drop 6 line)
           in if payload = ''[DONE]'' then []
              else (case first_content ''delta'' payload of None \<Rightarrow> [] | Some c \<Rightarrow> c)
      else [])"

text \<open>
  What may go wrong: the context at the start of each round, each write, and the end of the
  body, which is a read error or \<open>None\<close> for the end of file.
\<close>

record stream_env =
  ctx_err :: "nat \<Rightarrow> go_error option"
  write_err :: "nat \<Rightarrow> go_error option"
  read_end :: "go_error option"

record stream_out =
  sent :: string
  s_content :: string
  s_tokens :: nat
  s_err :: "go_error option"

definition stopped_with :: "string \<Rightarrow> string \<Rightarrow> go_error option \<Rightarrow> stream_out" where
  "stopped_with out content err = \<lparr>sent = out, s_content = content, s_tokens = 0, s_err = err\<rparr>"

lemma read_bytes_shorter: "read_bytes s = (line, rest, True) \<Longrightarrow> length rest < length s"
proof -
  assume r: "read_bytes s = (line, rest, True)"
  have "length (dropWhile (\<lambda>c. c \<noteq> newline) s) \<le> length s" by (rule length_dropWhile_le)
  then show ?thesis using r by (auto simp: read_bytes_def Let_def split: list.splits)
qed

function stream_loop ::
  "stream_env \<Rightarrow> nat \<Rightarrow> string \<Rightarrow> string \<Rightarrow> string \<Rightarrow> stream_out" where
  "stream_loop env i body out content =
     (if ctx_err env i \<noteq> None then stopped_with out content (ctx_err env i)
      else
        let (line, rest, more) = read_bytes body
        in if line \<noteq> [] \<and> write_err env i \<noteq> None then stopped_with out content (write_err env i)
           else
             let out = out @ line; content = content @ line_content line
             in if more then stream_loop env (Suc i) rest out content
                else case read_end env of
                       Some e \<Rightarrow> stopped_with out content (Some e)
                     | None \<Rightarrow> \<lparr>sent = out, s_content = content, s_tokens = length (Go_Strings.fields content), s_err = None\<rparr>)"
  by pat_completeness auto
termination
  by (relation "measure (\<lambda>(_, _, body, _, _). length body)") (auto dest: read_bytes_shorter sym)

declare stream_loop.simps [simp del]

text \<open>\<open>None\<close> for a writer that cannot flush.\<close>

definition stream_proxy :: "stream_env \<Rightarrow> bool \<Rightarrow> string \<Rightarrow> stream_out" where
  "stream_proxy env can_flush body =
     (if \<not> can_flush
      then stopped_with [] [] (Some (OtherError ''response writer does not support flushing''))
      else stream_loop env 0 body [] [])"

subsection \<open>The replay\<close>

datatype delta = RoleDelta | ContentDelta string | StopDelta

definition event :: "string \<Rightarrow> string" where
  "event payload = ''data: '' @ payload @ [newline, newline]"

text \<open>
  The loop over the words, from word \<open>i\<close>; the writes are numbered from the role delta, so
  that word \<open>i\<close> is write \<open>i + 1\<close>.
\<close>

fun replay_words ::
  "(delta \<Rightarrow> string) \<Rightarrow> stream_env \<Rightarrow> nat \<Rightarrow> string list \<Rightarrow> string \<Rightarrow> string \<times> go_error option" where
  "replay_words encode env i [] out =
     (case write_err env (Suc i) of
        Some e \<Rightarrow> (out, Some e)
      | None \<Rightarrow>
          (let out = out @ event (encode StopDelta)
           in case write_err env (Suc (Suc i)) of
                Some e \<Rightarrow> (out, Some e)
              | None \<Rightarrow> (out @ event ''[DONE]'', None)))"
| "replay_words encode env i (tok # toks) out =
     (if ctx_err env i \<noteq> None then (out, ctx_err env i)
      else
        let piece = (if i > 0 then '' '' @ tok else tok)
        in case write_err env (Suc i) of
             Some e \<Rightarrow> (out, Some e)
           | None \<Rightarrow> replay_words encode env (Suc i) toks (out @ event (encode (ContentDelta piece))))"

text \<open>
  The chunk with a delta, its members in the order in which \<open>Marshal\<close> prints the keys of a
  map: sorted.
\<close>

definition delta_json :: "delta \<Rightarrow> json" where
  "delta_json d =
     JObj (case d of
             RoleDelta \<Rightarrow> [(''role'', JStr ''assistant'')]
           | ContentDelta s \<Rightarrow> [(''content'', JStr s)]
           | StopDelta \<Rightarrow> [])"

definition chunk_json :: "string \<Rightarrow> int \<Rightarrow> string \<Rightarrow> delta \<Rightarrow> json" where
  "chunk_json cid created model d =
     JObj [(''choices'', JArr [JObj
             ([(''delta'', delta_json d)]
              @ (if d = StopDelta then [(''finish_reason'', JStr ''stop'')] else [])
              @ [(''index'', JNum (show_int 0))])]),
           (''created'', JNum (show_int created)), (''id'', JStr cid), (''model'', JStr model),
           (''object'', JStr ''chat.completion.chunk'')]"

definition cache_id :: "time \<Rightarrow> string" where
  "cache_id now = ''chatcmpl-cache-'' @ show_int now"

text \<open>\<open>Time.Unix\<close>\<close>

definition unix :: "time \<Rightarrow> int" where
  "unix t = t div second"

text \<open>The two readings of the clock are \<open>t1\<close> and \<open>t2\<close>.\<close>

definition replay_cached_stream ::
  "stream_env \<Rightarrow> bool \<Rightarrow> time \<Rightarrow> time \<Rightarrow> string \<Rightarrow> string \<Rightarrow> string \<times> go_error option" where
  "replay_cached_stream env can_flush t1 t2 model content =
     (if \<not> can_flush then ([], Some (OtherError ''response writer does not support flushing''))
      else
        let encode = (\<lambda>d. marshal (chunk_json (cache_id t1) (unix t2) model d))
        in case write_err env 0 of
             Some e \<Rightarrow> ([], Some e)
           | None \<Rightarrow> replay_words encode env 0 (Go_Strings.fields content) (event (encode RoleDelta)))"


subsection \<open>Lines\<close>

function lines_of :: "string \<Rightarrow> string list" where
  "lines_of s =
     (let (line, rest, full) = read_bytes s
      in if full then line # lines_of rest else if line = [] then [] else [line])"
  by pat_completeness auto
termination by (relation "measure length") (auto dest: read_bytes_shorter sym)

declare lines_of.simps [simp del]

lemma read_bytes_split: "read_bytes s = (line, rest, full) \<Longrightarrow> line @ rest = s \<and> (full \<or> rest = [])"
proof -
  assume r: "read_bytes s = (line, rest, full)"
  let ?P = "\<lambda>c. c \<noteq> newline"
  have s: "takeWhile ?P s @ dropWhile ?P s = s" by (rule takeWhile_dropWhile_id)
  show ?thesis
  proof (cases "dropWhile ?P s")
    case Nil
    then show ?thesis using r s unfolding read_bytes_def Let_def Nil by simp
  next
    case (Cons c cs)
    then have "c = newline" using hd_dropWhile [of ?P s] by simp
    then show ?thesis using r s unfolding read_bytes_def Let_def Cons by auto
  qed
qed

lemma concat_lines: "concat (lines_of s) = s"
proof (induction s rule: lines_of.induct)
  case (1 s)
  obtain line rest full where r: "read_bytes s = (line, rest, full)" by (rule prod_cases3)
  show ?case using 1 [OF r [symmetric] refl] read_bytes_split [OF r] r
    by (subst lines_of.simps) auto
qed

lemma read_line: "newline \<notin> set l \<Longrightarrow> read_bytes (l @ newline # rest) = (l @ [newline], rest, True)"
  by (simp add: read_bytes_def takeWhile_append dropWhile_append)

lemma lines_of_line: "newline \<notin> set l \<Longrightarrow> lines_of (l @ newline # rest) = (l @ [newline]) # lines_of rest"
  by (subst lines_of.simps) (simp add: read_line)

lemma lines_of_Nil [simp]: "lines_of [] = []"
  by (subst lines_of.simps) (simp add: read_bytes_def)

text \<open>The proxy works through a prefix of the lines; without an error, through all of them.\<close>

lemma stream_loop_lines:
  "\<exists>k. sent (stream_loop env i body out content) = out @ concat (take k (lines_of body))
     \<and> s_content (stream_loop env i body out content)
         = content @ concat (map (line_content) (take k (lines_of body)))
     \<and> (s_err (stream_loop env i body out content) = None \<longrightarrow>
          length (lines_of body) \<le> k
          \<and> s_tokens (stream_loop env i body out content)
              = length (Go_Strings.fields (s_content (stream_loop env i body out content))))"
proof (induction env i body out content rule: stream_loop.induct)
  case (1 env i body out content)
  obtain line rest full where r: "read_bytes body = (line, rest, full)" by (rule prod_cases3)
  have l: "lines_of body = (if full then line # lines_of rest else if line = [] then [] else [line])"
    using r by (subst lines_of.simps) simp
  have lc: "line_content [] = []" by (simp add: line_content_def)
  let ?r = "stream_loop env i body out content"
  consider (stop) e where "?r = stopped_with out content (Some e)"
    | (last) "\<not> full" "\<exists>n e. ?r = \<lparr>sent = out @ line, s_content = content @ line_content line, s_tokens = n, s_err = e\<rparr>
          \<and> (e = None \<longrightarrow> n = length (Go_Strings.fields (content @ line_content line)))"
    | (more) "full" "ctx_err env i = None" "line \<noteq> [] \<longrightarrow> write_err env i = None"
        "?r = stream_loop env (Suc i) rest (out @ line) (content @ line_content line)"
  proof -
    note eq = stream_loop.simps [of env i body out content, unfolded r Let_def prod.case]
    show thesis
    proof (cases "ctx_err env i")
      case (Some e)
      then show thesis using eq by (intro stop [of e]) simp
    next
      case None
      note ctx = None
      show thesis
      proof (cases "line \<noteq> [] \<and> write_err env i \<noteq> None")
        case True
        then obtain e where "write_err env i = Some e" by blast
        then show thesis using eq ctx True by (intro stop [of e]) simp
      next
        case False
        show thesis
        proof (cases full)
          case True
          then show thesis using eq ctx False by (intro more) auto
        next
          case False
          then show thesis
            using eq ctx \<open>\<not> (line \<noteq> [] \<and> write_err env i \<noteq> None)\<close>
            by (cases "read_end env") (auto intro: stop simp: stopped_with_def intro!: last)
        qed
      qed
    qed
  qed
  then show ?case
  proof cases
    case stop
    then show ?thesis by (intro exI [of _ 0]) (simp add: stopped_with_def)
  next
    case last
    then obtain n e where eq: "?r = \<lparr>sent = out @ line, s_content = content @ line_content line,
        s_tokens = n, s_err = e\<rparr>"
      "e = None \<longrightarrow> n = length (Go_Strings.fields (content @ line_content line))" by blast
    show ?thesis unfolding eq(1) using last(1) eq(2) lc by (intro exI [of _ 1]) (simp add: l)
  next
    case more
    have "\<exists>k. sent ?r = (out @ line) @ concat (take k (lines_of rest))
       \<and> s_content ?r = (content @ line_content line) @ concat (map (line_content) (take k (lines_of rest)))
       \<and> (s_err ?r = None \<longrightarrow> length (lines_of rest) \<le> k \<and> s_tokens ?r = length (Go_Strings.fields (s_content ?r)))"
      unfolding more(4) using more r by (intro 1 [OF _ r [symmetric] refl]) auto
    then obtain k where "sent ?r = (out @ line) @ concat (take k (lines_of rest))"
       "s_content ?r = (content @ line_content line) @ concat (map (line_content) (take k (lines_of rest)))"
       "s_err ?r = None \<longrightarrow> length (lines_of rest) \<le> k \<and> s_tokens ?r = length (Go_Strings.fields (s_content ?r))"
      by (elim exE conjE) (rule that)
    then show ?thesis by (intro exI [of _ "Suc k"]) (simp add: l more(1))
  qed
qed


subsection \<open>Properties\<close>

text \<open>C28:
  The proxy is transparent.  The client gets the upstream body verbatim: what is sent is the
  concatenation of its first \<open>k\<close> lines, and the content returned is gathered from exactly
  those lines; without an error these are all the lines and the client has the whole body.
  With an error the content of the lines sent so far is returned all the same.
\<close>

theorem stream_transparent:
  "\<exists>k. sent (stream_proxy env True body) = concat (take k (lines_of body))
     \<and> s_content (stream_proxy env True body) = concat (map (line_content) (take k (lines_of body)))
     \<and> concat (lines_of body) = body
     \<and> (s_err (stream_proxy env True body) \<noteq> None
        \<or> sent (stream_proxy env True body) = body
          \<and> s_content (stream_proxy env True body) = concat (map (line_content) (lines_of body))
          \<and> s_tokens (stream_proxy env True body)
              = length (Go_Strings.fields (s_content (stream_proxy env True body))))"
proof -
  obtain k where K: "sent (stream_loop env 0 body [] []) = concat (take k (lines_of body))
     \<and> s_content (stream_loop env 0 body [] []) = concat (map (line_content) (take k (lines_of body)))
     \<and> (s_err (stream_loop env 0 body [] []) = None \<longrightarrow> length (lines_of body) \<le> k
        \<and> s_tokens (stream_loop env 0 body [] []) = length (Go_Strings.fields (s_content (stream_loop env 0 body [] []))))"
    using stream_loop_lines [of env 0 body "[]" "[]", unfolded append_Nil] by (elim exE) (rule that)
  note k = K [THEN conjunct1] K [THEN conjunct2, THEN conjunct1] K [THEN conjunct2, THEN conjunct2]
  have p: "stream_proxy env True body = stream_loop env 0 body [] []" by (simp add: stream_proxy_def)
  have "s_err (stream_loop env 0 body [] []) = None \<Longrightarrow> take k (lines_of body) = lines_of body"
    using k(3) by simp
  then show ?thesis unfolding p using k concat_lines [of body] by (intro exI [of _ k]) auto
qed

lemma match_len_none: "(\<And>p. p \<in> set ps \<Longrightarrow> p \<noteq> [] \<and> hd p \<noteq> c) \<Longrightarrow> match_len ps (c # s) = 0"
proof -
  assume a: "\<And>p. p \<in> set ps \<Longrightarrow> p \<noteq> [] \<and> hd p \<noteq> c"
  have "find (\<lambda>p. prefix p (c # s)) ps = None"
    using a by (fastforce simp: find_None_iff prefix_Cons)
  then show ?thesis by (simp add: match_len_def)
qed

lemma trim_object: "trim_space ((CHR ''{'' # p @ ''}'') @ [newline]) = CHR ''{'' # p @ ''}''"
proof -
  let ?r = "map rev space_seqs"
  have h: "match_len space_seqs (CHR ''{'' # s) = 0" for s
    by (rule match_len_none) (auto simp: space_seqs_def)
  have t: "match_len ?r (CHR ''}'' # s) = 0" for s
    by (rule match_len_none) (auto simp: space_seqs_def)
  have n: "match_len ?r (newline # s) = 1" for s
    by (simp add: match_len_def space_seqs_def newline_def)
  have "strip space_seqs (CHR ''{'' # s) = CHR ''{'' # s" for s by (subst strip.simps) (simp add: h)
  moreover have "strip ?r (CHR ''}'' # s) = CHR ''}'' # s" for s by (subst strip.simps) (simp add: t)
  then have "strip ?r (newline # CHR ''}'' # s) = CHR ''}'' # s" for s
    by (subst strip.simps) (simp add: n)
  ultimately show ?thesis by (simp add: trim_space_def)
qed

lemma content_of_event:
  assumes "newline \<notin> set (CHR ''{'' # p @ ''}'')" "first_content ''delta'' (CHR ''{'' # p @ ''}'') = Some c"
  shows "concat (map line_content (lines_of (event (CHR ''{'' # p @ ''}'') @ rest)))
    = c @ concat (map line_content (lines_of rest))"
proof -
  let ?l = "''data: '' @ (CHR ''{'' # p @ ''}'')"
  have "newline \<notin> set ?l" using assms(1) by (simp add: newline_def)
  then have "lines_of (event (CHR ''{'' # p @ ''}'') @ rest) = (?l @ [newline]) # lines_of (newline # rest)"
    using lines_of_line [of ?l "newline # rest"] by (simp add: event_def)
  moreover have "lines_of (newline # rest) = [newline] # lines_of rest"
    using lines_of_line [of "[]" rest] by simp
  moreover have "line_content (?l @ [newline]) = c"
    using trim_object [of p] assms(2) by (simp add: line_content_def)
  moreover have "line_content [newline] = []" by (simp add: line_content_def newline_def)
  ultimately show ?thesis by simp
qed

text \<open>An object printed on a line of its own is read by the proxy.\<close>

lemma content_of_object:
  assumes "printable (JObj kvs)" "first_content ''delta'' (marshal (JObj kvs)) = Some c"
  shows "concat (map line_content (lines_of (event (marshal (JObj kvs)) @ rest)))
    = c @ concat (map line_content (lines_of rest))"
proof -
  obtain p where p: "marshal (JObj kvs) = CHR ''{'' # p @ ''}''" by simp
  have "newline \<notin> set (marshal (JObj kvs))" using marshal_line [OF assms(1)] by (simp add: newline_def)
  then show ?thesis using content_of_event [of p c rest] assms(2) unfolding p by simp
qed

subsection \<open>Chunks come back\<close>

definition delta_text :: "delta \<Rightarrow> string" where
  "delta_text d = (case d of ContentDelta s \<Rightarrow> s | _ \<Rightarrow> [])"

lemma find_field_names:
  "find_field [''choices''] ''choices'' = Some ''choices''" "find_field [''delta''] ''delta'' = Some ''delta''"
  "find_field [''content''] ''content'' = Some ''content''" "find_field [''content''] ''role'' = None"
  "find_field [''choices''] ''created'' = None" "find_field [''choices''] ''id'' = None"
  "find_field [''choices''] ''model'' = None" "find_field [''choices''] ''object'' = None"
  "find_field [''delta''] ''finish_reason'' = None" "find_field [''delta''] ''index'' = None"
  "find_field [''delta''] ''message'' = None"
  by code_simp+

lemmas decode_simps = decode_struct_def decode_slice_def decode_string_def decode_choices_def decode_choice_def
  find_field_names

lemma printable_chunk: "printable (chunk_json cid created model d)"
  by (simp add: chunk_json_def delta_json_def number_ok_show_int split: delta.splits)

lemma depth_chunk: "depth (chunk_json cid created model d) \<le> max_nesting"
  by (simp add: chunk_json_def delta_json_def max_nesting_def split: delta.splits)

lemma chunk_content: "first_content ''delta'' (marshal (chunk_json cid created model d)) = Some (valid_utf8 (delta_text d))"
proof -
  have "parse_document (marshal (chunk_json cid created model d)) = Some (repair (chunk_json cid created model d))"
    using marshal_roundtrip [OF printable_chunk depth_chunk] by blast
  then show ?thesis unfolding first_content_def
    by (cases d) (simp_all add: chunk_json_def delta_json_def delta_text_def decode_simps del: marshal.simps)
qed

lemma content_of_chunk:
  "concat (map line_content (lines_of (event (marshal (chunk_json cid created model d)) @ rest)))
    = valid_utf8 (delta_text d) @ concat (map line_content (lines_of rest))"
  using content_of_object [OF _ chunk_content [of cid created model d, unfolded chunk_json_def], of rest]
    printable_chunk [of cid created model d] unfolding chunk_json_def by blast

fun pieces :: "nat \<Rightarrow> string list \<Rightarrow> string list" where
  "pieces i [] = []"
| "pieces i (tok # toks) = (if i > 0 then '' '' @ tok else tok) # pieces (Suc i) toks"

lemma concat_pieces_Suc: "concat (pieces (Suc i) toks) = concat (map (\<lambda>t. '' '' @ t) toks)"
  by (induction toks arbitrary: i) auto

lemma join_blank: "toks \<noteq> [] \<Longrightarrow> join '' '' toks = hd toks @ concat (map (\<lambda>t. '' '' @ t) (tl toks))"
  by (induction "'' ''" toks rule: join.induct) auto

lemma concat_pieces: "concat (pieces 0 toks) = join '' '' toks"
  by (cases toks) (simp_all add: concat_pieces_Suc join_blank)

lemma replay_words_out:
  assumes "\<And>i. ctx_err env i = None" "\<And>i. write_err env i = None"
  shows "replay_words encode env i toks out
    = (out @ concat (map (\<lambda>s. event (encode (ContentDelta s))) (pieces i toks))
        @ event (encode StopDelta) @ event ''[DONE]'', None)"
  using assms by (induction encode env i toks out rule: replay_words.induct) simp_all

lemma content_of_done: "concat (map line_content (lines_of (event ''[DONE]''))) = []"
proof -
  have d: "lines_of (event ''[DONE]'') = [''data: [DONE]'' @ [newline], [newline]]"
    using lines_of_line [of "''data: [DONE]''" "[newline]"] lines_of_line [of "[]" "[]"]
    by (simp add: event_def newline_def)
  have "trim_space (''[DONE]'' @ [newline]) = ''[DONE]''" unfolding newline_def by code_simp
  then show ?thesis unfolding d by (simp add: line_content_def newline_def)
qed

lemma content_of_chunks:
  "concat (map line_content (lines_of
      (concat (map (\<lambda>d. event (marshal (chunk_json cid created model d))) ds) @ rest)))
   = concat (map (valid_utf8 \<circ> delta_text) ds) @ concat (map line_content (lines_of rest))"
  by (induction ds) (simp_all add: content_of_chunk)

lemma pieces_valid: "map valid_utf8 (pieces i toks) = pieces i (map valid_utf8 toks)"
  by (induction i toks rule: pieces.induct) simp_all

lemma stream_loop_no_error:
  assumes "\<And>i. ctx_err env i = None" "\<And>i. write_err env i = None" "read_end env = None"
  shows "s_err (stream_loop env i body out content) = None"
  using assms
proof (induction env i body out content rule: stream_loop.induct)
  case (1 env i body out content)
  obtain line rest full where r: "read_bytes body = (line, rest, full)" by (rule prod_cases3)
  have "full \<Longrightarrow> s_err (stream_loop env (Suc i) rest (out @ line) (content @ line_content line)) = None"
    using r by (intro 1) (simp_all add: 1(2-4))
  then show ?case using 1(2-4) r by (subst stream_loop.simps) (simp add: Let_def)
qed

text \<open>The whole replay, if nothing fails.\<close>

lemma replay_calm:
  assumes "\<And>i. ctx_err env i = None" "\<And>i. write_err env i = None"
  shows "replay_cached_stream env True t1 t2 model content
    = (concat (map (\<lambda>d. event (marshal (chunk_json (cache_id t1) (unix t2) model d)))
        (RoleDelta # map ContentDelta (pieces 0 (Go_Strings.fields content)) @ [StopDelta])) @ event ''[DONE]'', None)"
  using replay_words_out [OF assms] assms(2) by (simp add: replay_cached_stream_def comp_def)

text \<open>C29:
  A cached completion replayed to a streaming client.  If nothing fails, the deltas that a
  client (here the proxy itself) reads off the replay, parsing every chunk, put together are
  the words of the completion separated by single blanks, with bytes that are not UTF-8
  replaced.  So the replay equals the completion only when that
  has no newline, no indentation and no double blank: code and lists lose their layout.
\<close>

theorem replay_content:
  assumes "\<And>i. ctx_err env i = None" "\<And>i. write_err env i = None" "read_end env = None"
  shows "snd (replay_cached_stream env True t1 t2 model content) = None \<and>
    s_err (stream_proxy env True (fst (replay_cached_stream env True t1 t2 model content))) = None \<and>
    s_content (stream_proxy env True (fst (replay_cached_stream env True t1 t2 model content)))
      = join '' '' (map valid_utf8 (Go_Strings.fields content))"
proof -
  let ?ps = "pieces 0 (Go_Strings.fields content)"
  let ?ds = "RoleDelta # map ContentDelta ?ps @ [StopDelta]"
  let ?body = "concat (map (\<lambda>d. event (marshal (chunk_json (cache_id t1) (unix t2) model d))) ?ds) @ event ''[DONE]''"
  have r: "replay_cached_stream env True t1 t2 model content = (?body, None)"
    using replay_calm [OF assms(1,2)] .
  have noerr: "s_err (stream_loop env i body out c) = None" for i body out c
    by (rule stream_loop_no_error [OF assms(1-3)])
  have "concat (map line_content (lines_of ?body)) = concat (map (valid_utf8 \<circ> delta_text) ?ds)"
    unfolding content_of_chunks content_of_done by simp
  also have "\<dots> = concat (map valid_utf8 ?ps)" by (simp add: delta_text_def comp_def)
  also have "\<dots> = join '' '' (map valid_utf8 (Go_Strings.fields content))"
    by (simp add: pieces_valid concat_pieces)
  finally have c: "concat (map line_content (lines_of ?body)) = join '' '' (map valid_utf8 (Go_Strings.fields content))" .
  obtain k where "s_content (stream_loop env 0 ?body [] []) = concat (map line_content (take k (lines_of ?body)))"
    "length (lines_of ?body) \<le> k"
    using stream_loop_lines [of env 0 ?body "[]" "[]"] noerr by auto
  then show ?thesis using noerr c by (simp add: r stream_proxy_def)
qed

text \<open>An environment in which nothing fails.\<close>

definition calm :: stream_env where
  "calm = \<lparr>ctx_err = (\<lambda>_. None), write_err = (\<lambda>_. None), read_end = None\<rparr>"

lemma replay_content_witness:
  "s_content (stream_proxy calm True (fst (replay_cached_stream calm True 5 5 ''m'' ([CHR ''a'', CHR 0x0A] @ ''   b''))))
   = ''a b''"
proof -
  let ?c = "[CHR ''a'', CHR 0x0A] @ ''   b''"
  have f: "Go_Strings.fields ?c = [''a'', ''b'']" by code_simp
  have "s_content (stream_proxy calm True (fst (replay_cached_stream calm True 5 5 ''m'' ?c)))
      = join '' '' (map valid_utf8 (Go_Strings.fields ?c))"
    using replay_content [of calm 5 5 "''m''" ?c] by (simp add: calm_def)
  then show ?thesis unfolding f by simp
qed


lemma stream_transparent_witness:
  "sent (stream_proxy calm True ''data: x'') = ''data: x''"
proof -
  have "s_err (stream_proxy calm True ''data: x'') = None" by code_simp
  then show ?thesis using stream_transparent [of calm "''data: x''"] by auto
qed

end
