(* ===== verification/Gateway.thy ===== *)
theory Gateway
  imports Rate_Limit Scheduler Cache Sse
begin

section \<open>The gateway\<close>

text \<open>
  \<open>internal/gateway\<close>: the key check (\<open>auth.go\<close>) and the pipeline of a chat request
  (\<open>handler.go\<close>).  The limiter and the store are interfaces, so the handler works on their
  operations and states; the texts of errors and what the other goroutines do while the
  handler waits (the scheduler's verdict, the job's result, the client leaving) are arguments.
\<close>

subsection \<open>Authentication\<close>

datatype auth_result = Unauthorized string | Public | Authorized string

definition api_key_auth :: "string list \<Rightarrow> string \<Rightarrow> string \<Rightarrow> auth_result" where
  "api_key_auth allowed path authorization =
     (if path = ''/health'' \<or> path = ''/metrics'' then Public
      else if take 7 authorization \<noteq> ''Bearer '' then Unauthorized ''{\"error\":\"missing bearer token\"}''
      else
        let key = trim_space (drop 7 authorization)
        in if key \<notin> set allowed then Unauthorized ''{\"error\":\"invalid api key\"}''
           else Authorized key)"

text \<open>\<open>APIKeyFromContext\<close>\<close>

definition key_from_context :: "auth_result \<Rightarrow> string" where
  "key_from_context a = (case a of Authorized key \<Rightarrow> key | _ \<Rightarrow> [])"

subsection \<open>Requests\<close>

record chat_message =
  cm_Role :: string
  cm_Content :: string

record chat_request =
  cr_Model :: string
  cr_Messages :: "chat_message list"
  cr_Stream :: bool
  cr_MaxTokens :: int
  cr_Temperature :: float64

text \<open>
  \<open>json.Unmarshal\<close> into a \<open>ChatRequest\<close>, by the tags of its fields; \<open>None\<close> for an error.  The
  second component of the state is the rest of the backing array of \<open>Messages\<close>.
\<close>

definition zero_message :: chat_message where
  "zero_message = \<lparr>cm_Role = [], cm_Content = []\<rparr>"

definition decode_message :: "chat_message decoder" where
  "decode_message = decode_struct
     [(''role'', at_field cm_Role (\<lambda>x m. m\<lparr>cm_Role := x\<rparr>) decode_string),
      (''content'', at_field cm_Content (\<lambda>x m. m\<lparr>cm_Content := x\<rparr>) decode_string)]"

definition request_fields :: "(string \<times> (chat_request \<times> chat_message list) decoder) list" where
  "request_fields =
     [(''model'', at_field (cr_Model \<circ> fst) (\<lambda>x (r, h). (r\<lparr>cr_Model := x\<rparr>, h)) decode_string),
      (''messages'', at_field (\<lambda>(r, h). (cr_Messages r, h)) (\<lambda>(ms, h) (r, _). (r\<lparr>cr_Messages := ms\<rparr>, h))
                       (decode_slice decode_message zero_message)),
      (''stream'', at_field (cr_Stream \<circ> fst) (\<lambda>x (r, h). (r\<lparr>cr_Stream := x\<rparr>, h)) decode_bool),
      (''max_tokens'', at_field (cr_MaxTokens \<circ> fst) (\<lambda>x (r, h). (r\<lparr>cr_MaxTokens := x\<rparr>, h)) decode_int),
      (''temperature'', at_field (cr_Temperature \<circ> fst) (\<lambda>x (r, h). (r\<lparr>cr_Temperature := x\<rparr>, h)) decode_float64)]"

definition zero_request :: chat_request where
  "zero_request = \<lparr>cr_Model = [], cr_Messages = [], cr_Stream = False, cr_MaxTokens = 0, cr_Temperature = 0\<rparr>"

definition unmarshal_request :: "string \<Rightarrow> chat_request option" where
  "unmarshal_request raw =
     map_option fst (Option.bind (parse_document raw) (decode_struct request_fields (zero_request, [])))"

definition flatten_prompt :: "chat_message list \<Rightarrow> string" where
  "flatten_prompt msgs =
     trim_space (concat (map (\<lambda>m. cm_Role m @ '': '' @ cm_Content m @ [newline]) msgs))"

definition extract_assistant_content :: "string \<Rightarrow> string" where
  "extract_assistant_content body =
     (case first_content ''message'' (trim_space body) of None \<Rightarrow> [] | Some c \<Rightarrow> c)"

definition status_label :: "int \<Rightarrow> string" where
  "status_label code =
     (if 500 \<le> code then ''5xx''
      else if 400 \<le> code then ''4xx''
      else if 300 \<le> code then ''3xx''
      else if 200 \<le> code then ''2xx''
      else ''1xx'')"

subsection \<open>The pipeline\<close>

text \<open>The dependencies with their states; \<open>None\<close> for one that is not configured.\<close>

record ('l, 's) deps =
  d_Limiter :: "('l \<Rightarrow> string \<Rightarrow> time \<Rightarrow> (rl_error + bool) \<times> 'l) option"
  d_limiter :: 'l
  d_Cache :: "cache option"
  d_ops :: "'s store_ops"
  d_store :: "'s option"
  d_Scheduler :: bool
  RateLimitRejections :: "string \<Rightarrow> nat"
  RequestsTotal :: "string \<Rightarrow> nat"

text \<open>
  What the handler meets: the request body (\<open>None\<close> if it is unreadable), the header
  \<open>Cache-Control\<close>, the clock before the upstream call and after it, the scheduler's answer, how
  the wait ends, and the texts of errors.
\<close>

datatype wait_end = ClientGone | JobDone "go_error + response \<times> string"

record handler_env =
  h_body :: "string option"
  h_key :: string
  h_cache_control :: string
  h_now :: time
  h_later :: time
  h_submit :: "submit_error option"
  h_wait :: wait_end
  h_stream :: stream_env
  h_can_flush :: bool
  h_read_err :: "go_error option"
  h_err_text :: "go_error \<Rightarrow> string"
  h_json_err :: "string \<Rightarrow> string"

text \<open>\<open>ReadAll\<close> of the \<open>MaxBytesReader\<close>, \<open>Unmarshal\<close>, and the test of the header.\<close>

definition h_raw :: "handler_env \<Rightarrow> string option" where
  "h_raw env =
     (case h_body env of None \<Rightarrow> None | Some b \<Rightarrow> if length b \<le> 2 ^ 20 then Some b else None)"

definition h_unmarshal :: "handler_env \<Rightarrow> string \<Rightarrow> string + chat_request" where
  "h_unmarshal env raw =
     (case unmarshal_request raw of None \<Rightarrow> Inl (h_json_err env raw) | Some req \<Rightarrow> Inr req)"

definition h_no_store :: "handler_env \<Rightarrow> bool" where
  "h_no_store env \<longleftrightarrow> str_contains (h_cache_control env) ''no-store''"

datatype reply =
    NoReply
  | ErrorReply int string
  | CacheReply string
  | StreamReply string
  | JsonReply string string

record handled =
  h_reply :: reply
  h_status :: int
  h_submitted :: bool
  h_response :: "response option"
  h_body_closed :: bool

definition failed :: "int \<Rightarrow> string \<Rightarrow> bool \<Rightarrow> handled" where
  "failed code msg submitted =
     \<lparr>h_reply = ErrorReply code msg, h_status = code, h_submitted = submitted, h_response = None,
      h_body_closed = False\<rparr>"

definition limit_stage :: "string \<Rightarrow> time \<Rightarrow> ('l, 's) deps \<Rightarrow> bool \<times> ('l, 's) deps" where
  "limit_stage key now d =
     (case d_Limiter d of
        None \<Rightarrow> (True, d)
      | Some allow \<Rightarrow>
          (case allow (d_limiter d) key now of
             (Inl _, l) \<Rightarrow> (True, d\<lparr>d_limiter := l\<rparr>)
           | (Inr ok, l) \<Rightarrow>
               let d = d\<lparr>d_limiter := l\<rparr>
               in if ok then (True, d)
                  else (False, d\<lparr>RateLimitRejections := (RateLimitRejections d)(key := Suc (RateLimitRejections d key))\<rparr>)))"

definition cache_stage :: "bool \<Rightarrow> string \<Rightarrow> time \<Rightarrow> ('l, 's) deps \<Rightarrow> entry option \<times> ('l, 's) deps" where
  "cache_stage bypass prompt now d =
     (case d_Cache d of
        None \<Rightarrow> (None, d)
      | Some c \<Rightarrow>
          if bypass then (None, d)
          else (case cache_lookup (d_ops d) c (d_store d) prompt now of
                  (Inl _, c) \<Rightarrow> (None, d\<lparr>d_Cache := Some c\<rparr>)
                | (Inr hit, c) \<Rightarrow> (hit, d\<lparr>d_Cache := Some c\<rparr>)))"

definition store_stage :: "bool \<Rightarrow> string \<Rightarrow> entry \<Rightarrow> time \<Rightarrow> ('l, 's) deps \<Rightarrow> ('l, 's) deps" where
  "store_stage bypass prompt e now d =
     (case d_Cache d of
        None \<Rightarrow> d
      | Some c \<Rightarrow>
          if bypass \<or> Content e = [] then d
          else (case cache_store (d_ops d) c (d_store d) prompt e now of
                  (_, c, st) \<Rightarrow> d\<lparr>d_Cache := Some c, d_store := st\<rparr>))"

text \<open>The completion made up for a hit without a stored response, its keys sorted.\<close>

definition hit_json :: "time \<Rightarrow> time \<Rightarrow> string \<Rightarrow> string \<Rightarrow> json" where
  "hit_json t1 t2 model content =
     JObj [(''choices'', JArr [JObj
             [(''finish_reason'', JStr ''stop''), (''index'', JNum (show_int 0)),
              (''message'', JObj [(''content'', JStr content), (''role'', JStr ''assistant'')])]]),
           (''created'', JNum (show_int (unix t2))), (''id'', JStr (cache_id t1)), (''model'', JStr model),
           (''object'', JStr ''chat.completion'')]"

definition serve_cache_hit :: "handler_env \<Rightarrow> chat_request \<Rightarrow> entry \<Rightarrow> reply" where
  "serve_cache_hit env req hit =
     (if cr_Stream req
      then StreamReply (fst (replay_cached_stream (h_stream env) (h_can_flush env) (h_later env) (h_later env)
                                (cr_Model req) (Content hit)))
      else if Raw hit \<noteq> [] then CacheReply (Raw hit)
      else CacheReply (marshal (hit_json (h_later env) (h_later env) (cr_Model req) (Content hit)) @ [newline]))"

text \<open>The end of the handler, once the job has a response; its body is closed on every path.\<close>

definition forward :: "handler_env \<Rightarrow> chat_request \<Rightarrow> string \<Rightarrow> response \<Rightarrow> string \<Rightarrow> ('l, 's) deps \<Rightarrow> handled \<times> ('l, 's) deps" where
  "forward env req prompt resp backend d =
     (if cr_Stream req
      then
        let s = stream_proxy (h_stream env) (h_can_flush env) (Body resp);
            e = \<lparr>e_Model = cr_Model req, Content = s_content s, Raw = [], CreatedAt = zero_time\<rparr>
        in (\<lparr>h_reply = StreamReply (sent s), h_status = 200, h_submitted = True, h_response = Some resp,
             h_body_closed = True\<rparr>,
            store_stage (h_no_store env) prompt e (h_later env) d)
      else
        case h_read_err env of
          Some err \<Rightarrow>
            ((failed 502 (''{\"error\":\"read upstream: '' @ h_err_text env err @ ''\"}'') True)
               \<lparr>h_response := Some resp, h_body_closed := True\<rparr>, d)
        | None \<Rightarrow>
            let e = \<lparr>e_Model = cr_Model req, Content = extract_assistant_content (Body resp),
                     Raw = Body resp, CreatedAt = zero_time\<rparr>
            in (\<lparr>h_reply = JsonReply backend (Body resp), h_status = 200, h_submitted = True,
                 h_response = Some resp, h_body_closed = True\<rparr>,
                store_stage (h_no_store env) prompt e (h_later env) d))"

definition dispatch_stage :: "handler_env \<Rightarrow> chat_request \<Rightarrow> string \<Rightarrow> ('l, 's) deps \<Rightarrow> handled \<times> ('l, 's) deps" where
  "dispatch_stage env req prompt d =
     (if d_Scheduler d \<and> h_submit env = Some ErrQueueFull
      then (failed 503 ''{\"error\":\"server busy, try again\"}'' False, d)
      else case h_wait env of
             ClientGone \<Rightarrow>
               (\<lparr>h_reply = NoReply, h_status = 499, h_submitted = True, h_response = None, h_body_closed = False\<rparr>, d)
           | JobDone (Inl err) \<Rightarrow>
               (failed 502 (''{\"error\":\"upstream: '' @ h_err_text env err @ ''\"}'') True, d)
           | JobDone (Inr (resp, backend)) \<Rightarrow> forward env req prompt resp backend d)"

definition chat_body :: "handler_env \<Rightarrow> ('l, 's) deps \<Rightarrow> handled \<times> ('l, 's) deps" where
  "chat_body env d =
     (case h_raw env of
        None \<Rightarrow> (failed 400 ''{\"error\":\"body too large or unreadable\"}'' False, d)
      | Some raw \<Rightarrow>
          (case h_unmarshal env raw of
             Inl err \<Rightarrow> (failed 400 (''{\"error\":\"bad json: '' @ err @ ''\"}'') False, d)
           | Inr req \<Rightarrow>
               (case limit_stage (h_key env) (h_now env) d of
                  (False, d) \<Rightarrow> (failed 429 ''{\"error\":\"rate limit exceeded\"}'' False, d)
                | (True, d) \<Rightarrow>
                    let prompt = flatten_prompt (cr_Messages req)
                    in case cache_stage (h_no_store env) prompt (h_now env) d of
                         (Some hit, d) \<Rightarrow>
                           (\<lparr>h_reply = serve_cache_hit env req hit, h_status = 200, h_submitted = False,
                             h_response = None, h_body_closed = False\<rparr>, d)
                       | (None, d) \<Rightarrow> dispatch_stage env req prompt d)))"

text \<open>
  \<open>dispatchDirect\<close>, which stands in for a disabled scheduler.  Its deferred close of \<open>Done\<close>
  runs on every path, a panic in the router included.
\<close>

definition dispatch_direct ::
  "(nat \<Rightarrow> attempt_env) \<Rightarrow> router option \<Rightarrow> job \<Rightarrow> bool \<times> job \<times> router option" where
  "dispatch_direct env rtr j =
     (case rtr of
        None \<Rightarrow> (False, j\<lparr>j_Err := Some NoRouter, Done := ClosedChan\<rparr>, None)
      | Some r \<Rightarrow>
          (case do_request env r of
             (DoPanic, _, r) \<Rightarrow> (True, j\<lparr>Done := ClosedChan\<rparr>, Some r)
           | (DoErr err, _, r) \<Rightarrow> (False, j\<lparr>j_Err := Some err, Done := ClosedChan\<rparr>, Some r)
           | (DoOk resp backend, _, r) \<Rightarrow>
               (False, j\<lparr>j_Response := Some resp, j_Backend := backend, Done := ClosedChan\<rparr>, Some r)))"

lemma dispatch_direct_result:
  assumes "dispatch_direct env rtr j = (p, j', rtr')" "j_Response j = None" "j_Err j = None"
  shows "Done j' = ClosedChan" "\<not> p \<Longrightarrow> (j_Err j' = None) \<noteq> (j_Response j' = None)"
  using assms by (auto simp: dispatch_direct_def split: option.splits prod.splits do_result.splits)

text \<open>\<open>chatHandler\<close>: the deferred count of the request, by status class.\<close>

definition chat_handler :: "handler_env \<Rightarrow> ('l, 's) deps \<Rightarrow> handled \<times> ('l, 's) deps" where
  "chat_handler env d =
     (let (r, d) = chat_body env d; l = status_label (h_status r)
      in (r, d\<lparr>RequestsTotal := (RequestsTotal d)(l := Suc (RequestsTotal d l))\<rparr>))"


subsection \<open>The stages\<close>

lemma limit_stage_keeps:
  assumes "limit_stage key now d = (ok, d')"
  shows "d_Limiter d' = d_Limiter d" "d_Cache d' = d_Cache d" "d_store d' = d_store d" "RequestsTotal d' = RequestsTotal d"
  using assms by (auto simp: limit_stage_def Let_def split: option.splits prod.splits sum.splits if_splits)

lemma cache_stage_keeps:
  assumes "cache_stage bypass prompt now d = (hit, d')"
  shows "d_Limiter d' = d_Limiter d" "d_limiter d' = d_limiter d" "d_store d' = d_store d" "RequestsTotal d' = RequestsTotal d"
    "bypass \<Longrightarrow> d' = d \<and> hit = None"
  using assms by (auto simp: cache_stage_def split: option.splits prod.splits sum.splits if_splits)

lemma store_stage_keeps:
  "d_Limiter (store_stage bypass prompt e now d) = d_Limiter d"
  "d_limiter (store_stage bypass prompt e now d) = d_limiter d"
  "RequestsTotal (store_stage bypass prompt e now d) = RequestsTotal d"
  "bypass \<Longrightarrow> store_stage bypass prompt e now d = d"
  by (auto simp: store_stage_def split: option.splits prod.splits)

lemma forward_spec:
  assumes "forward env req prompt resp backend d = (r, d')"
  shows "d_Limiter d' = d_Limiter d \<and> d_limiter d' = d_limiter d \<and> RequestsTotal d' = RequestsTotal d
    \<and> (h_no_store env \<longrightarrow> d' = d) \<and> h_response r = Some resp \<and> h_body_closed r \<and> h_submitted r"
  using assms
  by (auto simp: forward_def failed_def Let_def store_stage_keeps split: if_splits option.splits)

lemma dispatch_stage_spec:
  assumes "dispatch_stage env req prompt d = (r, d')"
  shows "d_Limiter d' = d_Limiter d \<and> d_limiter d' = d_limiter d \<and> RequestsTotal d' = RequestsTotal d
    \<and> (h_no_store env \<longrightarrow> d' = d) \<and> (h_response r = None \<or> h_body_closed r)
    \<and> (d_store d' = d_store d \<or> h_response r \<noteq> None)
    \<and> (h_response r = None \<longrightarrow> d' = d)"
proof (cases "\<exists>resp backend. h_wait env = JobDone (Inr (resp, backend)) \<and> \<not> (d_Scheduler d \<and> h_submit env = Some ErrQueueFull)")
  case True
  then obtain resp backend where "forward env req prompt resp backend d = (r, d')"
    using assms by (auto simp: dispatch_stage_def)
  from forward_spec [OF this] show ?thesis by simp
next
  case False
  then have "d' = d \<and> h_response r = None"
    using assms by (auto simp: dispatch_stage_def failed_def split: if_splits wait_end.splits sum.splits)
  then show ?thesis by simp
qed

text \<open>The body of the handler, as the stages it went through.\<close>

lemma chat_body_cases:
  obtains
    (bad) "h_raw env = None \<or> (\<exists>raw err. h_raw env = Some raw \<and> h_unmarshal env raw = Inl err)"
      "\<exists>msg. chat_body env d = (failed 400 msg False, d)"
  | (limited) raw req d1 where "h_raw env = Some raw" "h_unmarshal env raw = Inr req"
      "limit_stage (h_key env) (h_now env) d = (False, d1)"
      "chat_body env d = (failed 429 ''{\"error\":\"rate limit exceeded\"}'' False, d1)"
  | (hit) raw req d1 d2 e where "h_raw env = Some raw" "h_unmarshal env raw = Inr req"
      "limit_stage (h_key env) (h_now env) d = (True, d1)"
      "cache_stage (h_no_store env) (flatten_prompt (cr_Messages req)) (h_now env) d1 = (Some e, d2)"
      "chat_body env d = (\<lparr>h_reply = serve_cache_hit env req e, h_status = 200, h_submitted = False,
         h_response = None, h_body_closed = False\<rparr>, d2)"
  | (dispatched) raw req d1 d2 where "h_raw env = Some raw" "h_unmarshal env raw = Inr req"
      "limit_stage (h_key env) (h_now env) d = (True, d1)"
      "cache_stage (h_no_store env) (flatten_prompt (cr_Messages req)) (h_now env) d1 = (None, d2)"
      "chat_body env d = dispatch_stage env req (flatten_prompt (cr_Messages req)) d2"
proof (cases "h_raw env")
  case None
  then show thesis by (intro bad) (auto simp: chat_body_def)
next
  case (Some raw)
  note raw = Some
  show thesis
  proof (cases "h_unmarshal env raw")
    case (Inl err)
    then show thesis using raw by (intro bad) (auto simp: chat_body_def)
  next
    case (Inr req)
    obtain ok d1 where l: "limit_stage (h_key env) (h_now env) d = (ok, d1)" by force
    obtain e d2 where c: "cache_stage (h_no_store env) (flatten_prompt (cr_Messages req)) (h_now env) d1 = (e, d2)" by force
    show thesis
    proof (cases ok)
      case False
      then show thesis using raw Inr l by (intro limited [of raw req d1]) (simp_all add: chat_body_def)
    next
      case True
      show thesis
      proof (cases e)
        case None
        then show thesis using raw Inr l c True
          by (intro dispatched [of raw req d1 d2]) (simp_all add: chat_body_def)
      next
        case (Some hit_entry)
        then show thesis using raw Inr l c True
          by (intro hit [of raw req d1 hit_entry d2]) (simp_all add: chat_body_def)
      qed
    qed
  qed
qed

subsection \<open>Properties\<close>

text \<open>Authentication.  Outside \<open>/health\<close> and \<open>/metrics\<close>, which are public, a request passes
  exactly if its header is \<open>Bearer\<close> and a blank followed by one of the configured keys, up
  to white space around it, and it then passes with that key; with no keys configured no
  other request passes.
\<close>

lemma auth_spec:
  "((api_key_auth allowed path h = Authorized key) =
      (path \<notin> {''/health'', ''/metrics''} \<and> key \<in> set allowed
       \<and> (\<exists>rest. h = ''Bearer '' @ rest \<and> trim_space rest = key)))
   \<and> (api_key_auth allowed path h = Public) = (path \<in> {''/health'', ''/metrics''})
   \<and> key_from_context (api_key_auth allowed path h) \<in> insert [] (set allowed)"
proof (intro conjI)
  have b: "take 7 h = ''Bearer '' \<longleftrightarrow> (\<exists>rest. h = ''Bearer '' @ rest)"
  proof
    assume "take 7 h = ''Bearer ''"
    then have "h = ''Bearer '' @ drop 7 h" by (metis append_take_drop_id)
    then show "\<exists>rest. h = ''Bearer '' @ rest" ..
  qed auto
  show "(api_key_auth allowed path h = Authorized key) =
     (path \<notin> {''/health'', ''/metrics''} \<and> key \<in> set allowed
      \<and> (\<exists>rest. h = ''Bearer '' @ rest \<and> trim_space rest = key))"
  proof (cases "path \<in> {''/health'', ''/metrics''} \<or> take 7 h \<noteq> ''Bearer ''")
    case True
    then show ?thesis using b by (auto simp: api_key_auth_def)
  next
    case False
    then obtain rest where r: "h = ''Bearer '' @ rest" using b by blast
    then have "drop 7 h = rest" by simp
    then show ?thesis using False r unfolding api_key_auth_def Let_def by auto
  qed
  show "(api_key_auth allowed path h = Public) = (path \<in> {''/health'', ''/metrics''})"
    by (simp add: api_key_auth_def Let_def)
  show "key_from_context (api_key_auth allowed path h) \<in> insert [] (set allowed)"
    by (simp add: api_key_auth_def key_from_context_def Let_def)
qed







lemma chat_handler_body: "chat_body env d = (r, d1) \<Longrightarrow>
    chat_handler env d = (r, d1\<lparr>RequestsTotal := (RequestsTotal d1)(status_label (h_status r) :=
        Suc (RequestsTotal d1 (status_label (h_status r))))\<rparr>)"
  by (simp add: chat_handler_def Let_def)

text \<open>C10:
  The pipeline of a chat request, on every path.  Exactly one request is counted, under the
  class of its status.  The body of a response the handler received is closed, whether the
  request streamed, was read whole or failed on the way.  The store changes only if an
  upstream response was received.  With \<open>Cache-Control: no-store\<close> neither the cache nor the
  store changes.  A request turned away for its form, its rate or a full queue is not
  submitted, and its reply is an error.
\<close>

theorem chat_handler_spec:
  assumes "chat_handler env d = (r, d')"
  shows "RequestsTotal d' = (RequestsTotal d)(status_label (h_status r) := Suc (RequestsTotal d (status_label (h_status r))))
    \<and> (h_response r = None \<or> h_body_closed r)
    \<and> (d_store d' = d_store d \<or> h_response r \<noteq> None)
    \<and> (h_no_store env \<longrightarrow> d_Cache d' = d_Cache d \<and> d_store d' = d_store d)
    \<and> (h_status r \<in> {400, 429, 503} \<longrightarrow> \<not> h_submitted r \<and> (\<exists>msg. h_reply r = ErrorReply (h_status r) msg))"
proof -
  obtain r1 d1 where b: "chat_body env d = (r1, d1)" by force
  have r: "r1 = r" "d' = d1\<lparr>RequestsTotal := (RequestsTotal d1)(status_label (h_status r) :=
      Suc (RequestsTotal d1 (status_label (h_status r))))\<rparr>"
    using chat_handler_body [OF b] assms by auto
  have "RequestsTotal d1 = RequestsTotal d
    \<and> (h_response r = None \<or> h_body_closed r)
    \<and> (d_store d1 = d_store d \<or> h_response r \<noteq> None)
    \<and> (h_no_store env \<longrightarrow> d_Cache d1 = d_Cache d \<and> d_store d1 = d_store d)
    \<and> (h_status r \<in> {400, 429, 503} \<longrightarrow> \<not> h_submitted r \<and> (\<exists>msg. h_reply r = ErrorReply (h_status r) msg))"
  proof (cases rule: chat_body_cases [of env d])
    case bad
    then show ?thesis using b r(1) by (auto simp: failed_def)
  next
    case (limited raw req d2)
    then show ?thesis using b r(1) limit_stage_keeps [OF limited(3)] by (auto simp: failed_def)
  next
    case (hit raw req d2 d3 e)
    then show ?thesis
      using b r(1) limit_stage_keeps [OF hit(3)] cache_stage_keeps [OF hit(4)] by auto
  next
    case (dispatched raw req d2 d3)
    then have x: "dispatch_stage env req (flatten_prompt (cr_Messages req)) d3 = (r, d1)" using b r(1) by simp
    have "h_status r \<in> {400, 429, 503} \<longrightarrow> \<not> h_submitted r \<and> (\<exists>msg. h_reply r = ErrorReply (h_status r) msg)"
      using x by (auto simp: dispatch_stage_def forward_def failed_def Let_def
          split: if_splits wait_end.splits sum.splits prod.splits option.splits)
    then show ?thesis
      using limit_stage_keeps [OF dispatched(3)] cache_stage_keeps [OF dispatched(4)] dispatch_stage_spec [OF x]
      by auto
  qed
  then show ?thesis using r(2) by simp
qed

text \<open>A gateway with a limiter of one request, and a request to it that is answered.\<close>

definition demo_deps :: "(mem_limiter, memory_store) deps" where
  "demo_deps = \<lparr>d_Limiter = Some mem_allow, d_limiter = new_mem_limiter \<lparr>RPS = 1, Burst = 1, WindowSize = 0\<rparr>,
     d_Cache = Some (new_cache (\<lambda>_. Inr [1]) (1 / 2) 10), d_ops = memory_ops, d_store = Some (new_memory_store 5),
     d_Scheduler = True, RateLimitRejections = (\<lambda>_. 0), RequestsTotal = (\<lambda>_. 0)\<rparr>"

definition demo_chunk :: "string \<Rightarrow> string" where
  "demo_chunk s = ''{\"choices\":[{\"delta\":{\"content\":'' @ quote s @ ''}}]}''"

definition demo_stream :: string where
  "demo_stream = ''data: '' @ demo_chunk ''ab'' @ [newline] @ ''data: '' @ demo_chunk ''cd'' @ [newline]"

definition demo_env :: handler_env where
  "demo_env = \<lparr>h_body = Some ''{\"model\":\"m\",\"stream\":true}'', h_key = ''k'', h_cache_control = [],
     h_now = 5, h_later = 6, h_submit = None,
     h_wait = JobDone (Inr (\<lparr>StatusCode = 200, Body = demo_stream, server_of = 0, closed = False\<rparr>, ''b'')),
     h_stream = \<lparr>ctx_err = (\<lambda>_. None), write_err = (\<lambda>i. if i = 1 then Some Canceled else None), read_end = None\<rparr>,
     h_can_flush = True, h_read_err = None, h_err_text = (\<lambda>_. []), h_json_err = (\<lambda>_. [])\<rparr>"

text \<open>The request of the example, and one whose types are wrong.\<close>

lemma unmarshal_demo:
  "unmarshal_request ''{\"model\":\"m\",\"stream\":true}'' = Some (zero_request\<lparr>cr_Model := ''m'', cr_Stream := True\<rparr>)"
  "unmarshal_request ''{\"model\":\"m\",\"max_tokens\":1.5}'' = None"
  "unmarshal_request ''{\"Messages\":[{\"ROLE\":\"user\"},null],\"messages\":[{\"content\":\"x\"}]}''
    = Some (zero_request\<lparr>cr_Messages := [\<lparr>cm_Role = ''user'', cm_Content = ''x''\<rparr>]\<rparr>)"
  by code_simp+

lemma chat_handler_spec_witness:
  "h_response (fst (chat_handler (demo_env\<lparr>h_body := None\<rparr>) demo_deps)) = None
   \<and> RequestsTotal (snd (chat_handler (demo_env\<lparr>h_body := None\<rparr>) demo_deps)) ''4xx'' = 1"
proof -
  let ?e = "demo_env\<lparr>h_body := None\<rparr>"
  obtain r d' where h: "chat_handler ?e demo_deps = (r, d')" by force
  then have "r = failed 400 ''{\"error\":\"body too large or unreadable\"}'' False"
    by (simp add: chat_handler_def chat_body_def h_raw_def Let_def)
  then show ?thesis using chat_handler_spec [OF h] h
    by (simp add: failed_def status_label_def demo_deps_def)
qed

text \<open>
  A stream that breaks off is cached like a whole one: the client left after the first of
  two lines, and the store holds the half as the completion of the prompt.
\<close>

lemma broken_stream_is_cached:
  "map (Content \<circ> me_entry) (entries (the (d_store (snd (dispatch_stage demo_env
      (zero_request\<lparr>cr_Model := ''m'', cr_Stream := True\<rparr>) ''p'' demo_deps))))) = [''ab'']
   \<and> s_err (stream_proxy (h_stream demo_env) True demo_stream) = Some Canceled"
proof -
  have s: "stream_proxy (h_stream demo_env) True demo_stream
      = stopped_with (''data: '' @ demo_chunk ''ab'' @ [newline]) ''ab'' (Some Canceled)"
    by code_simp
  have n: "\<not> h_no_store demo_env" by code_simp
  show ?thesis
    using s n by (simp add: dispatch_stage_def forward_def demo_deps_def stopped_with_def demo_env_def
        store_stage_def cache_store_def memory_ops_def new_cache_def mem_put_def new_memory_store_def Let_def)
qed


subsection \<open>The rate limit, end to end\<close>

fun gateway_run :: "handler_env list \<Rightarrow> ('l, 's) deps \<Rightarrow> handled list \<times> ('l, 's) deps" where
  "gateway_run [] d = ([], d)"
| "gateway_run (env # envs) d =
     (let (r, d) = chat_handler env d; (rs, d) = gateway_run envs d in (r # rs, d))"

definition decodable :: "handler_env \<Rightarrow> bool" where
  "decodable env \<longleftrightarrow> (\<exists>raw req. h_raw env = Some raw \<and> h_unmarshal env raw = Inr req)"

definition limiter_calls :: "handler_env list \<Rightarrow> (string \<times> time) list" where
  "limiter_calls envs = map (\<lambda>e. (h_key e, h_now e)) (filter decodable envs)"

definition submitted_for :: "string \<Rightarrow> handler_env list \<Rightarrow> handled list \<Rightarrow> nat" where
  "submitted_for k envs rs = length (filter (\<lambda>(e, r). h_key e = k \<and> h_submitted r) (zip envs rs))"

text \<open>A request asks the limiter once, if it decodes, and is submitted only if it may.\<close>

lemma chat_handler_limited:
  assumes "chat_handler env d = (r, d')" "d_Limiter d = Some allow"
  shows "d_Limiter d' = Some allow
    \<and> (if decodable env
       then d_limiter d' = snd (allow (d_limiter d) (h_key env) (h_now env))
         \<and> (fst (allow (d_limiter d) (h_key env) (h_now env)) = Inr False \<longrightarrow> \<not> h_submitted r)
       else d_limiter d' = d_limiter d \<and> \<not> h_submitted r)"
proof -
  obtain r1 d1 where b: "chat_body env d = (r1, d1)" by force
  have r: "r1 = r" "d_Limiter d' = d_Limiter d1" "d_limiter d' = d_limiter d1"
    using chat_handler_body [OF b] assms(1) by auto
  have lim: "d_limiter d2 = snd (allow (d_limiter d) (h_key env) (h_now env))
      \<and> (ok = (fst (allow (d_limiter d) (h_key env) (h_now env)) \<noteq> Inr False))"
    if "limit_stage (h_key env) (h_now env) d = (ok, d2)" for ok d2
    using that assms(2) by (auto simp: limit_stage_def Let_def split: prod.splits sum.splits if_splits)
  show ?thesis
  proof (cases rule: chat_body_cases [of env d])
    case bad
    then show ?thesis using b r assms(2) by (auto simp: failed_def decodable_def)
  next
    case (limited raw req d2)
    then show ?thesis
      using b r assms(2) lim [OF limited(3)] limit_stage_keeps [OF limited(3)]
      by (auto simp: failed_def decodable_def)
  next
    case (hit raw req d2 d3 e)
    then show ?thesis
      using b r assms(2) lim [OF hit(3)] limit_stage_keeps [OF hit(3)] cache_stage_keeps [OF hit(4)]
      by (auto simp: decodable_def)
  next
    case (dispatched raw req d2 d3)
    then have x: "dispatch_stage env req (flatten_prompt (cr_Messages req)) d3 = (r, d1)" using b r(1) by simp
    have "decodable env" using dispatched(1,2) by (auto simp: decodable_def)
    then show ?thesis
      using r assms(2) lim [OF dispatched(3)] limit_stage_keeps [OF dispatched(3)]
        cache_stage_keeps [OF dispatched(4)] dispatch_stage_spec [OF x] by auto
  qed
qed

lemma submitted_le_grants:
  assumes "d_Limiter d = Some mem_allow" "k \<noteq> []"
  shows "submitted_for k envs (fst (gateway_run envs d))
    \<le> count_list (results_for k (limiter_calls envs) (fst (mem_run (d_limiter d) (limiter_calls envs)))) (Inr True)"
  using assms(1)
proof (induction envs arbitrary: d)
  case (Cons env envs)
  obtain r d' where h: "chat_handler env d = (r, d')" by force
  note lim = chat_handler_limited [OF h Cons.prems]
  obtain res m' where a: "mem_allow (d_limiter d) (h_key env) (h_now env) = (res, m')" by force
  have ih: "submitted_for k envs (fst (gateway_run envs d'))
    \<le> count_list (results_for k (limiter_calls envs) (fst (mem_run (d_limiter d') (limiter_calls envs)))) (Inr True)"
    using lim by (intro Cons.IH) blast
  have g: "fst (gateway_run (env # envs) d) = r # fst (gateway_run envs d')"
    by (simp add: h split: prod.split)
  have s: "submitted_for k (env # envs) (r # rs) = (if h_key env = k \<and> h_submitted r then 1 else 0) + submitted_for k envs rs" for rs
    by (simp add: submitted_for_def)
  show ?case
  proof (cases "decodable env")
    case False
    then show ?thesis using lim ih unfolding g s by (simp add: limiter_calls_def)
  next
    case True
    have res: "h_key env = k \<Longrightarrow> res = Inr True \<or> res = Inr False"
      using a assms(2) by (auto simp: mem_allow_def Let_def split: prod.splits if_splits)
    have m: "d_limiter d' = m'" "res = Inr False \<longrightarrow> \<not> h_submitted r" using lim True a by auto
    have "limiter_calls (env # envs) = (h_key env, h_now env) # limiter_calls envs"
      using True by (simp add: limiter_calls_def)
    then have "results_for k (limiter_calls (env # envs)) (fst (mem_run (d_limiter d) (limiter_calls (env # envs))))
        = (if h_key env = k then res # results_for k (limiter_calls envs) (fst (mem_run m' (limiter_calls envs)))
           else results_for k (limiter_calls envs) (fst (mem_run m' (limiter_calls envs))))"
      using mem_run_Cons [OF a, of "limiter_calls envs"] by (simp add: results_for_Cons)
    then show ?thesis using ih res m unfolding g s by auto
  qed
qed (simp add: submitted_for_def)

text \<open>C3:
  The rate limit holds end to end.  Over any run of the handler with the in-memory limiter,
  of requests of any keys, forms and outcomes, whose clock readings lie in \<open>[a, b]\<close> and do
  not go back, the requests of one key that are handed to the scheduler are at most the
  burst plus rate times elapsed time, up to the rounding of the bucket.
\<close>

theorem gateway_rate_bound:
  assumes "d_Limiter d = Some mem_allow" "d_limiter d = new_mem_limiter c" "k \<noteq> []" "0 < eff_burst c"
    and "eff_burst c \<le> 2 ^ 53" "eff_rps c \<le> 2 ^ 53"
    and "sorted (map h_now envs)" "\<forall>e \<in> set envs. a \<le> h_now e \<and> h_now e \<le> b" "a \<le> b"
  shows "of_nat (submitted_for k envs (fst (gateway_run envs d)))
     \<le> of_int (eff_burst c) + of_int (b - a) / 1000000000 * of_int (eff_rps c) * (1 + 1 / 2 ^ 50)
        + 3 * of_int (eff_burst c) / 2 ^ 53 * (of_nat (length envs) :: rat)"
proof -
  let ?cs = "limiter_calls envs"
  have "sorted (map snd ?cs)" "\<forall>x \<in> set ?cs. a \<le> snd x \<and> snd x \<le> b"
    using assms(7,8) by (auto simp: limiter_calls_def comp_def sorted_filter)
  then have bound: "of_nat (count_list (results_for k ?cs (fst (mem_run (new_mem_limiter c) ?cs))) (Inr True))
     \<le> of_int (eff_burst c) + of_int (b - a) / 1000000000 * of_int (eff_rps c) * (1 + 1 / 2 ^ 50)
        + 3 * of_int (eff_burst c) / 2 ^ 53 * (of_nat (length (times_for k ?cs)) :: rat)"
    using assms by (intro mem_grants_bound) auto
  have "length (times_for k ?cs) \<le> length ?cs" by (simp add: times_for_def)
  also have "\<dots> \<le> length envs" by (simp add: limiter_calls_def)
  finally have "3 * of_int (eff_burst c) / 2 ^ 53 * (of_nat (length (times_for k ?cs)) :: rat)
      \<le> 3 * of_int (eff_burst c) / 2 ^ 53 * of_nat (length envs)"
    using assms(4) by (intro mult_left_mono) auto
  moreover have "(of_nat (submitted_for k envs (fst (gateway_run envs d))) :: rat)
      \<le> of_nat (count_list (results_for k ?cs (fst (mem_run (new_mem_limiter c) ?cs))) (Inr True))"
    using submitted_le_grants [OF assms(1,3), of envs] assms(2) by simp
  ultimately show ?thesis using bound by linarith
qed

lemma gateway_rate_bound_witness:
  "of_nat (submitted_for ''k'' [demo_env, demo_env, demo_env] (fst (gateway_run [demo_env, demo_env, demo_env] demo_deps)))
     < (2 :: rat)"
proof -
  have "of_nat (submitted_for ''k'' [demo_env, demo_env, demo_env] (fst (gateway_run [demo_env, demo_env, demo_env] demo_deps)))
     \<le> of_int (eff_burst \<lparr>RPS = 1, Burst = 1, WindowSize = 0\<rparr>)
        + of_int (5 - 5) / 1000000000 * of_int (eff_rps \<lparr>RPS = 1, Burst = 1, WindowSize = 0\<rparr>) * (1 + 1 / 2 ^ 50)
        + 3 * of_int (eff_burst \<lparr>RPS = 1, Burst = 1, WindowSize = 0\<rparr>) / 2 ^ 53
            * (of_nat (length [demo_env, demo_env, demo_env]) :: rat)"
    by (rule gateway_rate_bound) (simp_all add: demo_deps_def demo_env_def effective_def)
  then show ?thesis by (simp add: effective_def)
qed

end
