(* ===== verification/Server.thy ===== *)
theory Server
  imports Gateway Config
begin

section \<open>The HTTP server\<close>

text \<open>
  \<open>internal/gateway/server.go\<close>: the routes behind their middleware, the health handler, and
  the life of the server.  The router library \<open>chi\<close> is not part of the program: it is a
  function from the routes, the method and the path to a route.
\<close>

subsection \<open>Routes\<close>

datatype route = HealthRoute | MetricsRoute | ChatRoute

datatype middleware = RealIP | Recoverer | KeyAuth "string list"

record routing =
  r_Use :: "middleware list"
  r_routes :: "(string \<times> string \<times> route) list"

definition server_routes :: "auth_config \<Rightarrow> routing" where
  "server_routes auth =
     \<lparr>r_Use = [RealIP, Recoverer, KeyAuth (APIKeys auth)],
      r_routes = [(''GET'', ''/health'', HealthRoute), (''GET'', ''/metrics'', MetricsRoute),
                  (''POST'', ''/v1/chat/completions'', ChatRoute)]\<rparr>"

text \<open>What a request comes to; a panic below the recoverer is answered with status 500.\<close>

datatype 'r served =
    Refused string
  | NotRouted
  | Health string
  | MetricsPage
  | Chat 'r
  | Recovered
  | Crashed

definition health_handler :: string where
  "health_handler = marshal (JObj [(''status'', JStr ''ok'')]) @ [newline]"

record http_request =
  q_method :: string
  q_path :: string
  q_authorization :: string

text \<open>The handler of a route, given the chat handler with the key in its context; \<open>None\<close> is a panic.\<close>

definition run_route :: "(string \<Rightarrow> 'r option) \<Rightarrow> string \<Rightarrow> route option \<Rightarrow> 'r served option" where
  "run_route chat key found =
     (case found of
        None \<Rightarrow> Some NotRouted
      | Some HealthRoute \<Rightarrow> Some (Health health_handler)
      | Some MetricsRoute \<Rightarrow> Some MetricsPage
      | Some ChatRoute \<Rightarrow> map_option Chat (chat key))"

text \<open>The middleware from the outside in; the address that \<open>RealIP\<close> sets is not used.\<close>

fun run_middleware ::
  "middleware list \<Rightarrow> http_request \<Rightarrow> string \<Rightarrow> (string \<Rightarrow> 'r served option) \<Rightarrow> 'r served option" where
  "run_middleware [] q key inner = inner key"
| "run_middleware (RealIP # ms) q key inner = run_middleware ms q key inner"
| "run_middleware (Recoverer # ms) q key inner =
     Some (case run_middleware ms q key inner of None \<Rightarrow> Recovered | Some r \<Rightarrow> r)"
| "run_middleware (KeyAuth keys # ms) q key inner =
     (case api_key_auth keys (q_path q) (q_authorization q) of
        Unauthorized msg \<Rightarrow> Some (Refused msg)
      | a \<Rightarrow> run_middleware ms q (key_from_context a) inner)"

definition serve ::
  "((string \<times> string \<times> route) list \<Rightarrow> string \<Rightarrow> string \<Rightarrow> route option)
    \<Rightarrow> auth_config \<Rightarrow> (string \<Rightarrow> 'r option) \<Rightarrow> http_request \<Rightarrow> 'r served" where
  "serve chi auth chat q =
     (let rs = server_routes auth
      in case run_middleware (r_Use rs) q []
                (\<lambda>key. run_route chat key (chi (r_routes rs) (q_method q) (q_path q))) of
           None \<Rightarrow> Crashed
         | Some r \<Rightarrow> r)"

subsection \<open>The life of the server\<close>

record http_server =
  hs_Addr :: string
  hs_ReadHeaderTimeout :: duration
  hs_ReadTimeout :: duration
  hs_WriteTimeout :: duration

definition http_config :: "server_config \<Rightarrow> http_server" where
  "http_config cfg =
     \<lparr>hs_Addr = Addr cfg, hs_ReadHeaderTimeout = 10 * second, hs_ReadTimeout = ReadTimeout cfg,
      hs_WriteTimeout = WriteTimeout cfg\<rparr>"

text \<open>
  What the server does, and the select: the server returns an error, or the context ends and
  the shutdown, with five seconds, returns its result.
\<close>

datatype server_error = ErrServerClosed | ListenError string

datatype server_end = ServerReturned server_error | ContextEnded "server_error option"

definition listen_and_serve :: "server_end \<Rightarrow> server_error option" where
  "listen_and_serve e = (case e of ContextEnded r \<Rightarrow> r | ServerReturned err \<Rightarrow> Some err)"

subsection \<open>Who gets where\<close>

text \<open>What is documented of the router: it finds exactly the routes with the method and the path.\<close>

definition chi_routes :: "((string \<times> string \<times> route) list \<Rightarrow> string \<Rightarrow> string \<Rightarrow> route option) \<Rightarrow> bool" where
  "chi_routes chi \<longleftrightarrow>
     (\<forall>rs m p. (\<forall>r. chi rs m p = Some r \<longrightarrow> (m, p, r) \<in> set rs)
        \<and> (\<forall>r. (m, p, r) \<in> set rs \<longrightarrow> chi rs m p \<noteq> None))"

lemma serve_eq:
  "serve chi auth chat q =
     (case api_key_auth (APIKeys auth) (q_path q) (q_authorization q) of
        Unauthorized msg \<Rightarrow> Refused msg
      | a \<Rightarrow> (case run_route chat (key_from_context a)
                  (chi (r_routes (server_routes auth)) (q_method q) (q_path q)) of
                None \<Rightarrow> Recovered | Some r \<Rightarrow> r))"
  by (simp add: serve_def server_routes_def split: auth_result.split)

lemma key_auth_spec:
  assumes "path \<noteq> ''/health'' \<and> path \<noteq> ''/metrics''"
  shows "\<exists>msg. api_key_auth keys path a =
    (if take 7 a = ''Bearer '' \<and> trim_space (drop 7 a) \<in> set keys then Authorized (trim_space (drop 7 a))
     else Unauthorized msg)"
  using assms by (auto simp: api_key_auth_def Let_def)

text \<open>The routes that a router of chi's behaviour finds.\<close>

lemma server_routes_found:
  assumes "chi_routes chi"
  shows "chi (r_routes (server_routes auth)) ''GET'' ''/health'' = Some HealthRoute"
    "chi (r_routes (server_routes auth)) ''GET'' ''/metrics'' = Some MetricsRoute"
    "chi (r_routes (server_routes auth)) m p = Some ChatRoute \<Longrightarrow> m = ''POST'' \<and> p = ''/v1/chat/completions''"
proof -
  let ?rs = "r_routes (server_routes auth)"
  have found: "chi ?rs m p = Some x \<Longrightarrow> (m, p, x) \<in> set ?rs" "(m, p, x) \<in> set ?rs \<Longrightarrow> \<exists>y. chi ?rs m p = Some y" for m p x
    using assms unfolding chi_routes_def by blast+
  show "chi ?rs ''GET'' ''/health'' = Some HealthRoute"
    using found(1) [of "''GET''" "''/health''"] found(2) [of "''GET''" "''/health''" HealthRoute]
    by (auto simp: server_routes_def)
  show "chi ?rs ''GET'' ''/metrics'' = Some MetricsRoute"
    using found(1) [of "''GET''" "''/metrics''"] found(2) [of "''GET''" "''/metrics''" MetricsRoute]
    by (auto simp: server_routes_def)
  show "chi ?rs m p = Some ChatRoute \<Longrightarrow> m = ''POST'' \<and> p = ''/v1/chat/completions''"
    using found(1) [of m p ChatRoute] by (auto simp: server_routes_def)
qed

text \<open>C11:
  Who gets where, if the router library finds the routes as documented.  The chat handler runs
  only for a POST of the completions path with a configured key as its bearer token, and gets
  that key; the health and the metrics page are served to everybody, whatever the header;
  every other path is refused without a configured key; no panic of a handler gets out.
\<close>

theorem serve_spec:
  assumes "chi_routes chi"
  shows "(serve chi auth chat q = Chat r \<longrightarrow>
      q_method q = ''POST'' \<and> q_path q = ''/v1/chat/completions'' \<and> take 7 (q_authorization q) = ''Bearer ''
      \<and> trim_space (drop 7 (q_authorization q)) \<in> set (APIKeys auth)
      \<and> chat (trim_space (drop 7 (q_authorization q))) = Some r)
    \<and> (q_method q = ''GET'' \<and> q_path q = ''/health'' \<longrightarrow> serve chi auth chat q = Health health_handler)
    \<and> (q_method q = ''GET'' \<and> q_path q = ''/metrics'' \<longrightarrow> serve chi auth chat q = MetricsPage)
    \<and> (q_path q \<notin> {''/health'', ''/metrics''} \<and>
        (take 7 (q_authorization q) \<noteq> ''Bearer '' \<or> trim_space (drop 7 (q_authorization q)) \<notin> set (APIKeys auth)) \<longrightarrow>
        (\<exists>msg. serve chi auth chat q = Refused msg))
    \<and> serve chi auth chat q \<noteq> Crashed"
proof -
  let ?rs = "r_routes (server_routes auth)"
  note routes = server_routes_found [OF assms, of auth]
  let ?key = "trim_space (drop 7 (q_authorization q))"
  let ?found = "chi ?rs (q_method q) (q_path q)"
  show ?thesis
  proof (intro conjI impI)
    assume s: "serve chi auth chat q = Chat r"
    then obtain key where k: "run_route chat key ?found = Some (Chat r)"
      and a: "api_key_auth (APIKeys auth) (q_path q) (q_authorization q) = Public
        \<or> api_key_auth (APIKeys auth) (q_path q) (q_authorization q) = Authorized key"
      unfolding serve_eq by (auto simp: key_from_context_def split: auth_result.splits option.splits)
    have c: "?found = Some ChatRoute" "chat key = Some r"
      using k by (auto simp: run_route_def split: option.splits route.splits)
    from routes(3) [OF c(1)] show p: "q_method q = ''POST''" "q_path q = ''/v1/chat/completions''" by simp_all
    have "q_path q \<noteq> ''/health'' \<and> q_path q \<noteq> ''/metrics''" using p(2) by simp
    note auth = key_auth_spec [OF this, of "APIKeys auth" "q_authorization q"]
    show "take 7 (q_authorization q) = ''Bearer ''" "?key \<in> set (APIKeys auth)" "chat ?key = Some r"
      using a c(2) auth by (auto split: if_splits)
  next
    assume "q_method q = ''GET'' \<and> q_path q = ''/health''"
    then show "serve chi auth chat q = Health health_handler"
      using routes(1) by (simp add: serve_eq api_key_auth_def run_route_def)
  next
    assume "q_method q = ''GET'' \<and> q_path q = ''/metrics''"
    then show "serve chi auth chat q = MetricsPage"
      using routes(2) by (simp add: serve_eq api_key_auth_def run_route_def)
  next
    assume r: "q_path q \<notin> {''/health'', ''/metrics''} \<and> (take 7 (q_authorization q) \<noteq> ''Bearer '' \<or> ?key \<notin> set (APIKeys auth))"
    then have "q_path q \<noteq> ''/health'' \<and> q_path q \<noteq> ''/metrics''" by blast
    note auth = key_auth_spec [OF this, of "APIKeys auth" "q_authorization q"]
    show "\<exists>msg. serve chi auth chat q = Refused msg" unfolding serve_eq using r auth by (auto split: if_splits)
  next
    show "serve chi auth chat q \<noteq> Crashed"
      unfolding serve_eq by (auto simp: run_route_def split: auth_result.splits option.splits route.splits)
  qed
qed

text \<open>A router that looks the route up.\<close>

definition lookup_router :: "(string \<times> string \<times> route) list \<Rightarrow> string \<Rightarrow> string \<Rightarrow> route option" where
  "lookup_router rs m p = map_option (snd \<circ> snd) (find (\<lambda>(n, u, _). n = m \<and> u = p) rs)"

lemma lookup_router_routes: "chi_routes lookup_router"
proof -
  have "lookup_router rs m p = Some r \<Longrightarrow> (m, p, r) \<in> set rs" "(m, p, r) \<in> set rs \<Longrightarrow> lookup_router rs m p \<noteq> None" for rs m p r
    by (induction rs) (auto simp: lookup_router_def split: if_splits)
  then show ?thesis unfolding chi_routes_def by blast
qed

lemma serve_spec_witness:
  "serve lookup_router \<lparr>APIKeys = [''k'']\<rparr> Some \<lparr>q_method = ''GET'', q_path = ''/metrics'', q_authorization = []\<rparr> = MetricsPage
   \<and> (\<exists>msg. serve lookup_router \<lparr>APIKeys = [''k'']\<rparr> Some
        \<lparr>q_method = ''POST'', q_path = ''/v1/chat/completions'', q_authorization = ''Bearer x''\<rparr> = Refused msg)"
proof -
  have "trim_space ''x'' = ''x''" by code_simp
  then show ?thesis
    using serve_spec [OF lookup_router_routes, of "\<lparr>APIKeys = [''k'']\<rparr>" Some
        "\<lparr>q_method = ''GET'', q_path = ''/metrics'', q_authorization = []\<rparr>"]
      serve_spec [OF lookup_router_routes, of "\<lparr>APIKeys = [''k'']\<rparr>" Some
        "\<lparr>q_method = ''POST'', q_path = ''/v1/chat/completions'', q_authorization = ''Bearer x''\<rparr>"]
    by simp
qed

end
