(* ===== verification/Pgvector.thy ===== *)
theory Pgvector
  imports Cache Go_Json
begin

section \<open>The pgvector store\<close>

text \<open>
  \<open>internal/cache/pgvector_store.go\<close>: the statements it sends, their arguments, and what it
  makes of the answers.  The server is not part of the program: it is a record of two
  operations on a state, and \<open>pg_behaves\<close> states what is documented of it.
\<close>

subsection \<open>The server\<close>

datatype pg_value =
    PgText string
  | PgVec vec
  | PgBytes string
  | PgNull
  | PgTime time
  | PgFloat float64
  | PgInt int

datatype pg_answer = NoRows | RowError go_error | Row "pg_value list"

record 'd pg_server =
  pg_exec :: "string \<Rightarrow> pg_value list \<Rightarrow> 'd \<Rightarrow> string option \<times> 'd"
  pg_query_row :: "string \<Rightarrow> pg_value list \<Rightarrow> 'd \<Rightarrow> pg_answer"
  pg_scan_error :: go_error

subsection \<open>The schema\<close>

definition sql :: "nat \<Rightarrow> string list \<Rightarrow> string" where
  "sql tabs ls = join (CHR 0x0A # replicate tabs CHR 0x09) ls"

definition schema_statements :: "int \<Rightarrow> string list" where
  "schema_statements d =
     [''CREATE EXTENSION IF NOT EXISTS vector'',
      sql 3 [''CREATE TABLE IF NOT EXISTS velo_cache ('',
             ''id          BIGSERIAL PRIMARY KEY,'',
             ''prompt      TEXT NOT NULL,'',
             ''embedding   VECTOR('' @ show_int d @ '') NOT NULL,'',
             ''model       TEXT NOT NULL,'',
             ''content     TEXT NOT NULL,'',
             ''raw         JSONB,'',
             ''created_at  TIMESTAMPTZ NOT NULL DEFAULT now()''] @ sql 2 [[], '')''],
      sql 3 [''CREATE INDEX IF NOT EXISTS velo_cache_emb_idx'',
             ''ON velo_cache USING ivfflat (embedding vector_cosine_ops) WITH (lists = 100)''],
      ''CREATE INDEX IF NOT EXISTS velo_cache_created_idx ON velo_cache (created_at DESC)'']"

text \<open>The loop over the statements: the one that fails with its error, and the state then.\<close>

fun exec_all :: "'d pg_server \<Rightarrow> string list \<Rightarrow> 'd \<Rightarrow> (string \<times> string) option \<times> 'd" where
  "exec_all srv [] db = (None, db)"
| "exec_all srv (q # qs) db =
     (case pg_exec srv q [] db of
        (Some err, db) \<Rightarrow> (Some (q, err), db)
      | (None, db) \<Rightarrow> exec_all srv qs db)"

datatype pg_error = ParseDsn string | Connect string | Exec string string

record pgvector_store =
  pg_dim :: int
  MaxConns :: int

text \<open>
  \<open>NewPgvectorStore\<close>: the errors of parsing and of connecting are arguments; the second
  component says whether a pool was opened and not closed again.
\<close>

definition new_pgvector_store ::
  "'d pg_server \<Rightarrow> string option \<Rightarrow> string option \<Rightarrow> int \<Rightarrow> 'd \<Rightarrow> (pg_error + pgvector_store) \<times> bool \<times> 'd" where
  "new_pgvector_store srv parse_err connect_err d db =
     (case parse_err of
        Some err \<Rightarrow> (Inl (ParseDsn err), False, db)
      | None \<Rightarrow>
          (case connect_err of
             Some err \<Rightarrow> (Inl (Connect err), False, db)
           | None \<Rightarrow>
               (case exec_all srv (schema_statements d) db of
                  (Some (q, err), db) \<Rightarrow> (Inl (Exec q err), False, db)
                | (None, db) \<Rightarrow> (Inr \<lparr>pg_dim = d, MaxConns = 8\<rparr>, True, db))))"

subsection \<open>The operations\<close>










subsection \<open>What is documented of the server\<close>





text \<open>
  The store is opened only after the four statements have succeeded, in their order, and a
  pool opened before a failure is closed again.
\<close>

lemma exec_all_None:
  "exec_all srv qs db = (None, db') \<Longrightarrow> fold (\<lambda>q (ok, db). (ok \<and> fst (pg_exec srv q [] db) = None, snd (pg_exec srv q [] db))) qs (True, db) = (True, db')"
  by (induction qs arbitrary: db) (auto split: prod.splits option.splits)

lemma new_pgvector_store_open:
  assumes "new_pgvector_store srv parse_err connect_err d db = (r, open_pool, db')"
  shows "open_pool = (\<exists>s. r = Inr s)"
    "r = Inr s \<Longrightarrow> parse_err = None \<and> connect_err = None \<and> exec_all srv (schema_statements d) db = (None, db') \<and> pg_dim s = d"
  using assms by (auto simp: new_pgvector_store_def split: option.splits prod.splits)






end
