(* ===== verification/Openai_Embedder.thy ===== *)
theory Openai_Embedder
  imports Cache Go_Json
begin

section \<open>The OpenAI embedder\<close>

text \<open>
  \<open>OpenAIEmbedder\<close> of \<open>internal/cache/embedder.go\<close>: the request it writes, the answer it
  reads and the normalisation.  The service is not part of the program; what it answers is an
  argument.  The normalisation is the one of the hashing embedder, line by line.
\<close>

record openai_embedder =
  oe_APIKey :: string
  oe_Model :: string
  oe_dim :: int

definition new_openai_embedder :: "string \<Rightarrow> string \<Rightarrow> int \<Rightarrow> openai_embedder" where
  "new_openai_embedder key model d =
     \<lparr>oe_APIKey = key, oe_Model = (if model = [] then ''text-embedding-3-small'' else model),
      oe_dim = (if d \<le> 0 then 1536 else d)\<rparr>"

text \<open>The body, its keys sorted, and the headers.\<close>

definition openai_body :: "openai_embedder \<Rightarrow> string \<Rightarrow> string" where
  "openai_body e text =
     marshal (JObj [(''dimensions'', JNum (show_int (oe_dim e))), (''input'', JStr text), (''model'', JStr (oe_Model e))])"

definition openai_headers :: "openai_embedder \<Rightarrow> (string \<times> string) list" where
  "openai_headers e = [(''Authorization'', ''Bearer '' @ oe_APIKey e), (''Content-Type'', ''application/json'')]"

text \<open>
  The answer: the vectors of \<open>data\<close>, each read as numbers rounded to \<open>float32\<close>; a number
  beyond its range is an error.
\<close>

definition decode_float32 :: "float32 decoder" where
  "decode_float32 a j =
     (case j of
        JNull \<Rightarrow> Some a
      | JNum n \<Rightarrow> if \<bar>literal_value n\<bar> < 2 ^ 128 - 2 ^ 103 then Some (fl32 (literal_value n)) else None
      | _ \<Rightarrow> None)"

definition decode_datum :: "float32 slice decoder" where
  "decode_datum = decode_struct [(''embedding'', decode_slice decode_float32 0)]"

definition decode_embeddings :: "float32 slice slice decoder" where
  "decode_embeddings = decode_struct [(''data'', decode_slice decode_datum ([], []))]"

definition unmarshal_embeddings :: "string \<Rightarrow> vec list option" where
  "unmarshal_embeddings body =
     map_option (\<lambda>(ds, _). map fst ds) (Option.bind (parse_first body) (decode_embeddings ([], [])))"

text \<open>No answer, or its status with its text and the bytes of the body.\<close>

datatype openai_answer = NoAnswer go_error | OpenaiAnswer int string string

definition openai_embed :: "string \<Rightarrow> openai_answer \<Rightarrow> go_error + vec" where
  "openai_embed json_err x =
     (case x of
        NoAnswer err \<Rightarrow> Inl err
      | OpenaiAnswer code status body \<Rightarrow>
          if go_quot code 100 \<noteq> 2 then Inl (OtherError (''openai embeddings: '' @ status @ '': '' @ body))
          else case unmarshal_embeddings body of
                 None \<Rightarrow> Inl (OtherError json_err)
               | Some [] \<Rightarrow> Inl (OtherError ''openai embeddings: empty response'')
               | Some (v # _) \<Rightarrow> Inr (normalize v))"

text \<open>The embedder as the cache uses it, with the service as a function of the request body.\<close>

definition openai_emb :: "(string \<Rightarrow> string \<times> openai_answer) \<Rightarrow> openai_embedder \<Rightarrow> string \<Rightarrow> go_error + vec" where
  "openai_emb service e text = (let (json_err, x) = service (openai_body e text) in openai_embed json_err x)"

lemma normalize_length [simp]: "length (normalize v) = length v"
  by (simp add: normalize_def Let_def)





end
