(* ===== verification/Velo_Main.thy ===== *)
theory Velo_Main
  imports Server Pgvector Openai_Embedder
begin

section \<open>The gateway command\<close>

text \<open>
  \<open>cmd/velo/main.go\<close>: the command line, and \<open>serve\<close>, which loads the configuration and wires
  the components, with their constructors as the other theories have them.  What the outside
  does (files, the environment, Redis, Postgres) is an argument.
\<close>

subsection \<open>The command line\<close>

datatype main_result = Exit int "string list" | Print "string list" | PrintErr "string list" | Serve "string list"

definition usage :: "string list" where
  "usage = [''Velo - LLM inference gateway'', [], ''Usage:'', ''  velo serve --config configs/velo.yaml'', ''  velo version'']"

fun velo_main :: "string list \<Rightarrow> main_result" where
  "velo_main (prog # cmd # args) =
     (if cmd = ''serve'' then Serve args
      else if cmd = ''version'' then Print [''velo dev'']
      else if cmd \<in> {''-h'', ''--help'', ''help''} then PrintErr usage
      else Exit 2 ((''unknown command: '' @ cmd) # usage))"
| "velo_main _ = Exit 2 usage"

text \<open>
  \<open>FlagSet.Parse\<close> with one string flag \<open>config\<close>: the path, or the exit code.  A flag starts
  with one or two dashes; its value follows an equals sign or is the next argument.
\<close>

definition flag_name :: "string \<Rightarrow> string option" where
  "flag_name s =
     (if length s < 2 \<or> hd s \<noteq> CHR ''-'' then None
      else Some (if s ! 1 = CHR ''-'' then drop 2 s else tl s))"

fun parse_flags :: "string \<Rightarrow> string list \<Rightarrow> int + string" where
  "parse_flags path [] = Inr path"
| "parse_flags path (s # args) =
     (case flag_name s of
        None \<Rightarrow> Inr path
      | Some name \<Rightarrow>
          if s = ''--'' then Inr path
          else if name = [] \<or> hd name \<in> {CHR ''-'', CHR ''=''} then Inl 2
          else if takeWhile (\<lambda>c. c \<noteq> CHR ''='') name = ''config''
          then if CHR ''='' \<in> set name then parse_flags (drop 7 name) args
               else (case args of [] \<Rightarrow> Inl 2 | v # rest \<Rightarrow> parse_flags v rest)
          else if takeWhile (\<lambda>c. c \<noteq> CHR ''='') name \<in> {''help'', ''h''} then Inl 0 else Inl 2)"

subsection \<open>The cache\<close>

datatype embedder_choice = Hashing hashing_embedder | Openai openai_embedder

datatype store_choice = MemStore memory_store | PgStore pgvector_store

record built_cache =
  b_emb :: embedder_choice
  b_store :: store_choice
  b_threshold :: float64
  b_ttl :: duration

fun emb_dim :: "embedder_choice \<Rightarrow> int" where
  "emb_dim (Hashing h) = dim h"
| "emb_dim (Openai e) = oe_dim e"

text \<open>The loop over the attempts from attempt \<open>i\<close>, with \<open>k\<close> of them left.\<close>

fun open_retry :: "(nat \<Rightarrow> 'e + 's) \<Rightarrow> nat \<Rightarrow> nat \<Rightarrow> 'e \<Rightarrow> 'e + 's" where
  "open_retry attempt 0 i err = Inl err"
| "open_retry attempt (Suc k) i err =
     (case attempt i of Inr s \<Rightarrow> Inr s | Inl err \<Rightarrow> open_retry attempt k (Suc i) err)"

datatype cache_error = NoOpenaiKey | PgUnavailable pg_error

definition build_embedder :: "cache_config \<Rightarrow> cache_error + embedder_choice" where
  "build_embedder cc =
     (if cache_Embedder cc = ''openai''
      then if OpenAIKey cc = [] then Inl NoOpenaiKey
           else Inr (Openai (new_openai_embedder (OpenAIKey cc) (OpenAIModel cc) (EmbedderDim cc)))
      else Inr (Hashing (new_hashing_embedder (EmbedderDim cc))))"

text \<open>\<open>attempt d i\<close> is the result of attempt \<open>i\<close> to open a pgvector store of dimension \<open>d\<close>.\<close>

definition build_cache ::
  "(int \<Rightarrow> nat \<Rightarrow> pg_error + pgvector_store) \<Rightarrow> cache_config \<Rightarrow> cache_error + built_cache option" where
  "build_cache attempt cc =
     (if \<not> cache_Enabled cc then Inr None
      else case build_embedder cc of
        Inl err \<Rightarrow> Inl err
      | Inr em \<Rightarrow>
          (case (if cache_Store cc = ''pgvector''
                 then map_sum PgUnavailable PgStore (open_retry (attempt (emb_dim em)) 10 0 (Connect []))
                 else Inr (MemStore (new_memory_store (MaxEntries cc)))) of
             Inl err \<Rightarrow> Inl err
           | Inr st \<Rightarrow>
               Inr (Some \<lparr>b_emb = em, b_store = st, b_threshold = SimilarityThreshold cc, b_ttl = TTL cc\<rparr>)))"

text \<open>The cache as \<open>New\<close> makes it, with the service of OpenAI as an argument.\<close>

definition emb_of :: "(string \<Rightarrow> string \<times> openai_answer) \<Rightarrow> embedder_choice \<Rightarrow> string \<Rightarrow> go_error + vec" where
  "emb_of service em = (case em of Hashing h \<Rightarrow> (\<lambda>p. Inr (embed h p)) | Openai e \<Rightarrow> openai_emb service e)"

definition cache_of :: "(string \<Rightarrow> string \<times> openai_answer) \<Rightarrow> built_cache \<Rightarrow> cache" where
  "cache_of service b = new_cache (emb_of service (b_emb b)) (b_threshold b) (b_ttl b)"

subsection \<open>The rate limiter\<close>




subsection \<open>The command serve\<close>




text \<open>The exit code when \<open>ListenAndServe\<close> returns.\<close>

definition serve_exit :: "server_error option \<Rightarrow> int" where
  "serve_exit err = (case err of None \<Rightarrow> 0 | Some ErrServerClosed \<Rightarrow> 0 | Some (ListenError _) \<Rightarrow> 1)"

text \<open>The listener for the metrics, which asks nobody for a key.\<close>

datatype mux_reply = MuxMetrics | MuxHealth int string | MuxNotFound

definition metrics_mux :: "string \<Rightarrow> mux_reply" where
  "metrics_mux path =
     (if path = ''/metrics'' then MuxMetrics
      else if path = ''/health'' then MuxHealth 200 ''{\"status\":\"ok\"}''
      else MuxNotFound)"

subsection \<open>The cache is built or given up\<close>

text \<open>The first attempt that succeeds, else the last one.\<close>

lemma open_retry_eq:
  "open_retry attempt k i err =
     (case find (\<lambda>j. \<not> isl (attempt j)) [i..<i + k] of
        Some j \<Rightarrow> attempt j
      | None \<Rightarrow> if k = 0 then Inl err else attempt (i + k - 1))"
proof (induction k arbitrary: i err)
  case (Suc k)
  show ?case
  proof (cases "attempt i")
    case (Inl e)
    have "[i..<i + Suc k] = i # [Suc i..<Suc i + k]" by (simp add: upt_conv_Cons del: upt_Suc)
    then show ?thesis using Suc [of "Suc i" e] Inl by (auto simp del: upt_Suc split: option.split)
  next
    case (Inr s)
    have "[i..<i + Suc k] = i # [Suc i..<Suc i + k]" by (simp add: upt_conv_Cons del: upt_Suc)
    then show ?thesis using Inr by (simp del: upt_Suc)
  qed
qed simp

lemma open_retry_cases:
  assumes "0 < k"
  obtains j s where "j < k" "attempt j = Inr s" "\<forall>l<j. isl (attempt l)" "open_retry attempt k 0 err = Inr s"
    | e where "\<forall>j<k. isl (attempt j)" "attempt (k - 1) = Inl e" "open_retry attempt k 0 err = Inl e"
proof (cases "find (\<lambda>j. \<not> isl (attempt j)) [0..<k]")
  case None
  then have all: "\<forall>j<k. isl (attempt j)" by (auto simp: find_None_iff)
  then obtain e where "attempt (k - 1) = Inl e" using assms by (metis diff_less isl_def zero_less_one)
  then show thesis using that(2) all None assms by (simp add: open_retry_eq)
next
  case (Some j)
  then have j: "j < k" "\<not> isl (attempt j)" "\<forall>l<j. isl (attempt l)" by (auto simp: find_Some_iff)
  then obtain s where "attempt j = Inr s" by (cases "attempt j") auto
  then show thesis using that(1) j Some by (simp add: open_retry_eq)
qed

lemma emb_dim_pos: "build_embedder cc = Inr em \<Longrightarrow> 0 < emb_dim em"
  by (auto simp: build_embedder_def new_openai_embedder_def new_hashing_embedder_def split: if_splits)

text \<open>C31:
  How the cache is built.  There is none exactly when it is disabled; the embedder of OpenAI
  without a key is an error before any store is opened; with pgvector the store is that of
  the first of ten attempts that succeeds, opened with the dimension of the embedder, and the
  error is that of the last attempt, when all ten have failed; the in-memory store is empty
  and has room.
\<close>

theorem build_cache_spec:
  "(build_cache attempt cc = Inr None \<longleftrightarrow> \<not> cache_Enabled cc)
   \<and> (build_cache attempt cc = Inl NoOpenaiKey \<longleftrightarrow>
        cache_Enabled cc \<and> cache_Embedder cc = ''openai'' \<and> OpenAIKey cc = [])
   \<and> (\<forall>err. build_cache attempt cc = Inl (PgUnavailable err) \<longrightarrow>
        (\<exists>d>0. (\<forall>i<10. isl (attempt d i)) \<and> attempt d 9 = Inl err))
   \<and> (\<forall>b. build_cache attempt cc = Inr (Some b) \<longrightarrow>
        0 < emb_dim (b_emb b) \<and> b_threshold b = SimilarityThreshold cc \<and> b_ttl b = TTL cc \<and>
        (case b_store b of
           MemStore m \<Rightarrow> cache_Store cc \<noteq> ''pgvector'' \<and> entries m = [] \<and> 0 < maxSize m
         | PgStore s \<Rightarrow> cache_Store cc = ''pgvector'' \<and>
             (\<exists>i<10. attempt (emb_dim (b_emb b)) i = Inr s \<and> (\<forall>j<i. isl (attempt (emb_dim (b_emb b)) j)))))"
proof (cases "cache_Enabled cc")
  case enabled: True
  show ?thesis
  proof (cases "build_embedder cc")
    case (Inl e)
    then have "e = NoOpenaiKey" "cache_Embedder cc = ''openai'' \<and> OpenAIKey cc = []"
      by (auto simp: build_embedder_def split: if_splits)
    then show ?thesis using enabled Inl by (simp add: build_cache_def)
  next
    case (Inr em)
    then have nokey: "\<not> (cache_Embedder cc = ''openai'' \<and> OpenAIKey cc = [])"
      by (auto simp: build_embedder_def)
    note pos = emb_dim_pos [OF Inr]
    show ?thesis
    proof (cases "cache_Store cc = ''pgvector''")
      case True
      show ?thesis
        by (rule open_retry_cases [of 10 "attempt (emb_dim em)" "Connect []"])
           (use enabled Inr nokey pos True in \<open>auto simp: build_cache_def\<close>)
    next
      case False
      then show ?thesis using enabled Inr nokey pos by (auto simp: build_cache_def new_memory_store_def)
    qed
  qed
qed (simp add: build_cache_def)

subsection \<open>The wiring\<close>

lemma parse_flags_codes: "parse_flags path args = Inl code \<Longrightarrow> code \<in> {0, 2}"
  by (induction path args rule: parse_flags.induct) (auto split: option.splits if_splits list.splits)

lemma backends_fold_set_up [simp]: "backends (fold (\<lambda>b. set_up (Name b) v) bs r) = backends r"
  by (induction bs arbitrary: r) simp_all





text \<open>The configuration as it is without a file and without variables starts, with everything in place.\<close>

lemma build_cache_spec_witness:
  "build_cache (\<lambda>_ _. Inl (Connect ''refused'')) (Cache default_config) = Inl (PgUnavailable (Connect ''refused''))"
  (is "?r = _")
proof -
  let ?c = "Cache default_config"
  have c: "cache_Enabled ?c" "cache_Store ?c = ''pgvector''" "cache_Embedder ?c = ''hashing''"
    by (simp_all add: default_config_def)
  note spec = build_cache_spec [of "\<lambda>_ _. Inl (Connect ''refused'')" ?c]
  have "?r \<noteq> Inr (Some b)" for b
    using spec c by (cases "b_store b") fastforce+
  moreover have "?r \<noteq> Inr None" "?r \<noteq> Inl NoOpenaiKey" using spec c by auto
  ultimately obtain err where "?r = Inl (PgUnavailable err)"
    by (cases ?r) (metis cache_error.exhaust, metis option.exhaust)
  then show ?thesis using spec by auto
qed


end
