(* ===== verification/Mock_Backend.thy ===== *)
theory Mock_Backend
  imports Sse
begin

section \<open>The mock backend\<close>

text \<open>
  \<open>cmd/mock-backend/main.go\<close>: a server with the interface of OpenAI that makes up a
  completion out of the last words of the user and a vocabulary, in one piece or as a stream,
  and keeps the number of requests in flight and its maximum in two atomic counters.
  The flags are a record; a draw of \<open>rand.Intn\<close> and the clock are arguments.
\<close>

subsection \<open>Requests and responses\<close>

record mock_message =
  mm_Role :: string
  mm_Content :: string

record mock_request =
  mr_Model :: string
  mr_Messages :: "mock_message list"
  mr_Stream :: bool
  mr_MaxTokens :: int

record mock_choice =
  mc_Message :: "mock_message option"
  mc_Delta :: "mock_message option"
  mc_FinishReason :: string

record mock_usage =
  PromptTokens :: int
  CompletionTokens :: int
  TotalTokens :: int

record mock_response =
  ms_ID :: string
  ms_Object :: string
  ms_Created :: int
  ms_Model :: string
  ms_Choices :: "mock_choice list"
  ms_Usage :: "mock_usage option"

record mock_flags =
  default_tokens :: int
  failure_rate :: float64
  backend_name :: string

definition no_message :: mock_message where
  "no_message = \<lparr>mm_Role = [], mm_Content = []\<rparr>"

definition decode_mock_message :: "mock_message decoder" where
  "decode_mock_message = decode_struct
     [(''role'', at_field mm_Role (\<lambda>x m. m\<lparr>mm_Role := x\<rparr>) decode_string),
      (''content'', at_field mm_Content (\<lambda>x m. m\<lparr>mm_Content := x\<rparr>) decode_string)]"

definition mock_request_fields :: "(string \<times> (mock_request \<times> mock_message list) decoder) list" where
  "mock_request_fields =
     [(''model'', at_field (mr_Model \<circ> fst) (\<lambda>x (r, h). (r\<lparr>mr_Model := x\<rparr>, h)) decode_string),
      (''messages'', at_field (\<lambda>(r, h). (mr_Messages r, h)) (\<lambda>(ms, h) (r, _). (r\<lparr>mr_Messages := ms\<rparr>, h))
                       (decode_slice decode_mock_message no_message)),
      (''stream'', at_field (mr_Stream \<circ> fst) (\<lambda>x (r, h). (r\<lparr>mr_Stream := x\<rparr>, h)) decode_bool),
      (''max_tokens'', at_field (mr_MaxTokens \<circ> fst) (\<lambda>x (r, h). (r\<lparr>mr_MaxTokens := x\<rparr>, h)) decode_int)]"

text \<open>\<open>Decoder.Decode\<close>: the first value of the body; what follows it is ignored.\<close>

definition decode_mock_request :: "string \<Rightarrow> mock_request option" where
  "decode_mock_request body =
     map_option fst (Option.bind (parse_first body)
       (decode_struct mock_request_fields (\<lparr>mr_Model = [], mr_Messages = [], mr_Stream = False, mr_MaxTokens = 0\<rparr>, [])))"

text \<open>\<open>Marshal\<close> of the structs: members in the order of the fields, empty ones left out where the tag says so.\<close>

definition message_json :: "mock_message \<Rightarrow> json" where
  "message_json m = JObj [(''role'', JStr (mm_Role m)), (''content'', JStr (mm_Content m))]"

definition opt_member :: "string \<Rightarrow> ('a \<Rightarrow> json) \<Rightarrow> 'a option \<Rightarrow> (string \<times> json) list" where
  "opt_member k f x = (case x of None \<Rightarrow> [] | Some y \<Rightarrow> [(k, f y)])"

definition mock_choice_json :: "mock_choice \<Rightarrow> json" where
  "mock_choice_json c =
     JObj ([(''index'', JNum (show_int 0))]
           @ opt_member ''message'' message_json (mc_Message c)
           @ opt_member ''delta'' message_json (mc_Delta c)
           @ (if mc_FinishReason c = [] then [] else [(''finish_reason'', JStr (mc_FinishReason c))]))"

definition usage_json :: "mock_usage \<Rightarrow> json" where
  "usage_json u =
     JObj [(''prompt_tokens'', JNum (show_int (PromptTokens u))),
           (''completion_tokens'', JNum (show_int (CompletionTokens u))),
           (''total_tokens'', JNum (show_int (TotalTokens u)))]"

definition mock_response_json :: "mock_response \<Rightarrow> json" where
  "mock_response_json r =
     JObj ([(''id'', JStr (ms_ID r)), (''object'', JStr (ms_Object r)),
            (''created'', JNum (show_int (ms_Created r))), (''model'', JStr (ms_Model r)),
            (''choices'', JArr (map mock_choice_json (ms_Choices r)))]
           @ opt_member ''usage'' usage_json (ms_Usage r))"

subsection \<open>The completion\<close>

definition vocab :: "string list" where
  "vocab =
     [''The'', ''Velo'', ''gateway'', ''is'', ''an'', ''LLM'', ''inference'', ''proxy'', ''with'',
      ''continuous'', ''batching'', ''semantic'', ''cache'', ''and'', ''rate'', ''limiting'', ''.'',
      ''It'', ''supports'', ''multi-backend'', ''failover'', ''streaming'', ''SSE'', ''tokens'',
      ''and'', ''Prometheus'', ''metrics'', ''for'', ''observability'', ''.'',
      ''Throughput'', ''scales'', ''linearly'', ''with'', ''batch'', ''size'', ''until'', ''the'', ''backend'',
      ''saturates'', ''.'']"

text \<open>The search from the last message.\<close>

fun last_user :: "mock_message list \<Rightarrow> string" where
  "last_user [] = []"
| "last_user (m # rev_ms) = (if mm_Role m = ''user'' then mm_Content m else last_user rev_ms)"

text \<open>The loop that fills up to \<open>n\<close> tokens, with \<open>k\<close> of them missing.\<close>

fun pad_tokens :: "nat \<Rightarrow> (nat \<Rightarrow> nat) \<Rightarrow> string list \<Rightarrow> string list" where
  "pad_tokens 0 draw out = out"
| "pad_tokens (Suc k) draw out = pad_tokens k draw (out @ [vocab ! draw (length out)])"

text \<open>\<open>None\<close> is the panic of \<open>make\<close> with a negative capacity.\<close>

definition build_tokens :: "(nat \<Rightarrow> nat) \<Rightarrow> mock_message list \<Rightarrow> int \<Rightarrow> string list option" where
  "build_tokens draw msgs n =
     (let echo = Go_Strings.fields (last_user (rev msgs));
          echo = (if length echo > 6 then drop (length echo - 6) echo else echo)
      in if n < 0 then None
         else
           let out = ''Answer:'' # echo
           in Some (take (nat n) (pad_tokens (nat n - length out) draw out)))"

definition count_prompt_tokens :: "mock_message list \<Rightarrow> int" where
  "count_prompt_tokens msgs = fold (\<lambda>m n. n + int (length (Go_Strings.fields (mm_Content m))) + 2) msgs 0"

definition non_stream_response :: "string \<Rightarrow> int \<Rightarrow> string \<Rightarrow> string list \<Rightarrow> int \<Rightarrow> string" where
  "non_stream_response ident created model tokens prompt_tokens =
     marshal (mock_response_json
       \<lparr>ms_ID = ident, ms_Object = ''chat.completion'', ms_Created = created, ms_Model = model,
        ms_Choices = [\<lparr>mc_Message = Some \<lparr>mm_Role = ''assistant'', mm_Content = join '' '' tokens\<rparr>,
                       mc_Delta = None, mc_FinishReason = ''stop''\<rparr>],
        ms_Usage = Some \<lparr>PromptTokens = prompt_tokens, CompletionTokens = int (length tokens),
                         TotalTokens = prompt_tokens + int (length tokens)\<rparr>\<rparr>) @ [newline]"

definition mock_chunk :: "string \<Rightarrow> int \<Rightarrow> string \<Rightarrow> mock_message \<Rightarrow> string \<Rightarrow> string" where
  "mock_chunk ident created model delta reason =
     event (marshal (mock_response_json
       \<lparr>ms_ID = ident, ms_Object = ''chat.completion.chunk'', ms_Created = created, ms_Model = model,
        ms_Choices = [\<lparr>mc_Message = None, mc_Delta = Some delta, mc_FinishReason = reason\<rparr>],
        ms_Usage = None\<rparr>))"

text \<open>
  The loop over the tokens from token \<open>i\<close>; \<open>gone i\<close> if the select before it sees the
  context done, which ends the stream.
\<close>

fun stream_tokens :: "(string \<Rightarrow> string) \<Rightarrow> string \<Rightarrow> (nat \<Rightarrow> bool) \<Rightarrow> nat \<Rightarrow> string list \<Rightarrow> string" where
  "stream_tokens chunk tail gone i [] = tail"
| "stream_tokens chunk tail gone i (t # ts) =
     (if gone i then []
      else chunk (if i > 0 then '' '' @ t else t) @ stream_tokens chunk tail gone (Suc i) ts)"

definition stream_response :: "(nat \<Rightarrow> bool) \<Rightarrow> string \<Rightarrow> int \<Rightarrow> string \<Rightarrow> string list \<Rightarrow> string" where
  "stream_response gone ident created model tokens =
     mock_chunk ident created model (no_message\<lparr>mm_Role := ''assistant''\<rparr>) []
     @ stream_tokens (\<lambda>piece. mock_chunk ident created model (no_message\<lparr>mm_Content := piece\<rparr>) [])
         (mock_chunk ident created model no_message ''stop'' @ event ''[DONE]'') gone 0 tokens"

subsection \<open>The handler\<close>

record mock_env =
  me_method :: string
  me_draw :: float64
  me_body :: string
  me_bad_text :: string
  me_tokens :: "nat \<Rightarrow> nat"
  me_nano :: time
  me_created :: time
  me_flusher :: bool
  me_gone :: "nat \<Rightarrow> bool"

datatype mock_reply =
    MockError int string
  | MockJson string
  | MockStream string
  | MockPanic

definition mock_handle :: "mock_flags \<Rightarrow> mock_env \<Rightarrow> mock_reply" where
  "mock_handle fl env =
     (if me_method env \<noteq> ''POST'' then MockError 405 ''method not allowed''
      else if failure_rate fl > 0 \<and> me_draw env < failure_rate fl
      then MockError 500 ''{\"error\":\"simulated backend failure\"}''
      else case decode_mock_request (me_body env) of
        None \<Rightarrow> MockError 400 (''{\"error\":\"bad request: '' @ me_bad_text env @ ''\"}'')
      | Some req \<Rightarrow>
          let model = (if mr_Model req = [] then ''mock-llm'' else mr_Model req);
              n = (if mr_MaxTokens req \<le> 0 then default_tokens fl else mr_MaxTokens req)
          in case build_tokens (me_tokens env) (mr_Messages req) n of
               None \<Rightarrow> MockPanic
             | Some tokens \<Rightarrow>
                 let ident = ''chatcmpl-'' @ backend_name fl @ ''-'' @ show_int (me_nano env)
                 in if mr_Stream req
                    then if \<not> me_flusher env then MockError 500 ''streaming unsupported''
                         else MockStream (stream_response (me_gone env) ident (unix (me_created env)) model tokens)
                    else MockJson (non_stream_response ident (unix (me_created env)) model tokens
                                     (count_prompt_tokens (mr_Messages req))))"

subsection \<open>The counters\<close>

text \<open>
  Requests that run side by side.  Each adds one to \<open>inFlight\<close>, keeps the result \<open>cur\<close>, and
  loops: it loads \<open>maxInFlight\<close> and, unless that is large enough, tries to swap \<open>cur\<close> in, which
  fails if another request has changed it since.  \<open>peaks\<close> collects the results of the
  additions; it is there for the proofs only.
\<close>

datatype phase = Absent | Looping int | Loaded int int | Serving

record counters =
  mk_inFlight :: int
  mk_maxInFlight :: int
  phase_of :: "nat \<Rightarrow> phase"
  peaks :: "int list"

definition no_requests :: counters where
  "no_requests = \<lparr>mk_inFlight = 0, mk_maxInFlight = 0, phase_of = (\<lambda>_. Absent), peaks = []\<rparr>"

datatype counter_event = Enter nat | LoadMax nat | TrySwap nat | Leave nat

definition set_phase :: "nat \<Rightarrow> phase \<Rightarrow> counters \<Rightarrow> counters" where
  "set_phase i p c = c\<lparr>phase_of := (phase_of c)(i := p)\<rparr>"

fun counter_step :: "counter_event \<Rightarrow> counters \<Rightarrow> counters option" where
  "counter_step (Enter i) c =
     (if phase_of c i = Absent
      then let cur = mk_inFlight c + 1
           in Some (set_phase i (Looping cur) (c\<lparr>mk_inFlight := cur, peaks := cur # peaks c\<rparr>))
      else None)"
| "counter_step (LoadMax i) c =
     (case phase_of c i of
        Looping cur \<Rightarrow> Some (set_phase i (Loaded cur (mk_maxInFlight c)) c)
      | _ \<Rightarrow> None)"
| "counter_step (TrySwap i) c =
     (case phase_of c i of
        Loaded cur m \<Rightarrow>
          if cur \<le> m then Some (set_phase i Serving c)
          else if mk_maxInFlight c = m then Some (set_phase i Serving (c\<lparr>mk_maxInFlight := cur\<rparr>))
          else Some (set_phase i (Looping cur) c)
      | _ \<Rightarrow> None)"
| "counter_step (Leave i) c =
     (if phase_of c i = Serving then Some (set_phase i Absent (c\<lparr>mk_inFlight := mk_inFlight c - 1\<rparr>)) else None)"

inductive counters_reached :: "counters \<Rightarrow> bool" where
  start: "counters_reached no_requests"
| step: "counters_reached c \<Longrightarrow> counter_step ev c = Some c' \<Longrightarrow> counters_reached c'"

text \<open>The gauge of \<open>handleMetrics\<close>.\<close>

definition gpu_utilization :: "int \<Rightarrow> int \<Rightarrow> float64" where
  "gpu_utilization cur max_obs =
     (let max_obs = (if max_obs < 1 then 1 else max_obs);
          util = fl64 (fl64 (of_int cur) / fl64 (of_int (max_obs + 4)))
      in if util > 1 then 1 else util)"

subsection \<open>The other pages\<close>

definition mock_health :: "mock_flags \<Rightarrow> int \<Rightarrow> string" where
  "mock_health fl cur =
     marshal (JObj [(''backend'', JStr (backend_name fl)), (''in_flight'', JNum (show_int cur)), (''status'', JStr ''ok'')])
     @ [newline]"

text \<open>The lines of the page; \<open>quoted\<close> is the name of the backend as \<open>%q\<close> prints it.\<close>

definition mock_metrics :: "string \<Rightarrow> int \<Rightarrow> int \<Rightarrow> string list" where
  "mock_metrics quoted cur max_obs =
     [''# HELP mock_backend_gpu_utilization Simulated GPU utilization in [0,1].'',
      ''# TYPE mock_backend_gpu_utilization gauge'',
      ''mock_backend_gpu_utilization{backend='' @ quoted @ ''} '' @ format_f 6 (gpu_utilization cur max_obs),
      ''# HELP mock_backend_in_flight Requests currently being processed.'',
      ''# TYPE mock_backend_in_flight gauge'',
      ''mock_backend_in_flight{backend='' @ quoted @ ''} '' @ show_int cur]"

datatype mock_page = ChatPage | HealthPage | MetricsOfMock

text \<open>The multiplexer: exact paths only.\<close>

definition mock_mux :: "string \<Rightarrow> mock_page option" where
  "mock_mux = map_of [(''/v1/chat/completions'', ChatPage), (''/health'', HealthPage), (''/metrics'', MetricsOfMock)]"

definition present :: "counters \<Rightarrow> nat set" where
  "present c = {i. phase_of c i \<noteq> Absent}"

text \<open>The value with which a request that is still in its loop may raise the maximum.\<close>

fun claim :: "phase \<Rightarrow> int option" where
  "claim (Looping cur) = Some cur"
| "claim (Loaded cur m) = Some cur"
| "claim _ = None"

definition counters_inv :: "counters \<Rightarrow> bool" where
  "counters_inv c \<longleftrightarrow> finite (present c) \<and> mk_inFlight c = int (card (present c))
     \<and> (mk_maxInFlight c = 0 \<or> mk_maxInFlight c \<in> set (peaks c)) \<and> (\<forall>p \<in> set (peaks c). 0 < p)
     \<and> (\<forall>i p. claim (phase_of c i) = Some p \<longrightarrow> p \<in> set (peaks c))
     \<and> (\<forall>i cur m. phase_of c i = Loaded cur m \<longrightarrow> m \<le> mk_maxInFlight c)
     \<and> (\<forall>p \<in> set (peaks c). p \<le> mk_maxInFlight c \<or> (\<exists>i. claim (phase_of c i) = Some p))"

lemma present_set_phase:
  "present (set_phase i p c) = (if p = Absent then present c - {i} else insert i (present c))"
  by (auto simp: present_def set_phase_def)

lemma set_phase_simps [simp]:
  "mk_inFlight (set_phase i p c) = mk_inFlight c" "mk_maxInFlight (set_phase i p c) = mk_maxInFlight c"
  "peaks (set_phase i p c) = peaks c" "phase_of (set_phase i p c) = (phase_of c)(i := p)"
  by (simp_all add: set_phase_def)

lemma present_simps [simp]:
  "present (c\<lparr>mk_inFlight := n\<rparr>) = present c" "present (c\<lparr>mk_maxInFlight := n\<rparr>) = present c"
  "present (c\<lparr>peaks := ps\<rparr>) = present c"
  by (simp_all add: present_def)

lemma counters_invD:
  assumes "counters_inv c"
  shows "finite (present c)" "mk_inFlight c = int (card (present c))"
    "mk_maxInFlight c = 0 \<or> mk_maxInFlight c \<in> set (peaks c)" "p \<in> set (peaks c) \<Longrightarrow> 0 < p"
    "claim (phase_of c i) = Some p \<Longrightarrow> p \<in> set (peaks c)"
    "phase_of c i = Loaded cur m \<Longrightarrow> m \<le> mk_maxInFlight c"
    "p \<in> set (peaks c) \<Longrightarrow> p \<le> mk_maxInFlight c \<or> (\<exists>i. claim (phase_of c i) = Some p)"
    "0 \<le> mk_maxInFlight c"
  using assms unfolding counters_inv_def by (blast, blast, blast, blast, blast, blast, blast, fastforce)

text \<open>A request moves on in its loop; if it leaves it, the maximum is at least its value.\<close>

lemma counters_inv_move:
  assumes c: "counters_inv c" and i: "claim (phase_of c i) = Some cur" and p: "p \<noteq> Absent"
    and m: "m = mk_maxInFlight c \<or> m = cur \<and> mk_maxInFlight c < cur"
    and claim: "claim p = Some cur \<or> claim p = None \<and> cur \<le> m"
    and loaded: "\<And>x y. p = Loaded x y \<Longrightarrow> y \<le> m"
  shows "counters_inv (set_phase i p (c\<lparr>mk_maxInFlight := m\<rparr>))"
proof -
  note inv = counters_invD [OF c]
  have pr: "present (set_phase i p (c\<lparr>mk_maxInFlight := m\<rparr>)) = present c"
    using i p by (auto simp: present_set_phase) (auto simp: present_def)
  have mono: "mk_maxInFlight c \<le> m" using m by auto
  have "q \<le> m \<or> (\<exists>j. claim (((phase_of c)(i := p)) j) = Some q)" if q: "q \<in> set (peaks c)" for q
  proof (cases "q \<le> mk_maxInFlight c")
    case False
    then obtain j where j: "claim (phase_of c j) = Some q" using inv(7) [OF q] by blast
    show ?thesis
    proof (cases "j = i")
      case True
      then show ?thesis using i j claim by auto
    next
      case False
      then have "claim (((phase_of c)(i := p)) j) = Some q" using j by simp
      then show ?thesis by blast
    qed
  qed (use mono in simp)
  moreover have "q \<in> set (peaks c)" if "claim (((phase_of c)(i := p)) j) = Some q" for j q
    using that inv(5) [of j q] inv(5) [OF i] claim by (auto split: if_splits)
  moreover have "y \<le> m" if "((phase_of c)(i := p)) j = Loaded x y" for j x y
    using that inv(6) [of j x y] mono loaded by (auto split: if_splits)
  ultimately show ?thesis unfolding counters_inv_def pr using inv(1-5) i m by auto
qed

lemma counters_inv_step:
  assumes "counter_step ev c = Some c'" "counters_inv c"
  shows "counters_inv c'"
proof (cases ev)
  case (Enter i)
  then have i: "phase_of c i = Absent" and c': "c' = set_phase i (Looping (mk_inFlight c + 1))
      (c\<lparr>mk_inFlight := mk_inFlight c + 1, peaks := (mk_inFlight c + 1) # peaks c\<rparr>)"
    using assms(1) by (auto simp: Let_def split: if_splits)
  note inv = counters_invD [OF assms(2)]
  have "i \<notin> present c" using i by (simp add: present_def)
  moreover have "p \<le> mk_maxInFlight c \<or> (\<exists>j. claim (((phase_of c)(i := Looping (mk_inFlight c + 1))) j) = Some p)"
    if p: "p \<in> set (peaks c)" for p
  proof (cases "p \<le> mk_maxInFlight c")
    case False
    then obtain j where "claim (phase_of c j) = Some p" using inv(7) [OF p] by blast
    then have "claim (((phase_of c)(i := Looping (mk_inFlight c + 1))) j) = Some p" using i by (cases "j = i") auto
    then show ?thesis by blast
  qed simp
  moreover have "\<exists>j. claim (((phase_of c)(i := Looping (mk_inFlight c + 1))) j) = Some (mk_inFlight c + 1)"
    by (rule exI [of _ i]) simp
  ultimately show ?thesis
    using inv(1-6) unfolding counters_inv_def c' present_set_phase by auto
next
  case (LoadMax i)
  then obtain cur where i: "phase_of c i = Looping cur" and c': "c' = set_phase i (Loaded cur (mk_maxInFlight c)) c"
    using assms(1) by (auto split: phase.splits)
  then show ?thesis using counters_inv_move [OF assms(2), of i cur "Loaded cur (mk_maxInFlight c)" "mk_maxInFlight c"] by simp
next
  case (TrySwap i)
  then obtain cur m where i: "phase_of c i = Loaded cur m" using assms(1) by (auto split: phase.splits)
  have m: "m \<le> mk_maxInFlight c" using counters_invD(6) [OF assms(2) i] .
  consider "cur \<le> m" "c' = set_phase i Serving c"
    | "m < cur" "mk_maxInFlight c = m" "c' = set_phase i Serving (c\<lparr>mk_maxInFlight := cur\<rparr>)"
    | "m < cur" "mk_maxInFlight c \<noteq> m" "c' = set_phase i (Looping cur) c"
    using assms(1) TrySwap i by (auto split: if_splits)
  then show ?thesis
  proof cases
    case 1
    then show ?thesis using counters_inv_move [OF assms(2), of i cur Serving "mk_maxInFlight c"] i m by simp
  next
    case 2
    then show ?thesis using counters_inv_move [OF assms(2), of i cur Serving cur] i by simp
  next
    case 3
    then show ?thesis using counters_inv_move [OF assms(2), of i cur "Looping cur" "mk_maxInFlight c"] i by simp
  qed
next
  case (Leave i)
  then have i: "phase_of c i = Serving" and c': "c' = set_phase i Absent (c\<lparr>mk_inFlight := mk_inFlight c - 1\<rparr>)"
    using assms(1) by (auto split: if_splits)
  note inv = counters_invD [OF assms(2)]
  have p: "i \<in> present c" using i by (simp add: present_def)
  have "int (card (present c - {i})) = mk_inFlight c - 1"
    using inv(2) card.remove [OF inv(1) p] by simp
  moreover have "present c' = present c - {i}" "peaks c' = peaks c" "mk_maxInFlight c' = mk_maxInFlight c"
    "mk_inFlight c' = mk_inFlight c - 1"
    unfolding c' present_set_phase by simp_all
  moreover have "claim (phase_of c' j) = claim (phase_of c j)" for j using i by (simp add: c')
  moreover have "phase_of c' j = Loaded x y \<Longrightarrow> y \<le> mk_maxInFlight c" for j x y
    using inv(6) [of j x y] by (auto simp: c' split: if_splits)
  ultimately show ?thesis using assms(2) unfolding counters_inv_def by simp
qed

lemma counters_reached_inv: "counters_reached c \<Longrightarrow> counters_inv c"
proof (induction rule: counters_reached.induct)
  case start
  show ?case by (simp add: counters_inv_def no_requests_def present_def)
next
  case (step c ev c')
  then show ?case using counters_inv_step by blast
qed

lemma gpu_bounds: "0 \<le> cur \<Longrightarrow> 0 \<le> gpu_utilization cur m \<and> gpu_utilization cur m \<le> 1"
  by (auto simp: gpu_utilization_def Let_def intro!: f64.nonneg divide_nonneg_nonneg)

text \<open>C25:
  The counters of the mock backend, under every interleaving.  \<open>inFlight\<close> is the number of
  requests between their two updates of it; \<open>maxInFlight\<close> never exceeds the peak of
  \<open>inFlight\<close> and never falls, and when no request is still in its loop it equals that peak.
  A request whose swap fails finds a larger maximum, so it tries again at most as often as
  the maximum can grow below its own value.  The gauge lies between 0 and 1.
\<close>

theorem mock_counters:
  assumes "counters_reached c"
  shows "finite (present c) \<and> mk_inFlight c = int (card (present c))
    \<and> mk_maxInFlight c \<le> Max (insert 0 (set (peaks c)))
    \<and> ((\<forall>i. phase_of c i \<in> {Absent, Serving}) \<longrightarrow> mk_maxInFlight c = Max (insert 0 (set (peaks c))))
    \<and> (\<forall>ev c'. counter_step ev c = Some c' \<longrightarrow> mk_maxInFlight c \<le> mk_maxInFlight c')
    \<and> (\<forall>i cur m c'. phase_of c i = Loaded cur m \<longrightarrow> counter_step (TrySwap i) c = Some c' \<longrightarrow>
         phase_of c' i = Serving \<or> phase_of c' i = Looping cur \<and> m < cur \<and> m < mk_maxInFlight c)
    \<and> 0 \<le> gpu_utilization (mk_inFlight c) (mk_maxInFlight c) \<and> gpu_utilization (mk_inFlight c) (mk_maxInFlight c) \<le> 1"
proof (intro conjI impI allI)
  have inv: "counters_inv c" using counters_reached_inv [OF assms] .
  show "finite (present c)" "mk_inFlight c = int (card (present c))"
    using inv by (simp_all add: counters_inv_def)
  then show "0 \<le> gpu_utilization (mk_inFlight c) (mk_maxInFlight c)"
    "gpu_utilization (mk_inFlight c) (mk_maxInFlight c) \<le> 1" using gpu_bounds by simp_all
  have le: "mk_maxInFlight c \<le> Max (insert 0 (set (peaks c)))"
    using inv by (auto simp: counters_inv_def)
  then show "mk_maxInFlight c \<le> Max (insert 0 (set (peaks c)))" .
  have nonneg: "0 \<le> mk_maxInFlight c" using inv by (auto simp: counters_inv_def)
  show "mk_maxInFlight c = Max (insert 0 (set (peaks c)))" if "\<forall>i. phase_of c i \<in> {Absent, Serving}"
  proof (rule antisym [OF le])
    have "\<forall>p \<in> set (peaks c). p \<le> mk_maxInFlight c"
      using counters_invD(7) [OF inv] that by (metis claim.simps(3,4) insertE option.distinct(1) singletonD)
    then show "Max (insert 0 (set (peaks c))) \<le> mk_maxInFlight c" using nonneg by simp
  qed
next
  fix ev c' assume "counter_step ev c = Some c'"
  then show "mk_maxInFlight c \<le> mk_maxInFlight c'"
    using counters_reached_inv [OF assms]
    by (cases ev) (auto simp: counters_inv_def Let_def split: if_splits phase.splits)
next
  fix i cur m c' assume l: "phase_of c i = Loaded cur m" and "counter_step (TrySwap i) c = Some c'"
  moreover have "m \<le> mk_maxInFlight c" using counters_reached_inv [OF assms] l unfolding counters_inv_def by blast
  ultimately show "phase_of c' i = Serving \<or> phase_of c' i = Looping cur \<and> m < cur \<and> m < mk_maxInFlight c"
    by (auto split: if_splits)
qed

text \<open>Two requests side by side, of which the first loses the race for the maximum.\<close>

definition demo_race :: counters where
  "demo_race = \<lparr>mk_inFlight = 2, mk_maxInFlight = 2, phase_of = (\<lambda>_. Absent)(0 := Serving, 1 := Serving), peaks = [2, 1]\<rparr>"

lemma demo_race_reached: "counters_reached demo_race"
proof -
  have go: "counters_reached c \<Longrightarrow> counter_step ev c = Some c' \<Longrightarrow> counters_reached c'" for c ev c'
    by (rule counters_reached.step)
  define c1 c2 c3 c4 c5 c6 c7 where "c1 = the (counter_step (Enter 0) no_requests)" and "c2 = the (counter_step (LoadMax 0) c1)"
    and "c3 = the (counter_step (Enter 1) c2)" and "c4 = the (counter_step (LoadMax 1) c3)"
    and "c5 = the (counter_step (TrySwap 1) c4)" and "c6 = the (counter_step (TrySwap 0) c5)"
    and "c7 = the (counter_step (LoadMax 0) c6)"
  note d = c1_def c2_def c3_def c4_def c5_def c6_def c7_def no_requests_def set_phase_def
  have "counters_reached c1" by (rule go [OF counters_reached.start, of "Enter 0"]) (simp add: d)
  then have "counters_reached c2" by (rule go [of _ "LoadMax 0"]) (simp add: d)
  then have "counters_reached c3" by (rule go [of _ "Enter 1"]) (simp add: d)
  then have "counters_reached c4" by (rule go [of _ "LoadMax 1"]) (simp add: d)
  then have "counters_reached c5" by (rule go [of _ "TrySwap 1"]) (simp add: d)
  then have "counters_reached c6" by (rule go [of _ "TrySwap 0"]) (simp add: d)
  then have "counters_reached c7" by (rule go [of _ "LoadMax 0"]) (simp add: d)
  then show ?thesis by (rule go [of _ "TrySwap 0"]) (simp add: d demo_race_def fun_eq_iff)
qed

lemma mock_counters_witness:
  "mk_maxInFlight demo_race = Max (insert 0 (set (peaks demo_race))) \<and> mk_inFlight demo_race = 2"
  using mock_counters [OF demo_race_reached] by (simp add: demo_race_def)

subsection \<open>Tokens\<close>

lemma pad_tokens_eq: "pad_tokens k draw out = out @ map (\<lambda>i. vocab ! draw i) [length out..<length out + k]"
proof (induction k arbitrary: out)
  case (Suc k)
  show ?case by (simp add: Suc upt_conv_Cons [of "length out"] del: upt_Suc)
qed simp

text \<open>The last at most six words of the last message of the user.\<close>

definition echo_words :: "mock_message list \<Rightarrow> string list" where
  "echo_words msgs =
     (let ws = Go_Strings.fields (last_user (rev msgs)) in drop (length ws - 6) ws)"

text \<open>The completion of the mock backend has exactly the number of tokens asked for: \<open>Answer:\<close>,
  the last at most six words of the last message of the user, cut off if that is too many,
  and words of the vocabulary up to the number.
\<close>

lemma build_tokens_spec:
  assumes "0 \<le> n" "\<And>i. draw i < length vocab"
  shows "\<exists>pad. build_tokens draw msgs n = Some (take (nat n) (''Answer:'' # echo_words msgs) @ pad)
    \<and> length (take (nat n) (''Answer:'' # echo_words msgs) @ pad) = nat n
    \<and> set pad \<subseteq> set vocab \<and> length (echo_words msgs) \<le> 6"
proof -
  let ?ws = "Go_Strings.fields (last_user (rev msgs))"
  let ?out = "''Answer:'' # echo_words msgs"
  let ?pad = "map (\<lambda>i. vocab ! draw i) [length ?out..<length ?out + (nat n - length ?out)]"
  have e: "(if length ?ws > 6 then drop (length ?ws - 6) ?ws else ?ws) = echo_words msgs"
    by (simp add: echo_words_def Let_def)
  obtain pad where p: "pad = ?pad" by blast
  have len: "length pad = nat n - length ?out" unfolding p by (simp del: upt_Suc)
  have "build_tokens draw msgs n = Some (take (nat n) (?out @ pad))"
    using assms(1) unfolding build_tokens_def Let_def e pad_tokens_eq p by simp
  moreover have "take (nat n) (?out @ pad) = take (nat n) ?out @ pad"
  proof -
    have "take (nat n - length ?out) pad = pad" using len by simp
    then show ?thesis by (simp only: take_append)
  qed
  moreover have "set pad \<subseteq> set vocab" using assms(2) unfolding p by auto
  moreover have "length (echo_words msgs) \<le> 6" by (simp add: echo_words_def Let_def)
  moreover have "length (take (nat n) ?out @ pad) = nat n"
    unfolding length_append length_take len by linarith
  ultimately show ?thesis by (intro exI [of _ pad]) simp
qed

lemma build_tokens_spec_witness:
  "build_tokens (\<lambda>_. 3) [\<lparr>mm_Role = ''user'', mm_Content = ''hello  there''\<rparr>] 5
     = Some [''Answer:'', ''hello'', ''there'', ''is'', ''is'']"
proof -
  let ?m = "[\<lparr>mm_Role = ''user'', mm_Content = ''hello  there''\<rparr>]"
  have e: "echo_words ?m = [''hello'', ''there'']" by code_simp
  have "3 < length vocab" by (simp add: vocab_def)
  then obtain pad where "build_tokens (\<lambda>_. 3) ?m 5 = Some (take (nat 5) (''Answer:'' # echo_words ?m) @ pad)"
    using build_tokens_spec [of 5 "\<lambda>_. 3" ?m] by auto
  moreover have "build_tokens (\<lambda>_. 3) ?m 5 = Some [''Answer:'', ''hello'', ''there'', ''is'', ''is'']" by code_simp
  ultimately show ?thesis by simp
qed

end
