(* ===== verification/Load_Generator.thy ===== *)
theory Load_Generator
  imports Sse "HOL-Library.Multiset"
begin

section \<open>The load generator\<close>

text \<open>
  \<open>bench/cmd/load/main.go\<close>: the file of prompts, the choice of the next prompt, one streaming
  call against the gateway, the workers that share the counters, the percentiles and the
  report.  The flags are a record; draws of the random generator, the clock and the outcome
  of the HTTP exchange are arguments.
\<close>

record load_flags =
  lf_concurrency :: int
  lf_duration_text :: string
  lf_maxTokens :: int
  lf_repeatRate :: float64
  lf_model :: string
  lf_apiKey :: string
  lf_url :: string

record load_result =
  r_ok :: bool
  r_cacheHit :: bool
  r_ttftMs :: float64
  r_totalMs :: float64
  r_tokens :: int

definition no_result :: load_result where
  "no_result = \<lparr>r_ok = False, r_cacheHit = False, r_ttftMs = 0, r_totalMs = 0, r_tokens = 0\<rparr>"

subsection \<open>Prompts\<close>

text \<open>
  \<open>bufio.Scanner\<close> on lines: without the newline and one carriage return before it; a line of
  64 KiB or more ends the scan with an error, which is the second component.
\<close>

definition drop_newline :: "string \<Rightarrow> string" where
  "drop_newline l = (if l \<noteq> [] \<and> last l = newline then butlast l else l)"

definition drop_cr :: "string \<Rightarrow> string" where
  "drop_cr l = (if l \<noteq> [] \<and> last l = CHR 0x0D then butlast l else l)"

fun scan_lines :: "string list \<Rightarrow> string list \<times> bool" where
  "scan_lines [] = ([], False)"
| "scan_lines (l # ls) =
     (let t = drop_newline l
      in if 65536 \<le> length t then ([], True)
         else let (ts, err) = scan_lines ls in (drop_cr t # ts, err))"

definition prompt_of_line :: "string \<Rightarrow> string option" where
  "prompt_of_line l =
     (let t = trim_space l in if t \<noteq> [] \<and> \<not> prefix ''#'' t then Some t else None)"

text \<open>The content of the file, or \<open>None\<close> if it cannot be opened.\<close>

definition load_prompts :: "string \<Rightarrow> string option \<Rightarrow> string + string list" where
  "load_prompts path file =
     (case file of
        None \<Rightarrow> Inl ''open''
      | Some content \<Rightarrow>
          (let (ts, err) = scan_lines (lines_of content); out = List.map_filter prompt_of_line ts
           in if out = [] then Inl (''no prompts in '' @ path)
              else if err then Inl ''bufio.Scanner: token too long''
              else Inr out))"

text \<open>
  The draws of one round: a float, a 63-bit number, and \<open>Intn\<close> as a function of its argument,
  once for the prompts and once for the recent ones.
\<close>

record draws =
  d_float :: float64
  d_int63 :: int
  d_prompt :: "nat \<Rightarrow> nat"
  d_recent :: "nat \<Rightarrow> nat"

definition fresh_prompt :: "string list \<Rightarrow> nat \<Rightarrow> draws \<Rightarrow> string" where
  "fresh_prompt prompts worker d =
     ''[w'' @ show_int (int worker) @ ''-'' @ show_int (d_int63 d) @ ''] '' @ prompts ! d_prompt d (length prompts)"

definition next_prompt ::
  "float64 \<Rightarrow> string list \<Rightarrow> bool \<Rightarrow> nat \<Rightarrow> draws \<Rightarrow> string list \<Rightarrow> string \<times> string list" where
  "next_prompt repeat_rate prompts unique_only worker d recent =
     (if unique_only \<or> recent = [] \<or> d_float d > repeat_rate
      then
        let p = fresh_prompt prompts worker d
        in (p, if length recent < 8 then recent @ [p] else recent[d_recent d (length recent) := p])
      else (recent ! d_recent d (length recent), recent))"

text \<open>The prompts of a worker, one for each round.\<close>

fun worker_prompts ::
  "float64 \<Rightarrow> string list \<Rightarrow> bool \<Rightarrow> nat \<Rightarrow> draws list \<Rightarrow> string list \<Rightarrow> string list" where
  "worker_prompts rate prompts unique_only worker [] recent = []"
| "worker_prompts rate prompts unique_only worker (d # ds) recent =
     (let (p, recent) = next_prompt rate prompts unique_only worker d recent
      in p # worker_prompts rate prompts unique_only worker ds recent)"

subsection \<open>One call\<close>

text \<open>The body, its keys sorted.\<close>

definition load_body :: "load_flags \<Rightarrow> string \<Rightarrow> string" where
  "load_body fl prompt =
     marshal (JObj
       [(''max_tokens'', JNum (show_int (lf_maxTokens fl))),
        (''messages'', JArr [JObj [(''content'', JStr prompt), (''role'', JStr ''user'')]]),
        (''model'', JStr (lf_model fl)), (''stream'', JBool True)])"

definition load_headers :: "load_flags \<Rightarrow> bool \<Rightarrow> (string \<times> string) list" where
  "load_headers fl no_cache =
     [(''Authorization'', ''Bearer '' @ lf_apiKey fl), (''Content-Type'', ''application/json'')]
     @ (if no_cache then [(''Cache-Control'', ''no-store'')] else [])"

text \<open>
  The loop over the lines of the response; \<open>since i\<close> is the time since the start when line \<open>i\<close>
  has been read.  It ends at the sentinel, or when the lines do.
\<close>

definition done_line :: "string \<Rightarrow> bool" where
  "done_line line \<longleftrightarrow> take 6 line = ''data: '' \<and> trim_space (drop 6 line) = ''[DONE]''"

definition line_tokens :: "string \<Rightarrow> int" where
  "line_tokens line =
     (if take 6 line = ''data: ''
      then (case first_content ''delta'' (trim_space (drop 6 line)) of
              None \<Rightarrow> 0
            | Some c \<Rightarrow> int (length (Go_Strings.fields c)))
      else 0)"

fun read_lines :: "(nat \<Rightarrow> duration) \<Rightarrow> nat \<Rightarrow> string list \<Rightarrow> int \<Rightarrow> duration \<Rightarrow> int \<times> duration" where
  "read_lines since i [] tokens ttft = (tokens, ttft)"
| "read_lines since i (l # ls) tokens ttft =
     (let ttft = (if ttft = 0 then since i else ttft)
      in if done_line l then (tokens, ttft)
         else read_lines since (Suc i) ls (tokens + line_tokens l) ttft)"

text \<open>\<open>Duration.Microseconds\<close>, as a number of milliseconds.\<close>

definition in_ms :: "duration \<Rightarrow> float64" where
  "in_ms d = fl64 (fl64 (of_int (go_quot d 1000)) / 1000)"

text \<open>
  What the exchange comes to: no response, or its status, the header \<open>X-Velo-Cache\<close> and the
  bytes of the body that arrive, whether it then ends or breaks off.
\<close>

datatype load_exchange = NoResponse | LoadResponse int string string

definition call_stream :: "(nat \<Rightarrow> duration) \<Rightarrow> duration \<Rightarrow> load_exchange \<Rightarrow> load_result" where
  "call_stream since elapsed x =
     (case x of
        NoResponse \<Rightarrow> no_result
      | LoadResponse status cache_header body \<Rightarrow>
          if go_quot status 100 \<noteq> 2 then no_result
          else let (tokens, ttft) = read_lines since 0 (lines_of body) 0 0
               in \<lparr>r_ok = True, r_cacheHit = (cache_header = ''HIT''), r_ttftMs = in_ms ttft,
                   r_totalMs = in_ms elapsed, r_tokens = tokens\<rparr>)"

subsection \<open>The workload\<close>

text \<open>
  The workers and the counters they share.  A worker that has a result adds it to the four
  counters, one atomic operation each, and then appends it under the lock.
\<close>

datatype load_phase = Calling | AddRequest load_result | AddOk load_result | AddHit load_result
  | AddTokens load_result | Append load_result

record workload =
  w_requests :: int
  w_ok :: int
  w_cacheHits :: int
  w_tokens :: int
  w_results :: "load_result list"
  w_phase :: "nat \<Rightarrow> load_phase"

definition new_workload :: workload where
  "new_workload = \<lparr>w_requests = 0, w_ok = 0, w_cacheHits = 0, w_tokens = 0, w_results = [], w_phase = (\<lambda>_. Calling)\<rparr>"

text \<open>The next step of worker \<open>i\<close>; a call returns \<open>r\<close>.\<close>

definition worker_step :: "nat \<Rightarrow> load_result \<Rightarrow> workload \<Rightarrow> workload" where
  "worker_step i r w =
     (case w_phase w i of
        Calling \<Rightarrow> w\<lparr>w_phase := (w_phase w)(i := AddRequest r)\<rparr>
      | AddRequest r \<Rightarrow> w\<lparr>w_requests := w_requests w + 1, w_phase := (w_phase w)(i := AddOk r)\<rparr>
      | AddOk r \<Rightarrow> w\<lparr>w_ok := (if r_ok r then w_ok w + 1 else w_ok w), w_phase := (w_phase w)(i := AddHit r)\<rparr>
      | AddHit r \<Rightarrow>
          w\<lparr>w_cacheHits := (if r_cacheHit r then w_cacheHits w + 1 else w_cacheHits w),
            w_phase := (w_phase w)(i := AddTokens r)\<rparr>
      | AddTokens r \<Rightarrow> w\<lparr>w_tokens := w_tokens w + r_tokens r, w_phase := (w_phase w)(i := Append r)\<rparr>
      | Append r \<Rightarrow> w\<lparr>w_results := w_results w @ [r], w_phase := (w_phase w)(i := Calling)\<rparr>)"

text \<open>Any interleaving of \<open>n\<close> workers whose calls return results of \<open>callStream\<close>.\<close>

inductive workload_reached :: "nat \<Rightarrow> workload \<Rightarrow> bool" for n where
  start: "workload_reached n new_workload"
| step: "workload_reached n w \<Longrightarrow> i < n \<Longrightarrow> workload_reached n (worker_step i (call_stream since elapsed x) w)"

record aggregate =
  a_results :: "load_result list"
  a_requests :: int
  a_ok :: int
  a_cacheHits :: int
  a_totalTokens :: int
  a_wall :: duration

definition aggregate_of :: "workload \<Rightarrow> time \<Rightarrow> time \<Rightarrow> aggregate" where
  "aggregate_of w wall_start wall_end =
     \<lparr>a_results = w_results w, a_requests = w_requests w, a_ok = w_ok w, a_cacheHits = w_cacheHits w,
      a_totalTokens = w_tokens w, a_wall = time_sub wall_end wall_start\<rparr>"

subsection \<open>The report\<close>

text \<open>The index is truncated; it lies within the list for every \<open>p\<close> between 0 and 1.\<close>

definition percentile :: "float64 list \<Rightarrow> float64 \<Rightarrow> float64" where
  "percentile xs p =
     (if xs = [] then 0
      else sort xs ! nat \<lfloor>fl64 (fl64 (of_int (int (length xs) - 1)) * p)\<rfloor>)"

text \<open>With \<open>+\<close> for the sign.\<close>

definition format_plus :: "nat \<Rightarrow> float64 \<Rightarrow> string" where
  "format_plus k x = (if x < 0 then [] else ''+'') @ format_f k x"

text \<open>A quotient, printed with one digit; dividing by zero gives an infinity or not a number.\<close>

definition format_quot :: "float64 \<Rightarrow> float64 \<Rightarrow> string" where
  "format_quot a b =
     (if b = 0 then (if a = 0 then ''NaN'' else if a < 0 then ''-Inf'' else ''+Inf'')
      else format_f 1 (fl64 (a / b)))"

definition pct_delta :: "float64 \<Rightarrow> float64 \<Rightarrow> string" where
  "pct_delta a b =
     (if a = 0 then ''-'' else format_plus 0 (fl64 (fl64 (fl64 (b - a) / a) * 100)) @ ''%'')"

definition pct_delta_inv :: "float64 \<Rightarrow> float64 \<Rightarrow> string" where
  "pct_delta_inv a b =
     (if a = 0 then ''-'' else format_plus 0 (fl64 (fl64 (fl64 (b - a) / a) * 100)) @ ''%'')"

abbreviation p50 :: float64 where "p50 \<equiv> 1 / 2"
definition p95 :: float64 where "p95 = fl64 (95 / 100)"
definition p99 :: float64 where "p99 = fl64 (99 / 100)"

definition ok_results :: "aggregate \<Rightarrow> load_result list" where
  "ok_results a = filter r_ok (a_results a)"

definition print_summary :: "string \<Rightarrow> aggregate \<Rightarrow> string list" where
  "print_summary label a =
     (if a_requests a = 0 then [label @ '': no requests completed'']
      else
        let totals = map r_totalMs (ok_results a);
            ttfts = map r_ttftMs (ok_results a);
            wall = seconds (a_wall a);
            hit_rate = (if a_ok a > 0 then fl64 (fl64 (of_int (a_cacheHits a)) / fl64 (of_int (a_ok a))) else 0);
            line = (\<lambda>name xs. ''['' @ label @ ''] '' @ name @ '' p50='' @ format_f 1 (percentile xs p50)
                      @ ''ms p95='' @ format_f 1 (percentile xs p95) @ ''ms p99='' @ format_f 1 (percentile xs p99) @ ''ms'')
        in [''['' @ label @ ''] requests='' @ show_int (a_requests a) @ '' ok='' @ show_int (a_ok a)
              @ '' errors='' @ show_int (a_requests a - a_ok a)
              @ '' rps='' @ format_quot (fl64 (of_int (a_ok a))) wall
              @ '' tokens/s='' @ format_quot (fl64 (of_int (a_totalTokens a))) wall
              @ '' cache-hit='' @ format_f 1 (fl64 (hit_rate * 100)) @ ''%'',
            line ''latency '' totals, line ''TTFT    '' ttfts])"

record report_row =
  rr_rps :: float64
  rr_tps :: float64
  rr_hit :: float64
  rr_p50 :: float64
  rr_p95 :: float64
  rr_p99 :: float64
  rr_t50 :: float64

definition row :: "aggregate \<Rightarrow> report_row" where
  "row a =
     (let totals = map r_totalMs (ok_results a); ttfts = map r_ttftMs (ok_results a); wall = seconds (a_wall a)
      in \<lparr>rr_rps = (if wall > 0 then fl64 (fl64 (of_int (a_ok a)) / wall) else 0),
          rr_tps = (if wall > 0 then fl64 (fl64 (of_int (a_totalTokens a)) / wall) else 0),
          rr_hit = (if a_ok a > 0
                    then fl64 (fl64 (fl64 (of_int (a_cacheHits a)) / fl64 (of_int (a_ok a))) * 100) else 0),
          rr_p50 = percentile totals p50, rr_p95 = percentile totals p95, rr_p99 = percentile totals p99,
          rr_t50 = percentile ttfts p50\<rparr>)"

definition table_line :: "string \<Rightarrow> string \<Rightarrow> string \<Rightarrow> string \<Rightarrow> string" where
  "table_line name x y delta = ''| '' @ name @ '' | '' @ x @ '' | '' @ y @ '' | '' @ delta @ '' |''"

definition render_markdown :: "load_flags \<Rightarrow> aggregate \<Rightarrow> aggregate \<Rightarrow> string list" where
  "render_markdown fl cold warm =
     (let c = row cold; w = row warm;
          num = (\<lambda>name f. table_line name (format_f 1 (f c) @ ''                 '') (format_f 1 (f w) @ ''                  '') (pct_delta (f c) (f w)));
          ms = (\<lambda>name f. table_line name (format_f 1 (f c) @ '' ms              '') (format_f 1 (f w) @ '' ms               '') (pct_delta_inv (f c) (f w)))
      in [''## Velo benchmark - concurrency='' @ show_int (lf_concurrency fl) @ '' duration='' @ lf_duration_text fl, [],
          ''| metric              | cold (cache miss only) | warm (batching + cache) | delta |'',
          ''|---------------------|------------------------|-------------------------|-------|'',
          num ''Requests/sec       '' rr_rps,
          num ''Tokens/sec         '' rr_tps,
          ms ''Latency p50        '' rr_p50,
          ms ''Latency p95        '' rr_p95,
          ms ''Latency p99        '' rr_p99,
          ms ''TTFT p50           '' rr_t50,
          table_line ''Cache hit rate     '' (format_f 1 (rr_hit c) @ ''%                '') (format_f 1 (rr_hit w) @ ''%                 '')
            (''+'' @ format_f 1 (fl64 (rr_hit w - rr_hit c)) @ ''pp'')])"

subsection \<open>The command\<close>

text \<open>
  \<open>main\<close>: the exit code, the lines printed and those on the error stream, and what is written
  to the file of the flag \<open>output\<close>; \<open>run\<close> is \<open>runWorkload\<close> as a function of its two switches, and
  \<open>wrote\<close> the error of the write.
\<close>

record load_out =
  lo_exit :: int
  lo_stdout :: "string list"
  lo_stderr :: "string list"
  lo_file :: "(string \<times> string list) option"

definition load_main ::
  "load_flags \<Rightarrow> string \<Rightarrow> bool \<Rightarrow> string \<Rightarrow> string option \<Rightarrow> (bool \<Rightarrow> bool \<Rightarrow> aggregate) \<Rightarrow> string option \<Rightarrow> load_out" where
  "load_main fl path compare output file run wrote =
     (case load_prompts path file of
        Inl err \<Rightarrow> \<lparr>lo_exit = 1, lo_stdout = [], lo_stderr = [''load prompts: '' @ err], lo_file = None\<rparr>
      | Inr pps \<Rightarrow>
          let banner = ''loaded '' @ show_int (int (length pps)) @ '' prompts; running '' @ lf_url fl
                @ '' @ concurrency='' @ show_int (lf_concurrency fl) @ '' duration='' @ lf_duration_text fl
                @ '' repeat='' @ format_f 0 (fl64 (lf_repeatRate fl * 100)) @ ''%''
          in if compare
             then
               let cold = run True True; warm = run False False; md = render_markdown fl cold warm;
                   out = [banner, [], ''== Run 1: cold (Cache-Control: no-store, unique prompts) ==''] @ print_summary ''cold'' cold
                     @ [[], ''== Run 2: warm (batching + cache enabled, 60% prompt reuse) ==''] @ print_summary ''warm'' warm
                     @ [] # md @ [[]]
               in if output = [] then \<lparr>lo_exit = 0, lo_stdout = out, lo_stderr = [], lo_file = None\<rparr>
                  else (case wrote of
                          Some err \<Rightarrow> \<lparr>lo_exit = 0, lo_stdout = out, lo_stderr = [''write report: '' @ err], lo_file = None\<rparr>
                        | None \<Rightarrow> \<lparr>lo_exit = 0, lo_stdout = out @ [''wrote report to '' @ output], lo_stderr = [],
                                   lo_file = Some (output, md)\<rparr>)
             else \<lparr>lo_exit = 0, lo_stdout = banner # print_summary ''run'' (run False False), lo_stderr = [], lo_file = None\<rparr>)"

subsection \<open>The prompts of a worker\<close>

text \<open>The window holds at most eight prompts, all of them sent before.\<close>

lemma next_prompt_window:
  assumes "next_prompt rate prompts u worker d recent = (p, recent')" "length recent \<le> 8"
    "\<And>n. 0 < n \<Longrightarrow> d_recent d n < n"
  shows "length recent' \<le> 8" "set recent' \<subseteq> insert p (set recent)"
    "p = fresh_prompt prompts worker d \<or> \<not> u \<and> p \<in> set recent"
  using assms set_update_subset_insert [of recent "d_recent d (length recent)" p]
  by (auto simp: next_prompt_def Let_def split: if_splits)

lemma worker_prompts_from:
  assumes "\<And>d n. d \<in> set ds \<Longrightarrow> 0 < n \<Longrightarrow> d_recent d n < n" "length recent \<le> 8" "i < length ds"
  shows "worker_prompts rate prompts u worker ds recent ! i = fresh_prompt prompts worker (ds ! i)
    \<or> \<not> u \<and> worker_prompts rate prompts u worker ds recent ! i
        \<in> set recent \<union> set (take i (worker_prompts rate prompts u worker ds recent))"
  using assms
proof (induction ds arbitrary: recent i)
  case (Cons d ds)
  obtain p recent' where n: "next_prompt rate prompts u worker d recent = (p, recent')" by force
  note w = next_prompt_window [OF n Cons.prems(2)]
  have w: "length recent' \<le> 8" "set recent' \<subseteq> insert p (set recent)"
    "p = fresh_prompt prompts worker d \<or> \<not> u \<and> p \<in> set recent"
    using w Cons.prems(1) by auto
  show ?case
  proof (cases i)
    case 0
    then show ?thesis using w(3) by (simp add: n)
  next
    case (Suc j)
    then show ?thesis
      using Cons.IH [of recent' j] Cons.prems w(1,2) by (auto simp: n)
  qed
qed simp

lemma length_worker_prompts [simp]: "length (worker_prompts rate prompts u worker ds recent) = length ds"
  by (induction ds arbitrary: recent) (auto split: prod.split)

text \<open>Every prompt a worker sends is a new one, made from the draw of its round, or one that the
  same worker has sent before; with \<open>uniqueOnly\<close> every prompt is a new one.  So a hit in the
  cache during the cold run cannot come from a repeated prompt.
\<close>

lemma worker_prompts_repeat:
  assumes "\<And>d n. d \<in> set ds \<Longrightarrow> 0 < n \<Longrightarrow> d_recent d n < n" "i < length ds"
  shows "worker_prompts rate prompts u worker ds [] ! i = fresh_prompt prompts worker (ds ! i)
    \<or> \<not> u \<and> worker_prompts rate prompts u worker ds [] ! i \<in> set (take i (worker_prompts rate prompts u worker ds []))"
  using worker_prompts_from [of ds "[]" i rate prompts u worker] assms by simp

definition demo_draws :: "draws list" where
  "demo_draws = [\<lparr>d_float = 1/4, d_int63 = 7, d_prompt = (\<lambda>_. 0), d_recent = (\<lambda>_. 0)\<rparr>,
                 \<lparr>d_float = 1/4, d_int63 = 9, d_prompt = (\<lambda>_. 0), d_recent = (\<lambda>_. 0)\<rparr>]"

lemma worker_prompts_repeat_witness:
  "worker_prompts (1/2) [''hi''] False 3 demo_draws [] = [''[w3-7] hi'', ''[w3-7] hi'']
   \<and> worker_prompts (1/2) [''hi''] True 3 demo_draws [] ! 1 = ''[w3-9] hi''"
proof -
  have f: "fresh_prompt [''hi''] 3 (demo_draws ! 1) = ''[w3-9] hi''" by code_simp
  have "worker_prompts (1/2) [''hi''] True 3 demo_draws [] ! 1 = fresh_prompt [''hi''] 3 (demo_draws ! 1)"
  proof -
    have "\<And>d n. d \<in> set demo_draws \<Longrightarrow> 0 < n \<Longrightarrow> d_recent d n < n" "1 < length demo_draws"
      by (auto simp: demo_draws_def)
    then show ?thesis using worker_prompts_repeat [of demo_draws 1 "1/2" "[''hi'']" True 3] by blast
  qed
  moreover have "worker_prompts (1/2) [''hi''] False 3 demo_draws [] = [''[w3-7] hi'', ''[w3-7] hi'']" by code_simp
  ultimately show ?thesis using f by simp
qed

subsection \<open>The counters agree with the results\<close>

text \<open>What a result adds to each counter, and what a worker has added for the result it holds.\<close>

datatype counter = Requests | Oks | Hits | Tokens

fun amount :: "counter \<Rightarrow> load_result \<Rightarrow> int" where
  "amount Requests r = 1"
| "amount Oks r = of_bool (r_ok r)"
| "amount Hits r = of_bool (r_cacheHit r)"
| "amount Tokens r = r_tokens r"

fun counter_of :: "counter \<Rightarrow> workload \<Rightarrow> int" where
  "counter_of Requests w = w_requests w"
| "counter_of Oks w = w_ok w"
| "counter_of Hits w = w_cacheHits w"
| "counter_of Tokens w = w_tokens w"

fun counted_in :: "load_phase \<Rightarrow> (load_result \<times> counter set) option" where
  "counted_in Calling = None"
| "counted_in (AddRequest r) = Some (r, {})"
| "counted_in (AddOk r) = Some (r, {Requests})"
| "counted_in (AddHit r) = Some (r, {Requests, Oks})"
| "counted_in (AddTokens r) = Some (r, {Requests, Oks, Hits})"
| "counted_in (Append r) = Some (r, {Requests, Oks, Hits, Tokens})"

lemma all_counters: "(\<forall>k. P k) \<longleftrightarrow> P Requests \<and> P Oks \<and> P Hits \<and> P Tokens"
  by (metis counter.exhaust)

definition added :: "counter \<Rightarrow> load_phase \<Rightarrow> int" where
  "added k p = (case counted_in p of None \<Rightarrow> 0 | Some (r, ks) \<Rightarrow> if k \<in> ks then amount k r else 0)"

text \<open>A failed call counts for nothing else.\<close>

definition good_result :: "load_result \<Rightarrow> bool" where
  "good_result r \<longleftrightarrow> (r_ok r \<or> r = no_result) \<and> 0 \<le> r_tokens r"

definition good_phase :: "load_phase \<Rightarrow> bool" where
  "good_phase p \<longleftrightarrow> (case counted_in p of None \<Rightarrow> True | Some (r, _) \<Rightarrow> good_result r)"

definition workload_inv :: "nat \<Rightarrow> workload \<Rightarrow> bool" where
  "workload_inv n w \<longleftrightarrow>
     (\<forall>k. counter_of k w = sum_list (map (amount k) (w_results w)) + (\<Sum>i<n. added k (w_phase w i)))
     \<and> (\<forall>r \<in> set (w_results w). good_result r) \<and> (\<forall>i. good_phase (w_phase w i))"

lemma line_tokens_nonneg: "0 \<le> line_tokens l"
  by (simp add: line_tokens_def split: option.split)

lemma read_lines_tokens: "0 \<le> k \<Longrightarrow> 0 \<le> fst (read_lines since i ls k ttft)"
  by (induction ls arbitrary: i k ttft) (simp_all add: Let_def line_tokens_nonneg)

lemma call_stream_good: "good_result (call_stream since elapsed x)"
  using read_lines_tokens [of 0 since 0 _ 0]
  by (auto simp: call_stream_def good_result_def no_result_def split: load_exchange.split prod.split)
     (metis fst_conv order_refl)

lemma sum_fun_upd:
  fixes f :: "'a \<Rightarrow> 'b::ab_group_add"
  assumes "i < (n::nat)"
  shows "(\<Sum>j<n. f ((g(i := p)) j)) = (\<Sum>j<n. f (g j)) - f (g i) + f p"
proof -
  have s: "(\<Sum>j<n. h j) = h i + (\<Sum>j\<in>{..<n} - {i}. h j)" for h :: "nat \<Rightarrow> 'b"
    using assms by (intro sum.remove) auto
  have "(\<Sum>j\<in>{..<n} - {i}. f ((g(i := p)) j)) = (\<Sum>j\<in>{..<n} - {i}. f (g j))"
    by (rule sum.cong) auto
  then show ?thesis using s [of "\<lambda>j. f ((g(i := p)) j)"] s [of "\<lambda>j. f (g j)"] by simp
qed

text \<open>A step of worker \<open>i\<close> changes the counters by what its phase then has added more, or appends the result.\<close>

lemma worker_step_effect:
  "counter_of k (worker_step i r w) - sum_list (map (amount k) (w_results (worker_step i r w)))
     = counter_of k w - sum_list (map (amount k) (w_results w))
       + added k (w_phase (worker_step i r w) i) - added k (w_phase w i)"
  by (cases k; cases "w_phase w i") (simp_all add: worker_step_def added_def)

lemma worker_step_phase:
  "w_phase (worker_step i r w) = (w_phase w)(i := w_phase (worker_step i r w) i)"
  by (auto simp: worker_step_def split: load_phase.split)

lemma worker_step_good:
  assumes "good_result r" "good_phase (w_phase w i)"
  shows "good_phase (w_phase (worker_step i r w) i)"
    "\<forall>r \<in> set (w_results w). good_result r \<Longrightarrow> \<forall>r \<in> set (w_results (worker_step i r w)). good_result r"
  using assms by (auto simp: worker_step_def good_phase_def split: load_phase.split)

lemma workload_inv_step:
  assumes "workload_inv n w" "i < n" "good_result r"
  shows "workload_inv n (worker_step i r w)"
proof -
  let ?w = "worker_step i r w"
  have inv: "counter_of k w = sum_list (map (amount k) (w_results w)) + (\<Sum>i<n. added k (w_phase w i))" for k
    using assms(1) by (simp add: workload_inv_def)
  have "(\<Sum>j<n. added k (w_phase ?w j)) = (\<Sum>j<n. added k (w_phase w j)) - added k (w_phase w i) + added k (w_phase ?w i)" for k
    by (subst worker_step_phase) (rule sum_fun_upd [OF assms(2)])
  then have "counter_of k ?w = sum_list (map (amount k) (w_results ?w)) + (\<Sum>i<n. added k (w_phase ?w i))" for k
    using worker_step_effect [of k i r w] inv [of k] by simp
  moreover have "good_phase (w_phase ?w j)" for j
    using worker_step_good(1) [OF assms(3), of w i] worker_step_phase [of i r w] assms(1)
    by (metis fun_upd_other workload_inv_def)
  ultimately show ?thesis
    using assms worker_step_good(2) [OF assms(3), of w i] by (simp add: workload_inv_def)
qed

lemma workload_reached_inv: "workload_reached n w \<Longrightarrow> workload_inv n w"
proof (induction rule: workload_reached.induct)
  case start
  show ?case by (simp add: workload_inv_def new_workload_def good_phase_def added_def all_counters)
next
  case (step w i since elapsed x)
  then show ?case by (intro workload_inv_step call_stream_good)
qed

lemma amount_sums:
  "sum_list (map (amount Requests) rs) = int (length rs)"
  "sum_list (map (amount Oks) rs) = int (length (filter r_ok rs))"
  "sum_list (map (amount Hits) rs) = int (length (filter r_cacheHit rs))"
  "sum_list (map (amount Tokens) rs) = sum_list (map r_tokens rs)"
  by (induction rs) auto

lemma amount_le:
  assumes "good_result r" shows "amount Hits r \<le> amount Oks r" "amount Oks r \<le> amount Requests r" "0 \<le> amount k r"
  using assms by (auto simp: good_result_def no_result_def) (cases k; auto)+

lemma added_le:
  assumes "good_phase p" shows "added Hits p \<le> added Oks p" "added Oks p \<le> added Requests p" "0 \<le> added k p"
proof -
  show "added Hits p \<le> added Oks p" "added Oks p \<le> added Requests p"
    using assms amount_le(1,2) by (cases p; simp add: added_def good_phase_def)+
  show "0 \<le> added k p"
    using assms amount_le(3) [of _ k] by (cases p) (simp_all add: added_def good_phase_def)
qed

lemma added_Calling [simp]: "added k Calling = 0"
  by (simp add: added_def)

text \<open>C26:
  The counters of the load generator, under every interleaving of its workers.  When no worker
  is between its call and its append, and so at the end of the run, the four counters are the
  number of results, of successes and of hits among them, and the sum of their tokens.  At
  every moment there are at most as many hits as successes and as successes as requests, and
  every result has been counted as a request.
\<close>

theorem workload_counts:
  assumes "workload_reached n w"
  shows "((\<forall>i<n. w_phase w i = Calling) \<longrightarrow>
      w_requests w = int (length (w_results w)) \<and> w_ok w = int (length (filter r_ok (w_results w)))
      \<and> w_cacheHits w = int (length (filter r_cacheHit (w_results w)))
      \<and> w_tokens w = sum_list (map r_tokens (w_results w)))
    \<and> w_cacheHits w \<le> w_ok w \<and> w_ok w \<le> w_requests w \<and> int (length (w_results w)) \<le> w_requests w"
proof -
  have inv: "workload_inv n w" using workload_reached_inv [OF assms] .
  have c: "counter_of k w = sum_list (map (amount k) (w_results w)) + (\<Sum>i<n. added k (w_phase w i))" for k
    using inv by (simp add: workload_inv_def)
  have idle: "(\<Sum>i<n. added k (w_phase w i)) = 0" if "\<forall>i<n. w_phase w i = Calling" for k
    using that by (simp add: added_def)
  have le: "counter_of j w \<le> counter_of k w"
    if "\<And>r. good_result r \<Longrightarrow> amount j r \<le> amount k r" "\<And>p. good_phase p \<Longrightarrow> added j p \<le> added k p" for j k
  proof -
    have "(\<Sum>i<n. added j (w_phase w i)) \<le> (\<Sum>i<n. added k (w_phase w i))"
      using that(2) inv by (intro sum_mono) (simp add: workload_inv_def)
    moreover have "sum_list (map (amount j) (w_results w)) \<le> sum_list (map (amount k) (w_results w))"
      using that(1) inv by (intro sum_list_mono) (simp add: workload_inv_def)
    ultimately show ?thesis unfolding c by simp
  qed
  have "0 \<le> (\<Sum>i<n. added Requests (w_phase w i))"
    using added_le(3) inv by (intro sum_nonneg) (simp add: workload_inv_def)
  then show ?thesis
    using c [of Requests] c [of Oks] c [of Hits] c [of Tokens] idle le [of Hits Oks] le [of Oks Requests]
      amount_le(1,2) added_le(1,2)
    by (simp add: amount_sums)
qed

definition demo_exchange :: load_exchange where
  "demo_exchange = LoadResponse 200 ''HIT''
     (''data: {\"choices\":[{\"delta\":{\"content\":\"two words\"}}]}'' @ [newline] @ ''data: [DONE]'' @ [newline])"

definition demo_workload :: workload where
  "demo_workload = (worker_step 0 (call_stream (\<lambda>_. 4000000) 9000000 demo_exchange) ^^ 12) new_workload"

lemma workload_counts_witness:
  "w_requests demo_workload = 2 \<and> w_ok demo_workload = 2 \<and> w_cacheHits demo_workload = 2 \<and> w_tokens demo_workload = 4"
proof -
  let ?r = "call_stream (\<lambda>_. 4000000) 9000000 demo_exchange"
  have "workload_reached 1 ((worker_step 0 ?r ^^ k) new_workload)" for k
  proof (induction k)
    case 0
    show ?case by (simp add: workload_reached.start)
  next
    case (Suc k)
    then show ?case using workload_reached.step [of 1 _ 0] by simp
  qed
  then have "workload_reached 1 demo_workload" by (simp add: demo_workload_def)
  note counts = workload_counts [OF this]
  have r: "?r = \<lparr>r_ok = True, r_cacheHit = True, r_ttftMs = 4, r_totalMs = 9, r_tokens = 2\<rparr>" by code_simp
  have "w_results demo_workload = [?r, ?r]" "w_phase demo_workload 0 = Calling"
    by (simp_all add: demo_workload_def numeral_eq_Suc worker_step_def new_workload_def)
  then show ?thesis using counts unfolding r by simp
qed

subsection \<open>Percentiles\<close>

lemma percentile_index:
  assumes "xs \<noteq> []" "0 \<le> p" "p \<le> 1" "length xs \<le> 2 ^ 53"
  shows "fl64 (of_int (int (length xs) - 1)) = of_int (int (length xs) - 1)"
    "0 \<le> \<lfloor>fl64 (of_int (int (length xs) - 1) * p)\<rfloor>"
    "\<lfloor>fl64 (of_int (int (length xs) - 1) * p)\<rfloor> \<le> int (length xs) - 1"
proof -
  let ?m = "int (length xs) - 1"
  have "1 \<le> length xs" using assms(1) by (simp add: Suc_leI)
  moreover have "int (length xs) \<le> 2 ^ 53" using assms(4) by simp
  ultimately have m: "0 \<le> ?m" "\<bar>?m\<bar> \<le> 2 ^ 53" by linarith+
  have "of_int ?m * p \<le> of_int ?m * 1" using assms(3) m(1) by (intro mult_left_mono) (simp_all only: of_int_0_le_iff)
  then have "fl64 (of_int ?m * p) \<le> of_int ?m" using f64.le_int [of "of_int ?m * p" ?m] m(2) by simp
  then show "\<lfloor>fl64 (of_int ?m * p)\<rfloor> \<le> ?m" using floor_mono floor_of_int by metis
  have "0 \<le> fl64 (of_int ?m * p)" using m(1) assms(2) by (intro f64.nonneg mult_nonneg_nonneg) (simp_all only: of_int_0_le_iff)
  then show "0 \<le> \<lfloor>fl64 (of_int ?m * p)\<rfloor>" by simp
  show "fl64 (of_int ?m) = of_int ?m" using f64.exact_int [of ?m] m(2) by simp
qed

lemma percentile_nth:
  assumes "xs \<noteq> []" "0 \<le> p" "p \<le> 1" "length xs \<le> 2 ^ 53"
  shows "percentile xs p = sort xs ! nat \<lfloor>fl64 (of_int (int (length xs) - 1) * p)\<rfloor>"
  using assms percentile_index(1) [OF assms] by (simp add: percentile_def)

lemma sorted_quantile:
  assumes "sorted s" "k < length s"
  shows "k < length (filter (\<lambda>x. x \<le> s ! k) s)" "length s - k \<le> length (filter (\<lambda>x. s ! k \<le> x) s)"
proof -
  have "\<forall>x \<in> set (take (Suc k) s). x \<le> s ! k"
    using sorted_nth_mono [OF assms(1) _ assms(2)] by (force simp: in_set_conv_nth)
  then have "filter (\<lambda>x. x \<le> s ! k) (take (Suc k) s) = take (Suc k) s" by (simp add: filter_id_conv)
  then have "length (filter (\<lambda>x. x \<le> s ! k) (take (Suc k) s @ drop (Suc k) s)) \<ge> Suc k"
    using assms(2) by (simp only: filter_append length_append) simp
  then show "k < length (filter (\<lambda>x. x \<le> s ! k) s)" by simp
  have "\<forall>x \<in> set (drop k s). s ! k \<le> x"
    using sorted_nth_mono [OF assms(1)] by (force simp: in_set_conv_nth)
  then have "filter (\<lambda>x. s ! k \<le> x) (drop k s) = drop k s" by (simp add: filter_id_conv)
  then have "length (filter (\<lambda>x. s ! k \<le> x) (take k s @ drop k s)) \<ge> length s - k"
    by (simp only: filter_append length_append) simp
  then show "length s - k \<le> length (filter (\<lambda>x. s ! k \<le> x) s)" by simp
qed

lemma length_filter_mset: "mset xs = mset ys \<Longrightarrow> length (filter P xs) = length (filter P ys)"
  by (metis mset_filter size_mset)

text \<open>C33:
  A percentile is one of the values, the one at the truncated index \<open>(n - 1) p\<close> in sorted
  order: more than that many values are at most as large, and all but that many are at least
  as large.  The index never leaves the list, rounding included; the result does not depend
  on the order of the values, and grows with \<open>p\<close>.
\<close>

theorem percentile_spec:
  assumes "xs \<noteq> []" "0 \<le> p" "p \<le> q" "q \<le> 1" "length xs \<le> 2 ^ 53"
  shows "\<exists>k < length xs. int k = \<lfloor>fl64 (of_int (int (length xs) - 1) * p)\<rfloor> \<and> percentile xs p \<in> set xs
    \<and> k < length (filter (\<lambda>x. x \<le> percentile xs p) xs)
    \<and> length xs - k \<le> length (filter (\<lambda>x. percentile xs p \<le> x) xs)
    \<and> percentile xs p \<le> percentile xs q
    \<and> (\<forall>ys. mset ys = mset xs \<longrightarrow> percentile ys p = percentile xs p)"
proof -
  have p: "0 \<le> p" "p \<le> 1" and q: "0 \<le> q" "q \<le> 1" using assms by simp_all
  define k where "k = nat \<lfloor>fl64 (of_int (int (length xs) - 1) * p)\<rfloor>"
  define l where "l = nat \<lfloor>fl64 (of_int (int (length xs) - 1) * q)\<rfloor>"
  note ip = percentile_index [OF assms(1) p assms(5)] and iq = percentile_index [OF assms(1) q assms(5)]
  have "fl64 (of_int (int (length xs) - 1) * p) \<le> fl64 (of_int (int (length xs) - 1) * q)"
    using assms by (intro f64.mono mult_left_mono) (simp_all add: Suc_leI)
  then have kl: "k \<le> l" unfolding k_def l_def by (intro nat_mono floor_mono)
  have k: "k < length xs" "int k = \<lfloor>fl64 (of_int (int (length xs) - 1) * p)\<rfloor>" and l: "l < length xs"
    using ip iq unfolding k_def l_def by linarith+
  have v: "percentile xs p = sort xs ! k" "percentile xs q = sort xs ! l"
    using percentile_nth assms p q unfolding k_def l_def by simp_all
  have "percentile ys p = percentile xs p" if "mset ys = mset xs" for ys
  proof -
    have "sort ys = sort xs" "length ys = length xs"
      using that by (metis properties_for_sort sorted_sort mset_sort, metis size_mset)
    then show ?thesis using assms(1) by (auto simp: percentile_def)
  qed
  moreover have "sort xs ! k \<le> sort xs ! l" using kl l by (intro sorted_nth_mono) simp_all
  moreover have "sort xs ! k \<in> set xs" using k(1) by (metis length_sort nth_mem set_sort)
  moreover have "length (filter P xs) = length (filter P (sort xs))" for P
    by (rule length_filter_mset) simp
  ultimately show ?thesis
    using sorted_quantile [of "sort xs" k] k unfolding v by (intro exI [of _ k]) simp
qed

lemma percentile_spec_witness:
  "percentile [30, 10, 20, 40] p50 = 20 \<and> percentile [30, 10, 20, 40] p50 \<le> percentile [30, 10, 20, 40] p95"
proof -
  have "percentile [30, 10, 20, 40] p50 \<le> percentile [30, 10, 20, 40] p95"
  proof -
    have "p50 \<le> p95" "p95 \<le> 1" by code_simp+
    then show ?thesis using percentile_spec [of "[30, 10, 20, 40]" p50 p95] by auto
  qed
  moreover have "percentile [30, 10, 20, 40] p50 = 20" by code_simp
  ultimately show ?thesis by simp
qed

end
