(* ===== verification/Go_Text.thy ===== *)
theory Go_Text
  imports Go_Json
begin

section \<open>Words and UTF-8\<close>

text \<open>
  How \<open>strings.Fields\<close> and UTF-8 go together: a field is one word, a field of a valid string is
  valid, and an ASCII byte separates what is valid on its two sides.
\<close>

subsection \<open>Words\<close>

text \<open>A word: not empty, and no white-space rune starts in it.\<close>

definition one_word :: "string \<Rightarrow> bool" where
  "one_word w \<longleftrightarrow> w \<noteq> [] \<and> (\<forall>u v. w = u @ v \<longrightarrow> space_len v = 0)"

lemma match_len_prefix:
  assumes "match_len ps (v @ s) = 0" "[] \<notin> set ps" shows "match_len ps v = 0"
proof -
  have "\<not> prefix p v" if "p \<in> set ps" for p
  proof
    assume "prefix p v"
    then have "prefix p (v @ s)" by (metis prefix_prefix)
    then have "find (\<lambda>p. prefix p (v @ s)) ps \<noteq> None" using that by (auto simp: find_None_iff)
    then obtain q where q: "find (\<lambda>p. prefix p (v @ s)) ps = Some q" by blast
    then have "q \<in> set ps" by (auto simp: find_Some_iff)
    then show False using q assms by (auto simp: match_len_def)
  qed
  then have "find (\<lambda>p. prefix p v) ps = None" by (auto simp: find_None_iff)
  then show ?thesis by (simp add: match_len_def)
qed

lemma space_seqs_nonempty: "[] \<notin> set space_seqs"
  by (simp add: space_seqs_def)

lemma space_len_prefix: "space_len (v @ s) = 0 \<Longrightarrow> space_len v = 0"
  using match_len_prefix space_seqs_nonempty by blast

lemma fields_from_words:
  assumes "\<forall>u v. cur = u @ v \<longrightarrow> v \<noteq> [] \<longrightarrow> space_len (v @ s) = 0" "w \<in> set (fields_from cur s)"
  shows "one_word w"
  using assms
proof (induction cur s rule: fields_from.induct)
  case (1 cur)
  then have "w = cur" "cur \<noteq> []" by (auto split: if_splits)
  then show ?case using 1(1) unfolding one_word_def by (metis append.right_neutral space_len_Nil)
next
  case (2 cur c s)
  show ?case
  proof (cases "space_len (c # s) = 0")
    case True
    have "space_len (v @ s) = 0" if v: "cur @ [c] = u @ v" "v \<noteq> []" for u v
    proof -
      obtain v' where v': "v = v' @ [c]" "cur = u @ v'" using v by (cases v rule: rev_cases) auto
      then show ?thesis using 2(4) True by (cases "v' = []") auto
    qed
    then show ?thesis using 2(1) [OF refl True] 2(5) True by simp
  next
    case False
    have "one_word cur" if "cur \<noteq> []"
      using 2(4) that space_len_prefix unfolding one_word_def by (metis space_len_Nil)
    then show ?thesis using 2(2) [OF refl False] 2(3) [OF refl False] 2(5) False
      by (cases "cur = []") auto
  qed
qed

lemma fields_words: "w \<in> set (Go_Strings.fields s) \<Longrightarrow> one_word w"
  using fields_from_words [of "[]" s w] by (simp add: Go_Strings.fields_def)

lemma fields_from_run:
  assumes "\<forall>u v. w = u @ v \<longrightarrow> v \<noteq> [] \<longrightarrow> space_len (v @ s) = 0"
  shows "fields_from cur (w @ s) = fields_from (cur @ w) s"
  using assms
proof (induction w arbitrary: cur)
  case (Cons c w)
  have "space_len (c # w @ s) = 0" using Cons.prems [rule_format, of "[]" "c # w"] by simp
  moreover have "\<forall>u v. w = u @ v \<longrightarrow> v \<noteq> [] \<longrightarrow> space_len (v @ s) = 0"
    using Cons.prems by (metis append_Cons)
  ultimately show ?case using Cons.IH [of "cur @ [c]"] by simp
qed simp

lemma fields_one_word: "one_word w \<Longrightarrow> Go_Strings.fields w = [w]"
  using fields_from_run [of w "[]" "[]"] by (simp add: one_word_def Go_Strings.fields_def)

lemma fields_blank [simp]: "Go_Strings.fields (CHR '' '' # s) = Go_Strings.fields s"
  by (simp add: Go_Strings.fields_def)

lemma plain_one_word: "plain_word w \<Longrightarrow> one_word w"
proof -
  assume w: "plain_word w"
  have "space_len v = 0" if "w = u @ v" for u v
    using that w by (cases v) (auto simp: plain_word_def)
  then show ?thesis using w by (simp add: one_word_def plain_word_def)
qed

text \<open>No white space starts in a word and ends after the blank that follows it.\<close>

lemma space_len_before_blank:
  assumes "space_len v = 0" "v \<noteq> []" shows "space_len (v @ CHR '' '' # s) = 0"
proof -
  have inner: "list_all (\<lambda>p. CHR '' '' \<notin> set (tl p)) space_seqs" by code_simp
  have "\<not> prefix p (v @ CHR '' '' # s)" if p: "p \<in> set space_seqs" for p
  proof
    assume "prefix p (v @ CHR '' '' # s)"
    then consider "prefix p v" | "\<exists>t. p = v @ CHR '' '' # t"
      by (auto simp: prefix_append prefix_Cons)
    then show False
    proof cases
      case 1
      then have "find (\<lambda>p. prefix p v) space_seqs \<noteq> None" using p by (auto simp: find_None_iff)
      then obtain q where q: "find (\<lambda>p. prefix p v) space_seqs = Some q" by blast
      then have "q \<in> set space_seqs" by (auto simp: find_Some_iff)
      then show False using q assms(1) space_seqs_nonempty by (auto simp: match_len_def)
    next
      case 2
      then have "CHR '' '' \<in> set (tl p)" using assms(2) by (cases v) auto
      then show False using inner p by (auto simp: list_all_iff)
    qed
  qed
  then have "find (\<lambda>p. prefix p (v @ CHR '' '' # s)) space_seqs = None" by (simp add: find_None_iff)
  then show ?thesis by (simp add: match_len_def)
qed

lemma fields_join: "\<forall>w \<in> set ws. one_word w \<Longrightarrow> Go_Strings.fields (join '' '' ws) = ws"
proof (induction "'' ''" ws rule: join.induct)
  case (3 w x ws)
  let ?r = "join '' '' (x # ws)"
  have w: "one_word w" using 3 by simp
  have "fields_from [] (w @ CHR '' '' # ?r) = fields_from ([] @ w) (CHR '' '' # ?r)"
    using w space_len_before_blank by (intro fields_from_run) (auto simp: one_word_def)
  then have "Go_Strings.fields (join '' '' (w # x # ws)) = w # Go_Strings.fields ?r"
    using w by (simp add: Go_Strings.fields_def one_word_def)
  then show ?case using 3 by simp
next
  case (2 w)
  then show ?case by (simp add: fields_one_word)
qed (simp add: Go_Strings.fields_def)

subsection \<open>Runes\<close>

lemma utf8_drop_rune: "whole_rune b \<Longrightarrow> is_utf8 (b @ s) \<Longrightarrow> is_utf8 s"
  using valid_utf8_rune [of b s] by simp

lemma utf8_whole_rune: "whole_rune b \<Longrightarrow> is_utf8 b"
  using valid_utf8_rune [of b "[]"] by simp

lemma space_runes: "p \<in> set space_seqs \<Longrightarrow> whole_rune p"
proof -
  have "list_all whole_rune space_seqs" unfolding whole_rune_def by code_simp
  then show "p \<in> set space_seqs \<Longrightarrow> whole_rune p" by (simp add: list_all_iff)
qed

text \<open>The bytes of a rune after the first are continuation bytes, so no white space starts there.\<close>

lemma tail_ranges_low: "tail_ranges b = Some rs \<Longrightarrow> \<forall>r \<in> set rs. 0x80 \<le> fst r \<and> snd r \<le> 0xBF"
  by (auto simp: tail_ranges_def split: if_splits)

lemma in_ranges_tail:
  "in_ranges rs s \<Longrightarrow> \<forall>r \<in> set rs. (0x80 :: nat) \<le> fst r \<and> snd r \<le> 0xBF \<Longrightarrow>
    \<forall>c \<in> set (take (length rs) s). (0x80 :: nat) \<le> of_char c \<and> of_char c \<le> (0xBF :: nat)"
  by (induction rs s rule: in_ranges.induct) fastforce+

lemma continuation_no_space: "(0x80 :: nat) \<le> of_char c \<Longrightarrow> of_char c \<le> (0xBF :: nat) \<Longrightarrow> \<not> space_lead c"
  by (auto simp: space_lead_def)

lemma rune_no_inner_space:
  assumes "whole_rune b" "b = u @ v" "u \<noteq> []" "v \<noteq> []" shows "space_len (v @ s) = 0"
proof -
  obtain c t where b: "b = c # t" using assms(1) by (cases b) (auto simp: whole_rune_def)
  obtain rs where rs: "tail_ranges (of_char c) = Some rs" "in_ranges rs t" "length rs = length t"
    using assms(1) by (auto simp: b whole_rune_def split: option.splits if_splits)
  obtain d w where v: "v = d # w" using assms(4) by (cases v) auto
  have "d \<in> set t" using assms(2,3) v b by (cases u) auto
  then have "\<not> space_lead d"
    using in_ranges_tail [OF rs(2) tail_ranges_low [OF rs(1)]] rs(3) continuation_no_space by auto
  then show ?thesis by (simp add: v)
qed

lemma fields_from_utf8:
  assumes "is_utf8 cur" "is_utf8 s" "w \<in> set (fields_from cur s)"
  shows "is_utf8 w"
  using assms
proof (induction "length s" arbitrary: cur s rule: less_induct)
  case less
  show ?case
  proof (cases s)
    case Nil
    then show ?thesis using less.prems by (auto split: if_splits)
  next
    case (Cons c t)
    show ?thesis
    proof (cases "space_len s = 0")
      case True
      define b where "b = take (rune_len s) s"
      define s' where "s' = drop (rune_len s) s"
      have r: "rune_len s \<noteq> 0" "is_utf8 s'"
        using utf8_rune [OF less.prems(2) [unfolded Cons]] unfolding s'_def Cons by blast+
      have s: "s = b @ s'" by (simp add: b_def s'_def)
      have b: "whole_rune b" unfolding b_def using whole_rune_take [OF r(1)] .
      have "space_len (v @ s') = 0" if "b = u @ v" "v \<noteq> []" for u v
        using that True s rune_no_inner_space [OF b that(1) _ that(2)] by (cases "u = []") auto
      then have "fields_from cur s = fields_from (cur @ b) s'" unfolding s by (intro fields_from_run) blast
      moreover have "length s' < length s" using b unfolding s whole_rune_def by simp
      ultimately show ?thesis
        using less.hyps [of s' "cur @ b"] less.prems(1,3) r(2) utf8_append utf8_whole_rune [OF b] by auto
    next
      case False
      then obtain p where p: "find (\<lambda>p. prefix p s) space_seqs = Some p" "space_len s = length p"
        by (auto simp: match_len_def split: option.splits)
      then have w: "whole_rune p" "prefix p s" using space_runes by (auto simp: find_Some_iff)
      then obtain s' where s: "s = p @ s'" by (auto simp: prefix_def)
      have d: "drop (space_len s) s = s'" by (subst p(2)) (simp add: s)
      have "is_utf8 s'" using utf8_drop_rune [OF w(1)] less.prems(2) unfolding s by blast
      moreover have "length s' < length s" using w(1) unfolding s whole_rune_def by simp
      moreover have "w = cur \<or> w \<in> set (fields_from [] s')"
        using less.prems(3) False d unfolding Cons by (auto simp: Let_def split: if_splits)
      ultimately show ?thesis using less.hyps [of s' "[]"] less.prems(1) by auto
    qed
  qed
qed

lemma fields_utf8: "is_utf8 s \<Longrightarrow> w \<in> set (Go_Strings.fields s) \<Longrightarrow> is_utf8 w"
  using fields_from_utf8 [of "[]" s w] by (simp add: Go_Strings.fields_def)

subsection \<open>Separators\<close>

lemma in_ranges_stop:
  "\<forall>r \<in> set rs. (0x80 :: nat) \<le> fst r \<Longrightarrow> of_char c < (0x80 :: nat) \<Longrightarrow> in_ranges rs (s @ c # t) = in_ranges rs s"
  by (induction rs s rule: in_ranges.induct) auto

lemma rune_len_stop: "of_char c < (0x80 :: nat) \<Longrightarrow> rune_len ((d # s) @ c # t) = rune_len (d # s)"
  using in_ranges_stop [OF tail_ranges_high] by (auto split: option.split)

lemma valid_utf8_separator:
  assumes "of_char c < (0x80 :: nat)"
  shows "valid_utf8 (s @ c # t) = valid_utf8 s @ c # valid_utf8 t"
proof (induction s rule: valid_utf8.induct)
  case (2 d s)
  let ?n = "rune_len (d # s)"
  have n: "rune_len ((d # s) @ c # t) = ?n" using rune_len_stop [OF assms] .
  show ?case
  proof (cases "?n = 0")
    case True
    then show ?thesis using 2(1) [OF refl True] n by (simp add: valid_utf8.simps(2) Let_def del: rune_len.simps)
  next
    case False
    have w: "whole_rune (take ?n (d # s))" using whole_rune_take [OF False] .
    have "(d # s) @ c # t = take ?n (d # s) @ drop ?n (d # s) @ c # t" by (metis append.assoc append_take_drop_id)
    then have "valid_utf8 ((d # s) @ c # t) = take ?n (d # s) @ valid_utf8 (drop ?n (d # s) @ c # t)"
      by (simp only: valid_utf8_rune [OF w])
    also have "\<dots> = (take ?n (d # s) @ valid_utf8 (drop ?n (d # s))) @ c # valid_utf8 t"
      using 2(2) [OF refl False] by simp
    also have "take ?n (d # s) @ valid_utf8 (drop ?n (d # s)) = valid_utf8 (d # s)"
      using valid_utf8_rune [OF w, of "drop ?n (d # s)"] by (simp only: append_take_drop_id)
    finally show ?thesis .
  qed
qed (simp add: assms)

lemma valid_utf8_join: "valid_utf8 (join '' '' ws) = join '' '' (map valid_utf8 ws)"
  by (induction "'' ''" ws rule: join.induct) (simp_all add: valid_utf8_separator)

end
