(* ===== verification/End_To_End.thy ===== *)
theory End_To_End
  imports Mock_Backend Load_Generator Gateway Go_Text
begin

section \<open>The programs together\<close>

text \<open>
  The load generator, the gateway and the mock backend, each as its own theory has it: the
  request that one writes and the others read, the stream of the mock backend through the
  proxy, and what the load generator makes of it.
\<close>

subsection \<open>Lines of a stream\<close>

lemma event_lines:
  assumes "newline \<notin> set p"
  shows "lines_of (event p @ rest) = (''data: '' @ p @ [newline]) # [newline] # lines_of rest"
proof -
  have "newline \<notin> set (''data: '' @ p)" using assms by (simp add: newline_def)
  then have "lines_of (event p @ rest) = ((''data: '' @ p) @ [newline]) # lines_of (newline # rest)"
    using lines_of_line [of "''data: '' @ p" "newline # rest"] by (simp add: event_def)
  then show ?thesis using lines_of_line [of "[]" rest] by simp
qed

text \<open>What the load generator counts in the lines before the sentinel.\<close>

fun counted_tokens :: "string list \<Rightarrow> int" where
  "counted_tokens [] = 0"
| "counted_tokens (l # ls) = (if done_line l then 0 else line_tokens l + counted_tokens ls)"

lemma read_lines_count: "fst (read_lines since i ls k ttft) = k + counted_tokens ls"
  by (induction ls arbitrary: i k ttft) (simp_all add: Let_def)

lemma count_object:
  assumes "printable (JObj kvs)" "first_content ''delta'' (marshal (JObj kvs)) = Some c"
  shows "counted_tokens (lines_of (event (marshal (JObj kvs)) @ rest))
    = int (length (Go_Strings.fields c)) + counted_tokens (lines_of rest)"
proof -
  obtain p where p: "marshal (JObj kvs) = CHR ''{'' # p @ ''}''" by simp
  have nl: "newline \<notin> set (marshal (JObj kvs))" using marshal_line [OF assms(1)] by (simp add: newline_def)
  let ?l = "''data: '' @ marshal (JObj kvs) @ [newline]"
  have t: "trim_space (drop 6 ?l) = marshal (JObj kvs)" using trim_object [of p] unfolding p by simp
  have "\<not> done_line ?l" using t unfolding done_line_def p by simp
  moreover have "line_tokens ?l = int (length (Go_Strings.fields c))"
    using t assms(2) unfolding line_tokens_def by simp
  moreover have "\<not> done_line [newline]" "line_tokens [newline] = 0"
    by (simp_all add: done_line_def line_tokens_def newline_def)
  ultimately show ?thesis unfolding event_lines [OF nl] by simp
qed

lemma count_done: "counted_tokens (lines_of (event ''[DONE]'' @ rest)) = 0"
proof -
  have "newline \<notin> set ''[DONE]''" by (simp add: newline_def)
  moreover have "done_line (''data: '' @ ''[DONE]'' @ [newline])" unfolding newline_def by code_simp
  ultimately show ?thesis using event_lines [of "''[DONE]''" rest] by simp
qed

subsection \<open>Chunks of the mock backend\<close>

lemma mock_names:
  "find_field [''message''] ''index'' = None" "find_field [''message''] ''message'' = Some ''message''"
  "find_field [''message''] ''finish_reason'' = None" "find_field [''choices''] ''usage'' = None"
  by code_simp+

text \<open>An object that the mock backend writes with one choice: its content comes back.\<close>

lemma printable_mock_chunk:
  "printable (mock_response_json \<lparr>ms_ID = ident, ms_Object = obj, ms_Created = created, ms_Model = model,
     ms_Choices = [\<lparr>mc_Message = None, mc_Delta = Some d, mc_FinishReason = reason\<rparr>], ms_Usage = None\<rparr>)"
  by (simp add: mock_response_json_def mock_choice_json_def message_json_def opt_member_def number_ok_show_int)

lemma mock_chunk_content:
  "first_content ''delta'' (marshal (mock_response_json
     \<lparr>ms_ID = ident, ms_Object = obj, ms_Created = created, ms_Model = model,
      ms_Choices = [\<lparr>mc_Message = None, mc_Delta = Some d, mc_FinishReason = reason\<rparr>], ms_Usage = None\<rparr>))
   = Some (valid_utf8 (mm_Content d))"
  (is "first_content _ (marshal ?v) = _")
proof -
  have "depth ?v \<le> max_nesting"
    by (simp add: mock_response_json_def mock_choice_json_def message_json_def opt_member_def max_nesting_def)
  then have "parse_document (marshal ?v) = Some (repair ?v)"
    using marshal_roundtrip [OF printable_mock_chunk] by blast
  then show ?thesis unfolding first_content_def
    by (simp add: mock_response_json_def mock_choice_json_def message_json_def opt_member_def decode_simps
          del: marshal.simps)
qed

lemma content_of_mock_chunk:
  "concat (map line_content (lines_of (mock_chunk ident created model d reason @ rest)))
     = valid_utf8 (mm_Content d) @ concat (map line_content (lines_of rest))"
  "counted_tokens (lines_of (mock_chunk ident created model d reason @ rest))
     = int (length (Go_Strings.fields (valid_utf8 (mm_Content d)))) + counted_tokens (lines_of rest)"
  using content_of_object [OF _ mock_chunk_content [unfolded mock_response_json_def]]
    count_object [OF _ mock_chunk_content [unfolded mock_response_json_def]]
    printable_mock_chunk [unfolded mock_response_json_def]
  unfolding mock_chunk_def mock_response_json_def by blast+

subsection \<open>Streams of the mock backend\<close>

lemma stream_tokens_calm:
  assumes "\<And>i. \<not> gone i"
  shows "stream_tokens chunk tail gone i ts = concat (map chunk (pieces i ts)) @ tail"
  using assms by (induction ts arbitrary: i) auto

lemma content_of_pieces:
  "concat (map line_content (lines_of (concat (map (\<lambda>s. mock_chunk ident created model (no_message\<lparr>mm_Content := s\<rparr>) []) ps) @ rest)))
     = concat (map valid_utf8 ps) @ concat (map line_content (lines_of rest))"
  by (induction ps) (simp_all add: content_of_mock_chunk)

lemma count_of_pieces:
  "counted_tokens (lines_of (concat (map (\<lambda>s. mock_chunk ident created model (no_message\<lparr>mm_Content := s\<rparr>) []) ps) @ rest))
     = int (\<Sum>s\<leftarrow>ps. length (Go_Strings.fields (valid_utf8 s))) + counted_tokens (lines_of rest)"
  by (induction ps) (simp_all add: content_of_mock_chunk)

lemma no_message_content [simp]: "mm_Content no_message = []"
  by (simp add: no_message_def)

lemma mock_stream_content:
  assumes "\<And>i. \<not> gone i"
  shows "concat (map line_content (lines_of (stream_response gone ident created model ts))) = join '' '' (map valid_utf8 ts)"
proof -
  have "concat (map line_content (lines_of (mock_chunk ident created model no_message ''stop'' @ event ''[DONE]''))) = []"
    by (simp add: content_of_mock_chunk content_of_done)
  then show ?thesis
    by (simp add: stream_response_def stream_tokens_calm [OF assms] content_of_mock_chunk content_of_pieces
        pieces_valid concat_pieces)
qed

lemma count_pieces:
  assumes "\<forall>t \<in> set ts. one_word t \<and> is_utf8 t"
  shows "(\<Sum>s\<leftarrow>pieces i ts. length (Go_Strings.fields (valid_utf8 s))) = length ts"
  using assms by (induction i ts rule: pieces.induct) (simp_all add: fields_one_word)

lemma mock_stream_count:
  assumes "\<And>i. \<not> gone i" "\<forall>t \<in> set ts. one_word t \<and> is_utf8 t"
  shows "counted_tokens (lines_of (stream_response gone ident created model ts)) = int (length ts)"
proof -
  have f: "Go_Strings.fields [] = []" by (simp add: Go_Strings.fields_def)
  have "counted_tokens (lines_of (mock_chunk ident created model no_message ''stop'' @ event ''[DONE]'')) = 0"
    using count_done [of "[]"] by (simp add: content_of_mock_chunk f)
  then show ?thesis
    by (simp add: stream_response_def stream_tokens_calm [OF assms(1)] content_of_mock_chunk count_of_pieces f
        count_pieces [OF assms(2)])
qed

lemma proxy_calm:
  assumes "\<And>i. ctx_err se i = None" "\<And>i. write_err se i = None" "read_end se = None"
  shows "s_err (stream_proxy se True body) = None" "sent (stream_proxy se True body) = body"
    "s_content (stream_proxy se True body) = concat (map line_content (lines_of body))"
proof -
  obtain k where k: "sent (stream_loop se 0 body [] []) = concat (take k (lines_of body))"
    "s_content (stream_loop se 0 body [] []) = concat (map line_content (take k (lines_of body)))"
    "length (lines_of body) \<le> k"
    using stream_loop_lines [of se 0 body "[]" "[]"] stream_loop_no_error [OF assms, of 0 body "[]" "[]"] by auto
  then show "s_err (stream_proxy se True body) = None" "sent (stream_proxy se True body) = body"
    "s_content (stream_proxy se True body) = concat (map line_content (lines_of body))"
    using stream_loop_no_error [OF assms] by (simp_all add: stream_proxy_def concat_lines)
qed

subsection \<open>The whole completion\<close>

lemma mock_completion_content:
  "extract_assistant_content (non_stream_response ident created model ts n) = valid_utf8 (join '' '' ts)"
proof -
  define v where "v = mock_response_json
       \<lparr>ms_ID = ident, ms_Object = ''chat.completion'', ms_Created = created, ms_Model = model,
        ms_Choices = [\<lparr>mc_Message = Some \<lparr>mm_Role = ''assistant'', mm_Content = join '' '' ts\<rparr>,
                       mc_Delta = None, mc_FinishReason = ''stop''\<rparr>],
        ms_Usage = Some \<lparr>PromptTokens = n, CompletionTokens = int (length ts), TotalTokens = n + int (length ts)\<rparr>\<rparr>"
  note d = v_def mock_response_json_def mock_choice_json_def message_json_def usage_json_def opt_member_def
  have "printable v" by (simp add: d number_ok_show_int)
  moreover have "depth v \<le> max_nesting" by (simp add: d max_nesting_def)
  ultimately have p: "parse_document (marshal v) = Some (repair v)" using marshal_roundtrip by blast
  have "first_content ''message'' (marshal v) = Some (valid_utf8 (join '' '' ts))"
    unfolding first_content_def p
    by (simp add: d decode_simps mock_names del: marshal.simps)
  moreover obtain q where q: "marshal v = CHR ''{'' # q @ ''}''" by (simp add: d)
  have "trim_space (marshal v @ [newline]) = marshal v" using trim_object [of q] unfolding q by simp
  ultimately show ?thesis
    unfolding extract_assistant_content_def non_stream_response_def v_def [symmetric] by simp
qed

text \<open>C13:
  The two forms of an answer agree: the content that the proxy gathers from the stream of the
  mock backend is the content that the handler reads off its reply in one piece, so both are
  cached as the same completion, and the client of the stream has the whole stream.
\<close>

theorem stream_and_reply_agree:
  assumes "\<And>i. ctx_err se i = None" "\<And>i. write_err se i = None" "read_end se = None" "\<And>i. \<not> gone i"
  shows "s_content (stream_proxy se True (stream_response gone ident created model ts))
      = extract_assistant_content (non_stream_response ident' created' model' ts n)
    \<and> sent (stream_proxy se True (stream_response gone ident created model ts)) = stream_response gone ident created model ts
    \<and> s_err (stream_proxy se True (stream_response gone ident created model ts)) = None"
  using proxy_calm [OF assms(1-3)] mock_stream_content [OF assms(4)]
  by (simp add: mock_completion_content valid_utf8_join)

lemma stream_and_reply_agree_witness:
  "s_content (stream_proxy calm True (stream_response (\<lambda>_. False) ''c'' 1 ''m'' [''a'', ''b''])) = ''a b''"
proof -
  have "valid_utf8 (join '' '' [''a'', ''b'']) = ''a b''" by code_simp
  then show ?thesis
    using stream_and_reply_agree [of calm "\<lambda>_. False" "''c''" 1 "''m''" "[''a'', ''b'']" "[]" 0 "[]" 0]
    by (simp add: calm_def mock_completion_content)
qed

subsection \<open>The request of the load generator\<close>

lemma request_names:
  "find_field [''model'', ''messages'', ''stream'', ''max_tokens''] ''model'' = Some ''model''"
  "find_field [''model'', ''messages'', ''stream'', ''max_tokens''] ''messages'' = Some ''messages''"
  "find_field [''model'', ''messages'', ''stream'', ''max_tokens''] ''stream'' = Some ''stream''"
  "find_field [''model'', ''messages'', ''stream'', ''max_tokens''] ''max_tokens'' = Some ''max_tokens''"
  "find_field [''model'', ''messages'', ''stream'', ''max_tokens'', ''temperature''] ''model'' = Some ''model''"
  "find_field [''model'', ''messages'', ''stream'', ''max_tokens'', ''temperature''] ''messages'' = Some ''messages''"
  "find_field [''model'', ''messages'', ''stream'', ''max_tokens'', ''temperature''] ''stream'' = Some ''stream''"
  "find_field [''model'', ''messages'', ''stream'', ''max_tokens'', ''temperature''] ''max_tokens'' = Some ''max_tokens''"
  "find_field [''role'', ''content''] ''role'' = Some ''role''"
  "find_field [''role'', ''content''] ''content'' = Some ''content''"
  by code_simp+

definition load_json :: "load_flags \<Rightarrow> string \<Rightarrow> json" where
  "load_json fl prompt =
     JObj [(''max_tokens'', JNum (show_int (lf_maxTokens fl))),
           (''messages'', JArr [JObj [(''content'', JStr prompt), (''role'', JStr ''user'')]]),
           (''model'', JStr (lf_model fl)), (''stream'', JBool True)]"

lemma parse_document_first: "parse_document s = Some v \<Longrightarrow> parse_first s = Some v"
  by (auto simp: parse_document_def parse_first_def split: option.splits if_splits)

lemma load_body_comes_back:
  "parse_document (load_body fl prompt) = Some (repair (load_json fl prompt))"
  "parse_first (load_body fl prompt) = Some (repair (load_json fl prompt))"
proof -
  have b: "load_body fl prompt = marshal (load_json fl prompt)" by (simp add: load_body_def load_json_def)
  have "printable (load_json fl prompt)" by (simp add: load_json_def number_ok_show_int)
  moreover have "depth (load_json fl prompt) \<le> max_nesting" by (simp add: load_json_def max_nesting_def)
  ultimately show "parse_document (load_body fl prompt) = Some (repair (load_json fl prompt))"
    unfolding b using marshal_roundtrip by blast
  then show "parse_first (load_body fl prompt) = Some (repair (load_json fl prompt))"
    by (rule parse_document_first)
qed

lemma load_request_read:
  assumes "int64 (lf_maxTokens fl)"
  shows "unmarshal_request (load_body fl prompt) = Some
      \<lparr>cr_Model = valid_utf8 (lf_model fl),
       cr_Messages = [\<lparr>cm_Role = ''user'', cm_Content = valid_utf8 prompt\<rparr>],
       cr_Stream = True, cr_MaxTokens = lf_maxTokens fl, cr_Temperature = 0\<rparr>"
    "decode_mock_request (load_body fl prompt) = Some
      \<lparr>mr_Model = valid_utf8 (lf_model fl),
       mr_Messages = [\<lparr>mm_Role = ''user'', mm_Content = valid_utf8 prompt\<rparr>],
       mr_Stream = True, mr_MaxTokens = lf_maxTokens fl\<rparr>"
proof -
  have u: "valid_utf8 ''user'' = ''user''" by code_simp
  note d = load_json_def decode_struct_def decode_slice_def at_field_def decode_string_def decode_bool_def decode_int_def
    request_names u atoi_show_int [OF assms]
  show "unmarshal_request (load_body fl prompt) = Some
      \<lparr>cr_Model = valid_utf8 (lf_model fl),
       cr_Messages = [\<lparr>cm_Role = ''user'', cm_Content = valid_utf8 prompt\<rparr>],
       cr_Stream = True, cr_MaxTokens = lf_maxTokens fl, cr_Temperature = 0\<rparr>"
    unfolding unmarshal_request_def load_body_comes_back
    by (simp add: d request_fields_def decode_message_def zero_message_def zero_request_def)
  show "decode_mock_request (load_body fl prompt) = Some
      \<lparr>mr_Model = valid_utf8 (lf_model fl),
       mr_Messages = [\<lparr>mm_Role = ''user'', mm_Content = valid_utf8 prompt\<rparr>],
       mr_Stream = True, mr_MaxTokens = lf_maxTokens fl\<rparr>"
    unfolding decode_mock_request_def load_body_comes_back
    by (simp add: d mock_request_fields_def decode_mock_message_def no_message_def)
qed

text \<open>C30:
  The request that the load generator writes is the request that the gateway and the mock
  backend read: the model, the one message of the user, the stream flag and the number of
  tokens, with bytes that are not UTF-8 replaced.  So both key the cache and echo the same text.
\<close>

theorem load_request_decodes:
  assumes "int64 (lf_maxTokens fl)"
  shows "\<exists>req mreq. unmarshal_request (load_body fl prompt) = Some req
    \<and> decode_mock_request (load_body fl prompt) = Some mreq
    \<and> cr_Model req = valid_utf8 (lf_model fl) \<and> mr_Model mreq = cr_Model req
    \<and> map (\<lambda>m. (cm_Role m, cm_Content m)) (cr_Messages req) = [(''user'', valid_utf8 prompt)]
    \<and> map (\<lambda>m. (mm_Role m, mm_Content m)) (mr_Messages mreq) = [(''user'', valid_utf8 prompt)]
    \<and> cr_Stream req \<and> mr_Stream mreq
    \<and> cr_MaxTokens req = lf_maxTokens fl \<and> mr_MaxTokens mreq = lf_maxTokens fl
    \<and> flatten_prompt (cr_Messages req) = trim_space (''user: '' @ valid_utf8 prompt @ [newline])"
  using load_request_read [OF assms, of prompt] by (simp add: flatten_prompt_def)

subsection \<open>A run through all of them\<close>

lemma vocab_words: "t \<in> set (''Answer:'' # vocab) \<Longrightarrow> one_word t \<and> is_utf8 t"
proof -
  have "list_all (\<lambda>t. plain_word t \<and> is_utf8 t) (''Answer:'' # vocab)" by code_simp
  then show "t \<in> set (''Answer:'' # vocab) \<Longrightarrow> one_word t \<and> is_utf8 t"
    using plain_one_word by (auto simp: list_all_iff simp del: set_simps)
qed

text \<open>Every token that the mock backend makes up is one word of valid UTF-8.\<close>

lemma built_tokens_words:
  assumes "build_tokens draw msgs n = Some ts" "\<And>i. draw i < length vocab" "\<forall>m \<in> set msgs. is_utf8 (mm_Content m)"
  shows "\<forall>t \<in> set ts. one_word t \<and> is_utf8 t"
proof -
  let ?ws = "Go_Strings.fields (last_user (rev msgs))"
  have "is_utf8 (last_user rms)" if "\<forall>m \<in> set rms. is_utf8 (mm_Content m)" for rms
    using that by (induction rms) auto
  then have v: "is_utf8 (last_user (rev msgs))" using assms(3) by simp
  have w: "one_word t \<and> is_utf8 t" if "t \<in> set ?ws" for t
    using fields_words [OF that] fields_utf8 [OF v that] by simp
  have "set ts \<subseteq> insert ''Answer:'' (set ?ws) \<union> set vocab"
    using assms(1,2) unfolding build_tokens_def pad_tokens_eq
    by (auto simp: Let_def split: if_splits dest!: in_set_takeD in_set_dropD)
  then show ?thesis using w vocab_words by auto
qed

lemma build_tokens_length:
  assumes "0 \<le> n" obtains ts where "build_tokens draw msgs n = Some ts" "length ts = nat n"
proof -
  have l: "length (take (nat n) (pad_tokens (nat n - length out) draw out)) = nat n" for out
    unfolding pad_tokens_eq by (simp del: upt_Suc)
  have "\<exists>out. build_tokens draw msgs n = Some (take (nat n) (pad_tokens (nat n - length out) draw out))"
    unfolding build_tokens_def Let_def by (subst if_not_P) (use assms in simp, rule exI, rule refl)
  then show thesis using that l by blast
qed

text \<open>The replay of a completion, as the load generator counts it.\<close>

lemma count_of_chunks:
  "counted_tokens (lines_of (concat (map (\<lambda>d. event (marshal (chunk_json cid created model d))) ds) @ rest))
     = int (\<Sum>d\<leftarrow>ds. length (Go_Strings.fields (valid_utf8 (delta_text d)))) + counted_tokens (lines_of rest)"
proof (induction ds)
  case (Cons d ds)
  have "counted_tokens (lines_of (event (marshal (chunk_json cid created model d)) @ r))
      = int (length (Go_Strings.fields (valid_utf8 (delta_text d)))) + counted_tokens (lines_of r)" for r
    using count_object [OF _ chunk_content [of cid created model d, unfolded chunk_json_def], of r]
      printable_chunk [of cid created model d] unfolding chunk_json_def by blast
  then show ?case using Cons by simp
qed simp

lemma replay_count:
  assumes "\<And>i. ctx_err env i = None" "\<And>i. write_err env i = None" "\<forall>t \<in> set ts. one_word t \<and> is_utf8 t"
  shows "counted_tokens (lines_of (fst (replay_cached_stream env True t1 t2 model (join '' '' ts)))) = int (length ts)"
proof -
  have f: "Go_Strings.fields (join '' '' ts) = ts" using assms(3) by (intro fields_join) simp
  have e: "Go_Strings.fields [] = []" by (simp add: Go_Strings.fields_def)
  have "(\<Sum>s\<leftarrow>pieces 0 ts. length (Go_Strings.fields (valid_utf8 s))) = length ts" by (rule count_pieces [OF assms(3)])
  then show ?thesis
    using count_done [of "[]"]
    by (simp only: replay_calm [OF assms(1,2)] fst_conv count_of_chunks f) (simp add: delta_text_def e comp_def)
qed

lemma counted_call:
  "r_ok (call_stream since elapsed (LoadResponse 200 cached body))"
  "r_tokens (call_stream since elapsed (LoadResponse 200 cached body)) = counted_tokens (lines_of body)"
  using read_lines_count [of since 0 "lines_of body" 0 0]
  by (auto simp: call_stream_def go_quot_def split: prod.split)

text \<open>C4:
  A call of the load generator, from its flags to its result: the mock backend reads the
  request, makes up as many tokens as it asks for and streams them, the proxy passes the
  stream on and gathers the completion, and the load generator counts exactly the tokens it
  asked for.  The same completion replayed from the cache is counted the same.
\<close>

theorem load_end_to_end:
  assumes "0 < lf_maxTokens fl" "int64 (lf_maxTokens fl)"
    and "me_method env = ''POST''" "me_body env = load_body fl prompt" "me_flusher env"
    and "\<And>i. \<not> me_gone env i" "\<And>i. me_tokens env i < length vocab" "failure_rate flm = 0"
    and "\<And>i. ctx_err se i = None" "\<And>i. write_err se i = None" "read_end se = None"
  shows "\<exists>body ts. mock_handle flm env = MockStream body \<and> length ts = nat (lf_maxTokens fl)
    \<and> s_content (stream_proxy se True body) = join '' '' ts
    \<and> r_ok (call_stream since elapsed (LoadResponse 200 cached (sent (stream_proxy se True body))))
    \<and> r_tokens (call_stream since elapsed (LoadResponse 200 cached (sent (stream_proxy se True body)))) = lf_maxTokens fl
    \<and> r_tokens (call_stream since elapsed (LoadResponse 200 ''HIT''
        (fst (replay_cached_stream se True t1 t2 model (s_content (stream_proxy se True body)))))) = lf_maxTokens fl"
proof -
  have u: "is_utf8 (valid_utf8 prompt)" by (rule valid_utf8_idem)
  define msgs where "msgs = [\<lparr>mm_Role = ''user'', mm_Content = valid_utf8 prompt\<rparr>]"
  define mdl where "mdl = (if valid_utf8 (lf_model fl) = [] then ''mock-llm'' else valid_utf8 (lf_model fl))"
  define ident where "ident = ''chatcmpl-'' @ backend_name flm @ ''-'' @ show_int (me_nano env)"
  obtain ts where ts: "build_tokens (me_tokens env) msgs (lf_maxTokens fl) = Some ts" "length ts = nat (lf_maxTokens fl)"
    using build_tokens_length assms(1) by (metis less_imp_le)
  have w: "\<forall>t \<in> set ts. one_word t \<and> is_utf8 t"
    using built_tokens_words [OF ts(1) assms(7)] u by (simp add: msgs_def)
  let ?body = "stream_response (me_gone env) ident (unix (me_created env)) mdl ts"
  have "mock_handle flm env = MockStream ?body"
    using assms(1,3-5,8) ts(1) load_request_read [OF assms(2), of prompt]
    by (simp add: mock_handle_def Let_def msgs_def mdl_def ident_def)
  moreover have "map valid_utf8 ts = ts" using w by (simp add: map_idI)
  then have "s_content (stream_proxy se True ?body) = join '' '' ts"
    using proxy_calm(3) [OF assms(9-11)] mock_stream_content [OF assms(6)] by simp
  moreover have "sent (stream_proxy se True ?body) = ?body" using proxy_calm(2) [OF assms(9-11)] .
  ultimately show ?thesis
    using ts(2) assms(1) counted_call mock_stream_count [OF assms(6) w] replay_count [OF assms(9,10) w]
    by (intro exI [of _ ?body] exI [of _ ts]) simp
qed

definition demo_load_flags :: load_flags where
  "demo_load_flags = \<lparr>lf_concurrency = 16, lf_duration_text = ''30s'', lf_maxTokens = 40, lf_repeatRate = fl64 (6/10),
     lf_model = ''mock-llm'', lf_apiKey = ''sk-velo-dev'', lf_url = ''http://localhost:8080''\<rparr>"

definition demo_mock_env :: "string \<Rightarrow> mock_env" where
  "demo_mock_env prompt = \<lparr>me_method = ''POST'', me_draw = 0, me_body = load_body demo_load_flags prompt, me_bad_text = [],
     me_tokens = (\<lambda>i. i mod 5), me_nano = 7, me_created = 9, me_flusher = True, me_gone = (\<lambda>_. False)\<rparr>"

lemma load_request_decodes_witness:
  "\<exists>req. unmarshal_request (load_body demo_load_flags ''hi'') = Some req
     \<and> cr_MaxTokens req = 40 \<and> flatten_prompt (cr_Messages req) = ''user: hi''"
proof -
  have "int64 (lf_maxTokens demo_load_flags)" by (simp add: demo_load_flags_def int64_def)
  moreover have "valid_utf8 ''hi'' = ''hi''" "trim_space (''user: '' @ ''hi'' @ [newline]) = ''user: hi''"
    unfolding newline_def by code_simp+
  ultimately show ?thesis
    using load_request_decodes [of demo_load_flags "''hi''"] by (auto simp: demo_load_flags_def)
qed

lemma load_end_to_end_witness:
  "\<exists>body. mock_handle \<lparr>default_tokens = 32, failure_rate = 0, backend_name = ''mock''\<rparr> (demo_mock_env ''hi'') = MockStream body
     \<and> r_tokens (call_stream (\<lambda>_. 1) 2 (LoadResponse 200 [] (sent (stream_proxy calm True body)))) = 40"
proof -
  have "0 < lf_maxTokens demo_load_flags" "int64 (lf_maxTokens demo_load_flags)" "lf_maxTokens demo_load_flags = 40"
    by (simp_all add: demo_load_flags_def int64_def)
  moreover have "me_tokens (demo_mock_env ''hi'') i < length vocab" for i
  proof -
    have "i mod 5 < 5" by simp
    then show ?thesis by (simp add: demo_mock_env_def vocab_def)
  qed
  ultimately show ?thesis
    using load_end_to_end [of demo_load_flags "demo_mock_env ''hi''" "''hi''"
        "\<lparr>default_tokens = 32, failure_rate = 0, backend_name = ''mock''\<rparr>" calm "\<lambda>_. 1" 2 "[]" 0 0 "[]"]
    by (auto simp: demo_mock_env_def calm_def)
qed

end
