(* ===== verification/Metrics.thy ===== *)
theory Metrics
  imports Go_Prelude Go_Float
begin

section \<open>Metrics\<close>














subsection \<open>What the library checks\<close>







end
