(* ===== verification/Health.thy ===== *)
theory Health
  imports Router
begin

section \<open>The health loop\<close>

text \<open>
  The goroutines of \<open>health.go\<close>: the loop that \<open>New\<close> starts, the probes that \<open>checkAll\<close>
  starts, one for each backend and tick, and \<open>Close\<close>.  \<open>Router\<close> takes a probe as one step;
  here \<open>recordHealth\<close> is cut where another goroutine may come in between: at the critical
  section of the backend's mutex, the read of \<open>b.failures\<close> after it, each access of the
  atomic \<open>healthy\<close> and each call of a metric.  Reads and writes of memory are in the order of
  the steps; requests come in through \<open>markFailure\<close> and \<open>markSuccess\<close>.
\<close>

subsection \<open>The steps of a probe\<close>

text \<open>Where a probe stands: what it does in its next step.\<close>

datatype probe_pc =
    Waiting
  | AddFailure | ReadFailures | LoadForDown | StoreDown | GaugeDown | CountDown
  | Reset | LoadForUp | StoreUp | GaugeUp
  | Finished

text \<open>\<open>checkOne\<close> up to its call of \<open>recordHealth\<close>.\<close>

definition probe_answer :: "exchange \<Rightarrow> probe_pc" where
  "probe_answer x =
     (case x of
        BadRequest _ \<Rightarrow> AddFailure
      | ClientError _ \<Rightarrow> AddFailure
      | Answer code _ \<Rightarrow> if go_quot code 100 = 2 then Reset else AddFailure)"

text \<open>\<open>recordHealth\<close> for the backend \<open>i\<close>.\<close>

fun record_step :: "nat \<Rightarrow> probe_pc \<Rightarrow> router \<Rightarrow> probe_pc \<times> router" where
  "record_step i Reset r = (LoadForUp, upd_backend i (\<lambda>b. b\<lparr>failures := 0\<rparr>) r)"
| "record_step i LoadForUp r = (if \<not> healthy (backends r ! i) then StoreUp else GaugeUp, r)"
| "record_step i StoreUp r = (GaugeUp, upd_backend i (\<lambda>b. b\<lparr>healthy := True\<rparr>) r)"
| "record_step i GaugeUp r = (Finished, set_up (Name (backends r ! i)) 1 r)"
| "record_step i AddFailure r = (ReadFailures, upd_backend i (\<lambda>b. b\<lparr>failures := failures b + 1\<rparr>) r)"
| "record_step i ReadFailures r =
     (if failures (backends r ! i) \<ge> FailureThreshold (r_cfg r) then LoadForDown else Finished, r)"
| "record_step i LoadForDown r = (if healthy (backends r ! i) then StoreDown else Finished, r)"
| "record_step i StoreDown r = (GaugeDown, upd_backend i (\<lambda>b. b\<lparr>healthy := False\<rparr>) r)"
| "record_step i GaugeDown r = (CountDown, set_up (Name (backends r ! i)) 0 r)"
| "record_step i CountDown r = (Finished, count_error (Name (backends r ! i)) ''unhealthy'' r)"
| "record_step i Waiting r = (Waiting, r)"
| "record_step i Finished r = (Finished, r)"

text \<open>The steps that a probe has left at most.\<close>

fun steps_left :: "probe_pc \<Rightarrow> nat" where
  "steps_left Waiting = 7"
| "steps_left AddFailure = 6"
| "steps_left ReadFailures = 5"
| "steps_left LoadForDown = 4"
| "steps_left StoreDown = 3"
| "steps_left GaugeDown = 2"
| "steps_left CountDown = 1"
| "steps_left Reset = 4"
| "steps_left LoadForUp = 3"
| "steps_left StoreUp = 2"
| "steps_left GaugeUp = 1"
| "steps_left Finished = 0"

subsection \<open>The loop\<close>

text \<open>
  The loop, before \<open>NewTicker\<close>, at its \<open>select\<close>, or returned; the tick that waits in the
  ticker's channel; the channel \<open>r.stop\<close> and the context that its goroutine cancels; the
  probes started so far, each with its backend; how many gauges \<open>New\<close> has set, which it does
  while the loop may already run.
\<close>

datatype loop_pc = Starting | AtSelect | Returned

record health_loop =
  hl_router :: router
  hl_gauges :: nat
  hl_pc :: loop_pc
  hl_tick :: bool
  hl_stop :: bool
  hl_done :: bool
  hl_panic :: bool
  hl_probes :: "(nat \<times> probe_pc) list"

definition start_health :: "router_config \<Rightarrow> string + health_loop" where
  "start_health cfg =
     (case new_router cfg of
        Inl e \<Rightarrow> Inl e
      | Inr r \<Rightarrow> Inr \<lparr>hl_router = r\<lparr>BackendUp := (\<lambda>_. None)\<rparr>, hl_gauges = 0, hl_pc = Starting,
                     hl_tick = False, hl_stop = False, hl_done = False, hl_panic = False, hl_probes = []\<rparr>)"

definition check_all :: "health_loop \<Rightarrow> health_loop" where
  "check_all s = s\<lparr>hl_probes := hl_probes s @ map (\<lambda>i. (i, Waiting)) [0..<length (backends (hl_router s))]\<rparr>"

text \<open>\<open>Close\<close>: closing a closed channel panics.\<close>

definition close_router :: "health_loop \<Rightarrow> health_loop" where
  "close_router s = (if hl_stop s then s\<lparr>hl_panic := True\<rparr> else s\<lparr>hl_stop := True\<rparr>)"

datatype health_move =
    SetGauge
  | Begin
  | Fires
  | TickCase
  | DoneCase
  | CloseCall
  | CancelCall
  | Answered nat exchange
  | ProbeStep nat
  | RequestFailed nat time
  | RequestServed nat

text \<open>
  One step of one goroutine: \<open>New\<close>, the loop, the ticker, the caller of \<open>Close\<close>, the goroutine
  that cancels the context, a probe, a request.  \<open>NewTicker\<close> panics for an interval that is not
  positive.  The channel of the ticker holds one tick.
\<close>

fun health_exec :: "health_move \<Rightarrow> health_loop \<Rightarrow> health_loop option" where
  "health_exec SetGauge s =
     (if hl_gauges s < length (backends (hl_router s))
      then Some (s\<lparr>hl_router := set_up (Name (backends (hl_router s) ! hl_gauges s)) 1 (hl_router s),
                   hl_gauges := Suc (hl_gauges s)\<rparr>)
      else None)"
| "health_exec Begin s =
     (if hl_pc s \<noteq> Starting then None
      else if HealthInterval (r_cfg (hl_router s)) \<le> 0 then Some (s\<lparr>hl_panic := True\<rparr>)
      else Some (check_all (s\<lparr>hl_pc := AtSelect\<rparr>)))"
| "health_exec Fires s = (if hl_pc s = AtSelect then Some (s\<lparr>hl_tick := True\<rparr>) else None)"
| "health_exec TickCase s =
     (if hl_pc s = AtSelect \<and> hl_tick s then Some (check_all (s\<lparr>hl_tick := False\<rparr>)) else None)"
| "health_exec DoneCase s =
     (if hl_pc s = AtSelect \<and> hl_done s then Some (s\<lparr>hl_pc := Returned\<rparr>) else None)"
| "health_exec CloseCall s = Some (close_router s)"
| "health_exec CancelCall s = (if hl_stop s \<and> \<not> hl_done s then Some (s\<lparr>hl_done := True\<rparr>) else None)"
| "health_exec (Answered k x) s =
     (if k < length (hl_probes s) \<and> snd (hl_probes s ! k) = Waiting
      then Some (s\<lparr>hl_probes := (hl_probes s)[k := (fst (hl_probes s ! k), probe_answer x)]\<rparr>)
      else None)"
| "health_exec (ProbeStep k) s =
     (if k < length (hl_probes s) \<and> snd (hl_probes s ! k) \<notin> {Waiting, Finished}
      then let (i, pc) = hl_probes s ! k; (pc', r) = record_step i pc (hl_router s)
           in Some (s\<lparr>hl_router := r, hl_probes := (hl_probes s)[k := (i, pc')]\<rparr>)
      else None)"
| "health_exec (RequestFailed i t) s =
     (if i < length (backends (hl_router s))
      then Some (s\<lparr>hl_router := upd_backend i (mark_failure t) (hl_router s)\<rparr>) else None)"
| "health_exec (RequestServed i) s =
     (if i < length (backends (hl_router s))
      then Some (s\<lparr>hl_router := upd_backend i mark_success (hl_router s)\<rparr>) else None)"

text \<open>A run; nothing runs after a panic.\<close>

fun health_moves :: "health_move list \<Rightarrow> health_loop \<Rightarrow> health_loop option" where
  "health_moves [] s = Some s"
| "health_moves (m # ms) s =
     (if hl_panic s then None
      else case health_exec m s of None \<Rightarrow> None | Some s' \<Rightarrow> health_moves ms s')"


interpretation hl: runs health_exec hl_panic health_moves
  by unfold_locales (auto split: option.splits)

subsection \<open>What the steps keep\<close>

text \<open>The backends of the probes; a tick adds one probe for every backend.\<close>

abbreviation probed :: "health_loop \<Rightarrow> nat list" where
  "probed s \<equiv> map fst (hl_probes s)"

definition probes_ok :: "health_loop \<Rightarrow> bool" where
  "probes_ok s \<longleftrightarrow> (\<forall>i \<in> set (probed s). i < length (backends (hl_router s)))"

lemma probes_okD: "probes_ok s \<Longrightarrow> k < length (hl_probes s) \<Longrightarrow> fst (hl_probes s ! k) < length (backends (hl_router s))"
  by (simp add: probes_ok_def)

lemma map_fst_update: "fst (xs ! k) = i \<Longrightarrow> map fst (xs[k := (i, y)]) = map fst xs"
  by (cases "k < length xs") (auto simp: map_update list_update_same_conv list_update_beyond)

lemma static_record_step: "record_step i pc r = (pc', r') \<Longrightarrow> static r' = static r"
  by (induction i pc r rule: record_step.induct) (auto simp: static_upd_backend)

lemma steps_left_record_step:
  "record_step i pc r = (pc', r') \<Longrightarrow> pc \<noteq> Waiting \<Longrightarrow> pc \<noteq> Finished \<Longrightarrow> steps_left pc' < steps_left pc"
  by (induction i pc r rule: record_step.induct) (auto split: if_splits)

lemma health_exec_static: "health_exec m s = Some s' \<Longrightarrow> static (hl_router s') = static (hl_router s)"
  by (cases m)
    (auto simp: check_all_def close_router_def Let_def dest!: static_record_step split: if_splits prod.splits)

lemma health_exec_probed:
  assumes "health_exec m s = Some s'" "\<not> hl_panic s"
  shows "probed s' = probed s @ (if hl_panic s' \<or> m \<notin> {Begin, TickCase} then [] else [0..<length (backends (hl_router s))])"
  using assms
  by (cases m) (auto simp: check_all_def close_router_def Let_def map_fst_update comp_def
      split: if_splits prod.splits)

lemma health_exec_probes: "health_exec m s = Some s' \<Longrightarrow> probes_ok s \<Longrightarrow> probes_ok s'"
proof -
  assume m: "health_exec m s = Some s'" and ok: "probes_ok s"
  have "set (probed s') \<subseteq> set (probed s) \<union> {..<length (backends (hl_router s))}"
    using m by (cases m) (auto simp: check_all_def close_router_def Let_def map_fst_update comp_def simp del: set_map
        split: if_splits prod.splits)
  then show "probes_ok s'"
    using ok staticD(2) [OF health_exec_static [OF m]] by (auto simp: probes_ok_def simp del: set_map)
qed

subsection \<open>When a backend goes down\<close>

text \<open>The backend \<open>i\<close> is down, or a probe has found its failures at the threshold.\<close>

definition going_down :: "nat \<Rightarrow> health_loop \<Rightarrow> bool" where
  "going_down i s \<longleftrightarrow> \<not> healthy (backends (hl_router s) ! i)
     \<or> (i, LoadForDown) \<in> set (hl_probes s) \<or> (i, StoreDown) \<in> set (hl_probes s)"

definition at_threshold :: "nat \<Rightarrow> health_loop \<Rightarrow> bool" where
  "at_threshold i s \<longleftrightarrow> FailureThreshold (r_cfg (hl_router s)) \<le> failures (backends (hl_router s) ! i)"

lemma in_set_update: "x \<in> set (xs[k := y]) \<Longrightarrow> x = y \<or> x \<in> set xs"
  using set_update_subset_insert [of xs k y] by blast

lemma record_step_down:
  assumes "record_step j pc r = (pc', r')" "j < length (backends r)" "i < length (backends r)"
  shows "\<not> healthy (backends r' ! i) \<Longrightarrow> \<not> healthy (backends r ! i) \<or> i = j \<and> pc = StoreDown"
    and "pc' = StoreDown \<Longrightarrow> pc = LoadForDown"
    and "pc' = LoadForDown \<Longrightarrow> pc = ReadFailures \<and> FailureThreshold (r_cfg r) \<le> failures (backends r ! j)"
  by (use assms in \<open>cases pc; auto split: if_splits\<close>)+

lemma probe_answer_ok: "probe_answer x = (if probe_ok x then Reset else AddFailure)"
  by (cases x) (auto simp: probe_answer_def probe_ok_def go_quot_2xx)

lemma going_down_step:
  assumes "health_exec m s = Some s'" "probes_ok s" "i < length (backends (hl_router s))" "going_down i s'"
  shows "going_down i s \<or> at_threshold i s"
proof (cases m)
  case (ProbeStep k)
  obtain j pc where p: "hl_probes s ! k = (j, pc)" by (cases "hl_probes s ! k")
  obtain pc' r' where q: "record_step j pc (hl_router s) = (pc', r')"
    by (cases "record_step j pc (hl_router s)")
  have k: "k < length (hl_probes s)" and s': "s' = s\<lparr>hl_router := r', hl_probes := (hl_probes s)[k := (j, pc')]\<rparr>"
    using assms(1) ProbeStep p q by (auto split: if_splits)
  have j: "j < length (backends (hl_router s))" "(j, pc) \<in> set (hl_probes s)"
    using probes_okD [OF assms(2) k] p nth_mem [OF k] by simp_all
  show ?thesis
    using assms(4) record_step_down [OF q j(1) assms(3)] j(2) s'
    by (auto simp: going_down_def at_threshold_def dest!: in_set_update)
next
  case (Answered k x)
  then show ?thesis
    using assms(1,4) probe_answer_ok [of x]
    by (auto simp: going_down_def split: if_splits dest!: in_set_update)
qed (use assms in \<open>auto simp: going_down_def check_all_def close_router_def mark_failure_def mark_success_def
       split: if_splits\<close>)

lemma start_health_fresh:
  assumes "start_health cfg = Inr s"
  shows "r_cfg (hl_router s) = cfg" "probes_ok s" "\<not> hl_panic s" "hl_pc s = Starting"
    "i < length (backends (hl_router s)) \<Longrightarrow> \<not> going_down i s"
proof -
  have *: "r_cfg (fold (\<lambda>b. set_up (Name b) 1) bs r) = r_cfg r \<and> backends (fold (\<lambda>b. set_up (Name b) 1) bs r) = backends r"
    for bs and r :: router by (induction bs arbitrary: r) simp_all
  show "r_cfg (hl_router s) = cfg" "probes_ok s" "\<not> hl_panic s" "hl_pc s = Starting"
    "i < length (backends (hl_router s)) \<Longrightarrow> \<not> going_down i s"
    using assms by (auto simp: start_health_def new_router_def Let_def * probes_ok_def going_down_def new_backend_def
        split: if_splits)
qed

text \<open>C9:
  A backend is marked down only for cause: in every interleaving of ticks, probes, requests and
  \<open>Close\<close>, if a backend is unhealthy then at some earlier moment of the run its count of
  failures was at \<open>FailureThreshold\<close> or above.
\<close>

theorem down_only_at_threshold:
  assumes "start_health cfg = Inr s0" "health_moves ms s0 = Some s"
    and "i < length (backends (hl_router s))" "\<not> healthy (backends (hl_router s) ! i)"
  shows "\<exists>n < length ms. \<exists>t. health_moves (take n ms) s0 = Some t
    \<and> FailureThreshold cfg \<le> failures (backends (hl_router t) ! i)"
proof -
  have keep: "static (hl_router t) = static (hl_router s0)" if "health_moves es s0 = Some t" for es t
    using hl.keeps [of es s0 t "\<lambda>u. static (hl_router u) = static (hl_router s0)"] that health_exec_static by metis
  have i: "i < length (backends (hl_router s0))" using staticD(2) [OF keep [OF assms(2)]] assms(3) by simp
  have "\<exists>n < length ms. \<exists>t. health_moves (take n ms) s0 = Some t \<and> at_threshold i t"
  proof (rule hl.first_cause [where Bad = "going_down i" and
        Inv = "\<lambda>u. probes_ok u \<and> static (hl_router u) = static (hl_router s0)"])
    show "going_down i s" using assms(4) by (simp add: going_down_def)
    show "\<not> going_down i s0" "probes_ok s0 \<and> static (hl_router s0) = static (hl_router s0)"
      using start_health_fresh [OF assms(1)] i by simp_all
    fix u m u' assume "health_exec m u = Some u'" "probes_ok u \<and> static (hl_router u) = static (hl_router s0)"
    then show "(probes_ok u' \<and> static (hl_router u') = static (hl_router s0)) \<and> (going_down i u' \<longrightarrow> going_down i u \<or> at_threshold i u)"
      using health_exec_probes health_exec_static going_down_step i staticD(2) by metis
  qed (rule assms(2))
  then show ?thesis
    using keep staticD(1) start_health_fresh(1) [OF assms(1)] unfolding at_threshold_def by metis
qed

subsection \<open>A probe that runs alone\<close>







subsection \<open>The life of the loop\<close>

definition life_inv :: "health_move list \<Rightarrow> health_loop \<Rightarrow> bool" where
  "life_inv ms s \<longleftrightarrow>
     (hl_panic s \<longleftrightarrow> Begin \<in> set ms \<and> HealthInterval (r_cfg (hl_router s)) \<le> 0 \<or> 2 \<le> count_list ms CloseCall)
     \<and> (if hl_stop s then 1 \<le> count_list ms CloseCall else count_list ms CloseCall = 0)
     \<and> (hl_done s \<longrightarrow> hl_stop s) \<and> (hl_pc s = Returned \<longrightarrow> hl_done s)
     \<and> (hl_pc s = Starting \<longrightarrow> hl_panic s \<or> Begin \<notin> set ms) \<and> (hl_pc s \<noteq> Starting \<longrightarrow> Begin \<in> set ms)
     \<and> count_list ms Begin \<le> 1 \<and> count_list ms TickCase + (if hl_tick s then 1 else 0) \<le> count_list ms Fires"

lemma life_step:
  assumes m: "health_exec m s = Some s'" and np: "\<not> hl_panic s" and l: "life_inv ms s"
  shows "life_inv (ms @ [m]) s'"
proof -
  have cfg: "r_cfg (hl_router s') = r_cfg (hl_router s)" by (rule staticD(1) [OF health_exec_static [OF m]])
  have close: "count_list ms CloseCall = (if hl_stop s then 1 else 0)" "hl_done s \<Longrightarrow> hl_stop s"
      "hl_pc s = Returned \<Longrightarrow> hl_done s"
    and begin_iff: "Begin \<in> set ms \<longleftrightarrow> hl_pc s \<noteq> Starting" "count_list ms Begin \<le> 1"
      "hl_pc s \<noteq> Starting \<Longrightarrow> 0 < HealthInterval (r_cfg (hl_router s))"
    and tick: "count_list ms TickCase + (if hl_tick s then 1 else 0) \<le> count_list ms Fires"
    using np l by (auto simp: life_inv_def split: if_splits)
  have b: "count_list ms Begin = 0" if "hl_pc s = Starting"
    using begin_iff(1) that by (simp add: count_list_0_iff)
  show ?thesis
    by (insert m np close begin_iff tick cfg b, cases m; auto simp: life_inv_def check_all_def close_router_def Let_def split: if_splits prod.splits)
qed

lemma concat_replicate_Suc: "concat (replicate (Suc k) xs) = concat (replicate k xs) @ xs"
  by (induction k) simp_all

text \<open>C34:
  The life of the loop, in every interleaving.  The process panics exactly when the interval of
  the configuration is not positive and the loop has begun, or when \<open>Close\<close> was called twice.
  Otherwise the probes that were started are one for each backend, in their order, for the
  beginning and for every tick taken; ticks are taken at most as often as the ticker fires; the
  loop returns only after \<open>Close\<close>, and starts nothing once it has returned.
\<close>

theorem health_loop_spec:
  assumes "start_health cfg = Inr s0" "health_moves ms s0 = Some s"
  shows "(hl_panic s \<longleftrightarrow> Begin \<in> set ms \<and> HealthInterval cfg \<le> 0 \<or> 2 \<le> count_list ms CloseCall)
    \<and> (\<not> (Begin \<in> set ms \<and> HealthInterval cfg \<le> 0) \<longrightarrow>
         probed s = concat (replicate (count_list ms Begin + count_list ms TickCase) [0..<length (backends (hl_router s))]))
    \<and> count_list ms Begin \<le> 1 \<and> count_list ms TickCase \<le> count_list ms Fires
    \<and> (hl_pc s = Returned \<longrightarrow> CloseCall \<in> set ms \<and> health_exec TickCase s = None)"
proof -
  let ?n = "length (backends (hl_router s0))" and ?begun = "\<lambda>ms. count_list ms Begin + count_list ms TickCase"
  have "static (hl_router s) = static (hl_router s0) \<and> life_inv ms s
    \<and> (\<not> (Begin \<in> set ms \<and> HealthInterval cfg \<le> 0) \<longrightarrow> probed s = concat (replicate (?begun ms) [0..<?n]))"
    using assms(2)
  proof (induction rule: hl.along)
    case start
    show ?case using assms(1) start_health_fresh [OF assms(1)]
      by (auto simp: start_health_def life_inv_def split: sum.splits)
  next
    case (step es t m t')
    have st: "static (hl_router t') = static (hl_router t)" by (rule health_exec_static [OF step(3)])
    have n: "length (backends (hl_router t)) = ?n" and c: "r_cfg (hl_router t) = cfg"
      using step(4) staticD(1,2) start_health_fresh(1) [OF assms(1)] by metis+
    have l: "life_inv (es @ [m]) t'" using life_step [OF step(3,2)] step(4) by blast
    have "probed t' = concat (replicate (?begun (es @ [m])) [0..<?n])"
      if iv: "\<not> (Begin \<in> set (es @ [m]) \<and> HealthInterval cfg \<le> 0)"
    proof -
      have "\<not> hl_panic t'" if "m \<in> {Begin, TickCase}"
        using step(2,3) that iv c by (auto simp: check_all_def split: if_splits)
      then have "probed t' = probed t @ (if m \<in> {Begin, TickCase} then [0..<?n] else [])"
        using health_exec_probed [OF step(3,2)] n by auto
      moreover have "?begun (es @ [m]) = (if m \<in> {Begin, TickCase} then Suc (?begun es) else ?begun es)" by auto
      moreover have "probed t = concat (replicate (?begun es) [0..<?n])" using step(4) iv by auto
      ultimately show ?thesis
        by (cases "m \<in> {Begin, TickCase}")
           (simp_all only: concat_replicate_Suc append_Nil2 simp_thms if_True if_False)
    qed
    then show ?case using step(4) st l by simp
  qed
  moreover from this have "r_cfg (hl_router s) = cfg" "length (backends (hl_router s)) = ?n"
    using staticD(1,2) start_health_fresh(1) [OF assms(1)] by metis+
  moreover from calculation have "CloseCall \<in> set ms" if "hl_pc s = Returned"
    using that count_list_0_iff [of ms CloseCall] by (auto simp: life_inv_def)
  ultimately show ?thesis by (auto simp: life_inv_def)
qed

subsection \<open>When a backend comes back\<close>

text \<open>
  The probe \<open>k\<close> of the backend \<open>i\<close> has got a good answer; the other probes of that backend
  wait for theirs or have finished.
\<close>

definition only_probe :: "nat \<Rightarrow> nat \<Rightarrow> health_loop \<Rightarrow> bool" where
  "only_probe i k s \<longleftrightarrow> (\<forall>j < length (hl_probes s).
     j \<noteq> k \<longrightarrow> fst (hl_probes s ! j) = i \<longrightarrow> snd (hl_probes s ! j) \<in> {Waiting, Finished})"

definition coming_up :: "nat \<Rightarrow> probe_pc \<Rightarrow> router \<Rightarrow> bool" where
  "coming_up i pc r \<longleftrightarrow> pc \<in> {Reset, LoadForUp, StoreUp, GaugeUp, Finished}
     \<and> (pc \<in> {GaugeUp, Finished} \<longrightarrow> healthy (backends r ! i))
     \<and> (pc = Finished \<longrightarrow> BackendUp r (Name (backends r ! i)) = Some 1)"

lemma gauge_simps [simp]:
  "BackendUp (upd_backend i f r) = BackendUp r"
  "BackendUp (count_error n k r) = BackendUp r"
  "BackendUp (set_up n v r) = (BackendUp r)(n := Some v)"
  by (simp_all add: upd_backend_def count_error_def set_up_def)

lemma coming_up_own:
  assumes "record_step i pc r = (pc', r')" "coming_up i pc r" "i < length (backends r)" "pc \<noteq> Finished"
  shows "coming_up i pc' r' \<and> Suc (steps_left pc') \<le> steps_left pc"
  by (insert assms, cases pc; auto simp: coming_up_def split: if_splits)

lemma coming_up_other:
  assumes "record_step j pc r = (pc', r')" "coming_up i p r" "i < length (backends r)" "j < length (backends r)"
    and "j \<noteq> i" "distinct (map Name (backends r))"
  shows "coming_up i p r'"
proof -
  have "Name (backends r ! j) \<noteq> Name (backends r ! i)"
    using assms(3-6) by (auto simp: distinct_conv_nth)
  then show ?thesis
    by (insert assms(1-5), cases pc; auto simp: coming_up_def split: if_splits)
qed

lemma calm_move:
  assumes "health_exec m s = Some s'" "\<And>k x. m \<noteq> ProbeStep k \<and> m \<noteq> Answered k x"
    and "coming_up i pc (hl_router s)" "i < length (backends (hl_router s))"
  shows "(\<exists>js. hl_probes s' = hl_probes s @ map (\<lambda>j. (j, Waiting)) js) \<and> coming_up i pc (hl_router s')"
proof
  show "\<exists>js. hl_probes s' = hl_probes s @ map (\<lambda>j. (j, Waiting)) js"
    using assms(1,2)
    by (cases m) (auto simp: check_all_def close_router_def intro: exI [of _ "[]"] split: if_splits)
  show "coming_up i pc (hl_router s')"
    using assms
    by (cases m) (auto simp: check_all_def close_router_def coming_up_def mark_failure_def mark_success_def
        split: if_splits)
qed

lemma only_probe_calm:
  assumes "only_probe i k s" "hl_probes s' = hl_probes s @ map (\<lambda>j. (j, Waiting)) js"
  shows "only_probe i k s'"
  unfolding only_probe_def
proof (intro allI impI)
  fix j assume j: "j < length (hl_probes s')" "j \<noteq> k" "fst (hl_probes s' ! j) = i"
  show "snd (hl_probes s' ! j) \<in> {Waiting, Finished}"
  proof (cases "j < length (hl_probes s)")
    case True
    then show ?thesis using assms j unfolding only_probe_def by (metis nth_append)
  next
    case False
    then show ?thesis using assms(2) j(1) by (simp add: nth_append)
  qed
qed

lemma coming_up_step:
  assumes m: "health_exec m s = Some s'" and ok: "probes_ok s" "i < length (backends (hl_router s))"
    and d: "distinct (map Name (backends (hl_router s)))"
    and k: "k < length (hl_probes s)" "hl_probes s ! k = (i, pc)" "coming_up i pc (hl_router s)"
    and q: "only_probe i k s" and no: "\<And>j x. m = Answered j x \<Longrightarrow> fst (hl_probes s ! j) \<noteq> i"
  shows "only_probe i k s' \<and> (\<exists>pc'. hl_probes s' ! k = (i, pc') \<and> coming_up i pc' (hl_router s')
           \<and> (if m = ProbeStep k then 1 else 0) + steps_left pc' \<le> steps_left pc)"
proof (cases m)
  case (ProbeStep j)
  obtain b p where p: "hl_probes s ! j = (b, p)" by (cases "hl_probes s ! j")
  obtain p' r' where r: "record_step b p (hl_router s) = (p', r')" by (cases "record_step b p (hl_router s)")
  have j: "j < length (hl_probes s)" "p \<noteq> Waiting" "p \<noteq> Finished"
    and s': "s' = s\<lparr>hl_router := r', hl_probes := (hl_probes s)[j := (b, p')]\<rparr>"
    using m ProbeStep p r by (auto split: if_splits)
  have b: "b < length (backends (hl_router s))" using probes_okD [OF ok(1) j(1)] p by simp
  show ?thesis
  proof (cases "j = k")
    case True
    then have "b = i" "p = pc" using p k by simp_all
    then show ?thesis
      using coming_up_own [of i pc "hl_router s" p' r'] r k ok q True j ProbeStep s'
      by (auto simp: only_probe_def)
  next
    case False
    then have "b \<noteq> i" using q j p by (auto simp: only_probe_def)
    then show ?thesis
      using coming_up_other [OF r k(3) ok(2) b] d False k q j s' ProbeStep
      by (auto simp: only_probe_def nth_list_update)
  qed
next
  case (Answered j x)
  then have "j \<noteq> k" using no k by auto
  then show ?thesis
    using m no k q Answered by (auto simp: only_probe_def nth_list_update split: if_splits)
qed (use calm_move [OF m _ k(3) ok(2)] only_probe_calm [OF q] k in \<open>fastforce simp: nth_append\<close>)+

lemma probes_stay:
  assumes "health_exec m t = Some t'" "\<not> hl_panic t"
  shows "length (hl_probes t) \<le> length (hl_probes t')"
    and "j < length (hl_probes t) \<Longrightarrow> fst (hl_probes t' ! j) = fst (hl_probes t ! j)"
proof -
  obtain ys where ys: "probed t' = probed t @ ys" using health_exec_probed [OF assms] by blast
  then show len: "length (hl_probes t) \<le> length (hl_probes t')" by (metis le_add1 length_append length_map)
  assume j: "j < length (hl_probes t)"
  have "probed t' ! j = probed t ! j" using ys j by (auto simp: nth_append)
  then show "fst (hl_probes t' ! j) = fst (hl_probes t ! j)" using j len by simp
qed

lemma static_names: "static r' = static r \<Longrightarrow> map Name (backends r') = map Name (backends r)"
  using staticD(2,3) [of r' r] by (simp add: list_eq_iff_nth_eq)

text \<open>C16:
  A successful check brings a backend back.  From a reachable state in which a probe of the
  backend has just got a good answer while no other probe of it is at work, and whatever the
  rest of the system does as long as no other probe of that backend gets its answer, the probe
  needs at most four steps of its own, is never blocked, and when it has finished the backend
  is healthy and its gauge is one.
\<close>

theorem good_check_recovers:
  assumes "start_health cfg = Inr s0" "health_moves ms0 s0 = Some s" "health_moves ms s = Some s'"
    and "distinct (map Name (backends (hl_router s)))"
    and "k < length (hl_probes s)" "hl_probes s ! k = (i, Reset)" "only_probe i k s"
    and "\<And>j x. Answered j x \<in> set ms \<Longrightarrow> j < length (hl_probes s') \<Longrightarrow> fst (hl_probes s' ! j) \<noteq> i"
  shows "\<exists>pc. hl_probes s' ! k = (i, pc) \<and> count_list ms (ProbeStep k) + steps_left pc \<le> 4
    \<and> (if pc = Finished then healthy (backends (hl_router s') ! i)
                          \<and> BackendUp (hl_router s') (Name (backends (hl_router s') ! i)) = Some 1
       else hl_panic s' \<or> health_exec (ProbeStep k) s' \<noteq> None)"
proof -
  have ok: "probes_ok s" using hl.keeps [where P = probes_ok, OF assms(2) start_health_fresh(2) [OF assms(1)]] health_exec_probes by blast
  have i: "i < length (backends (hl_router s))" using probes_okD [OF ok assms(5)] assms(6) by simp
  let ?no = "\<lambda>ms t. \<forall>j x. Answered j x \<in> set ms \<longrightarrow> j < length (hl_probes t) \<longrightarrow> fst (hl_probes t ! j) \<noteq> i"
  have "probes_ok s' \<and> static (hl_router s') = static (hl_router s) \<and> k < length (hl_probes s') \<and>
     (?no ms s' \<longrightarrow> only_probe i k s' \<and> (\<exists>pc. hl_probes s' ! k = (i, pc) \<and> coming_up i pc (hl_router s')
       \<and> count_list ms (ProbeStep k) + steps_left pc \<le> 4))"
    using assms(3)
  proof (induction rule: hl.along)
    case (step es t m t')
    note keep = health_exec_static [OF step(3)] health_exec_probes [OF step(3)]
    note pre = probes_stay [OF step(3,2)]
    have i': "i < length (backends (hl_router t))" and d': "distinct (map Name (backends (hl_router t)))"
      using step(4) i static_names assms(4) staticD(2) by metis+
    have "only_probe i k t' \<and> (\<exists>pc. hl_probes t' ! k = (i, pc) \<and> coming_up i pc (hl_router t')
        \<and> count_list (es @ [m]) (ProbeStep k) + steps_left pc \<le> 4)" if no: "?no (es @ [m]) t'"
    proof -
      have early: "fst (hl_probes t ! j) \<noteq> i" if "Answered j x \<in> set (es @ [m])" "j < length (hl_probes t)" for j x
        using no that pre by (metis order_less_le_trans)
      then have "?no es t" by (metis UnI1 set_append)
      then obtain pc where pc: "hl_probes t ! k = (i, pc)" "coming_up i pc (hl_router t)"
        "count_list es (ProbeStep k) + steps_left pc \<le> 4" "only_probe i k t" using step(4) by blast
      have "fst (hl_probes t ! j) \<noteq> i" if "m = Answered j x" for j x
      proof -
        have "j < length (hl_probes t)" using step(3) that by (auto split: if_splits)
        then show ?thesis using early [of j x] that by simp
      qed
      then obtain pc' where "only_probe i k t'" "hl_probes t' ! k = (i, pc')" "coming_up i pc' (hl_router t')"
        "(if m = ProbeStep k then 1 else 0) + steps_left pc' \<le> steps_left pc"
        using coming_up_step [OF step(3) _ i' d' _ pc(1,2,4)] step(4) by blast
      moreover have "count_list (es @ [m]) (ProbeStep k) =
          count_list es (ProbeStep k) + (if m = ProbeStep k then 1 else 0)" by simp
      ultimately show ?thesis using pc(3) by (intro conjI exI [of _ pc']) simp_all
    qed
    then show ?case using keep step(4) pre(1) by simp
  qed (use ok assms in \<open>auto simp: coming_up_def\<close>)
  then obtain pc where "hl_probes s' ! k = (i, pc)" "coming_up i pc (hl_router s')"
    "count_list ms (ProbeStep k) + steps_left pc \<le> 4" "k < length (hl_probes s')"
    using assms(8) by blast
  then show ?thesis
    by (intro exI [of _ pc]) (auto simp: coming_up_def split: prod.splits)
qed

text \<open>The loop over the default configuration, with one backend and a threshold of three.\<close>

definition demo_loop :: health_loop where
  "demo_loop = projr (start_health (Router default_config))"

lemmas demo_loop_eval = demo_loop_def start_health_def new_router_def new_backend_def default_config_def
  set_up_def count_error_def upd_backend_def check_all_def close_router_def probe_answer_def mark_failure_def
  mark_success_def go_quot_def

lemma demo_loop_start: "start_health (Router default_config) = Inr demo_loop"
  by (simp add: demo_loop_eval)


text \<open>Two failed requests and a failed probe: the backend goes down.\<close>

definition demo_down :: "health_move list" where
  "demo_down = [Begin, RequestFailed 0 0, RequestFailed 0 0, Answered 0 (Answer 500 []),
     ProbeStep 0, ProbeStep 0, ProbeStep 0, ProbeStep 0]"

lemma down_only_at_threshold_witness:
  "\<exists>s n t. health_moves demo_down demo_loop = Some s \<and> \<not> healthy (backends (hl_router s) ! 0)
     \<and> n < 8 \<and> health_moves (take n demo_down) demo_loop = Some t \<and> 3 \<le> failures (backends (hl_router t) ! 0)"
proof -
  obtain s where s: "health_moves demo_down demo_loop = Some s" "0 < length (backends (hl_router s))"
    "\<not> healthy (backends (hl_router s) ! 0)"
    by (simp add: demo_loop_eval demo_down_def)
  have "length demo_down = 8" "FailureThreshold (Router default_config) = 3"
    by (simp_all add: demo_down_def default_config_def)
  then show ?thesis
    using down_only_at_threshold [OF demo_loop_start s] s(1,3) by auto
qed

text \<open>The loop begins, ticks once, and is closed.\<close>

definition demo_life :: "health_move list" where
  "demo_life = [Begin, Fires, TickCase, CloseCall, CancelCall, DoneCase]"

lemma health_loop_spec_witness:
  "\<exists>s. health_moves demo_life demo_loop = Some s \<and> hl_pc s = Returned \<and> \<not> hl_panic s
     \<and> probed s = [0, 0] \<and> health_exec TickCase s = None"
proof -
  obtain s where s: "health_moves demo_life demo_loop = Some s" "hl_pc s = Returned"
    "length (backends (hl_router s)) = 1"
    by (simp add: demo_loop_eval demo_life_def)
  have c: "0 < HealthInterval (Router default_config)" "CloseCall \<in> set demo_life"
    "count_list demo_life CloseCall = 1" "count_list demo_life Begin + count_list demo_life TickCase = 2"
    by (simp_all add: default_config_def demo_life_def)
  show ?thesis
    using health_loop_spec [OF demo_loop_start s(1)] s c by (auto simp: numeral_2_eq_2)
qed

text \<open>A backend that is down gets a good answer.\<close>

definition demo_answer :: "health_move list" where
  "demo_answer = demo_down @ [ProbeStep 0, ProbeStep 0, Fires, TickCase, Answered 1 (Answer 200 [])]"

lemma good_check_recovers_witness:
  "\<exists>s s'. health_moves demo_answer demo_loop = Some s \<and> \<not> healthy (backends (hl_router s) ! 0)
     \<and> health_moves [ProbeStep 1, RequestFailed 0 0, ProbeStep 1, ProbeStep 1, ProbeStep 1] s = Some s'
     \<and> healthy (backends (hl_router s') ! 0)"
proof -
  let ?ms = "[ProbeStep 1, RequestFailed 0 0, ProbeStep 1, ProbeStep 1, ProbeStep 1]"
  obtain s s' where s: "health_moves demo_answer demo_loop = Some s" "health_moves ?ms s = Some s'"
    "\<not> healthy (backends (hl_router s) ! 0)" "length (backends (hl_router s)) = 1"
    "hl_probes s = [(0, Finished), (0, Reset)]" "hl_probes s' = [(0, Finished), (0, Finished)]"
    by (simp add: demo_loop_eval demo_answer_def demo_down_def)
  have "distinct (map Name (backends (hl_router s)))" "only_probe 0 1 s"
    using s(4,5) by (auto simp: distinct_conv_nth only_probe_def less_Suc_eq)
  then have "healthy (backends (hl_router s') ! 0)"
    using good_check_recovers [OF demo_loop_start s(1,2), of 1 0] s(5,6) by auto
  then show ?thesis using s by blast
qed

text \<open>
  The comment before \<open>healthLoop\<close> says that a single successful check brings a backend back.
  Not when an older probe is still under way: it has found the failures at the threshold,
  then the successful check resets them and finishes, then the older probe stores that the
  backend is down.  The backend stays down, without a failure on record, until the next tick.
\<close>

lemma good_check_overwritten:
  "\<exists>s. health_moves ([Begin, Fires, TickCase, RequestFailed 0 0, RequestFailed 0 0, Answered 0 (Answer 500 []),
        ProbeStep 0, ProbeStep 0, ProbeStep 0, Answered 1 (Answer 200 []), ProbeStep 1, ProbeStep 1, ProbeStep 1]
        @ [ProbeStep 0, ProbeStep 0, ProbeStep 0]) demo_loop = Some s
     \<and> hl_probes s = [(0, Finished), (0, Finished)]
     \<and> failures (backends (hl_router s) ! 0) = 0 \<and> \<not> healthy (backends (hl_router s) ! 0)"
  by (simp add: demo_loop_eval)


end
