(* ===== verification/Spec2Isabelle.thy ===== *)
theory Spec2Isabelle
  imports Velo_Main End_To_End Metrics Health
begin

text \<open>
  Velo is a gateway in front of servers of language models.  A chat request passes the key
  check, the rate limiter of its key and the semantic cache; if the cache has no answer, the
  scheduler batches the request with others and a worker sends it through the router, which
  chooses a backend and retries on another one when that fails; the answer goes back to the
  client and into the cache.  This development models these parts from the Go source and
  proves what makes each of them correct.

  \<^bold>\<open>The theories.\<close>

  \<^item> \<open>Go_Float\<close>: \<open>float64\<close> and \<open>float32\<close> as rationals with rounding to nearest even; the locale
    \<open>rounding\<close> states what the error analyses use, interpreted by both formats.
  \<^item> \<open>Go_Prelude\<close>: 64-bit integers with wrap-around, truncating division, time; the locale
    \<open>runs\<close> of a machine and its runs, interpreted by the scheduler and the health loop.  \<open>Go_Strings\<close>:
    the functions of \<open>strings\<close>, \<open>strconv\<close> and \<open>time\<close> that the program calls.
  \<^item> \<open>Rate_Limit\<close> (\<open>internal/ratelimit\<close>): \<open>Config.effective\<close>, the in-memory token bucket
    \<open>MemoryLimiter.Allow\<close>, the Lua script \<open>allowScript\<close> on a Redis database with expiry, and
    \<open>RedisLimiter.Allow\<close> with its fallback.  Both buckets refine the abstract bucket
    \<open>bucket_step\<close>; the locale \<open>bucket_clock\<close> proves its bounds once for the two clocks.
  \<^item> \<open>Config\<close> (\<open>internal/config\<close>): the records, \<open>Default\<close>, \<open>Load\<close>, \<open>applyEnv\<close> and its parsers.
  \<^item> \<open>Router\<close> (\<open>internal/router\<close>): backends, the choice of a backend (\<open>pick\<close>, \<open>weightedPick\<close>),
    one exchange (\<open>doOnce\<close> as \<open>do_begin\<close> and \<open>do_end\<close>), the retry loop \<open>Do\<close>, the counting body,
    and the health records (\<open>checkOne\<close>, \<open>recordHealth\<close>).  The relation \<open>pool_step\<close> interleaves
    the goroutines that share a router.  \<open>Health\<close>: the health loop with its ticker, the probes
    of \<open>checkAll\<close> and \<open>Close\<close>, with \<open>recordHealth\<close> cut into the steps between which another
    goroutine may run; the probes of a tick refine the atomic \<open>checkOne\<close>.
  \<^item> \<open>Scheduler\<close> (\<open>internal/scheduler\<close>): \<open>New\<close>, \<open>Submit\<close>, the cases of the batcher's \<open>select\<close>,
    the timer, the workers and the shutdown, as a state machine \<open>exec\<close> whose events are the
    steps of the goroutines; \<open>reachable\<close> are its states.
  \<^item> \<open>Embedder\<close> and \<open>Cache\<close> (\<open>internal/cache\<close>): the tokenizer, FNV-1a, the hashed and normalised
    vector and the dot product in floating point; the cache over the interface \<open>Store\<close>, whose
    contract is the locale \<open>vector_store\<close>, interpreted by the in-memory store.
  \<^item> \<open>Go_Json\<close> (\<open>encoding/json\<close> as the program uses it): a parser with the nesting limit of
    Go, the case-insensitive choice of a field, decoding into the structs of the program, and
    the printers of strings, numbers and objects; printing and parsing are inverse.
    \<open>Go_Text\<close>: the words of \<open>strings.Fields\<close> and valid UTF-8.
  \<^item> \<open>Openai_Embedder\<close> and \<open>Pgvector\<close> (\<open>internal/cache\<close>): the request, the checks of the answer
    and the normalisation of \<open>OpenAIEmbedder.Embed\<close>; the statements of the pgvector store
    against a server of PostgreSQL that meets \<open>pg_behaves\<close>.
  \<^item> \<open>Sse\<close> and \<open>Gateway\<close> (\<open>internal/gateway\<close>): the streaming proxy and the replay of a cached
    answer; the key check, the decoded request and the pipeline of \<open>chatHandler\<close>, with every
    reply and every change of the limiter, the cache and the counters.  \<open>Server\<close>: the routes
    and the chain of middlewares of \<open>Routes\<close>, and what a request of any path gets.
    \<open>Metrics\<close> (\<open>internal/metrics\<close>): the collectors, their labels, and the calls that set them.
  \<^item> \<open>Velo_Main\<close> (\<open>cmd/velo\<close>): the flags, \<open>buildLimiter\<close>, \<open>buildEmbedder\<close>, \<open>buildCache\<close> with its
    retries, and \<open>serveCmd\<close> up to the running server or the error it returns.
  \<^item> \<open>Mock_Backend\<close> (\<open>cmd/mock-backend\<close>): the tokens of an answer, the plain and the streamed
    reply, the counters as a state machine of concurrent requests.  \<open>Load_Generator\<close>
    (\<open>bench/cmd/load\<close>): the prompts, the request it sends, the stream it reads, its workers and
    percentiles.  \<open>End_To_End\<close> composes the request of the load generator, the mock backend,
    the gateway's stream, the cache's replay and the load generator's reader.

  \<^bold>\<open>State and concurrency.\<close>  A mutable object is a record, passed and returned; a pointer is
  an index (backends, jobs).  What a mutex or an atomic makes indivisible is one step.  In the
  router, other goroutines may run before each choice and during each exchange: they are
  functions on the router that keep its configuration and the backends' names, URLs and
  weights.  In the scheduler every interleaving is a run of events.  A select with several
  ready cases is nondeterministic; a draw of \<open>rand.Intn\<close> is an arbitrary number in its range.
  Metrics that a component feeds are fields of its state when they count something the
  properties speak of; gauges that are set from a length are set in the same step.

  \<^bold>\<open>Errors and panics\<close> are values: sums, options, and results such as \<open>PickPanic\<close>, \<open>DoPanic\<close>
  and the flag \<open>panicked\<close> of the scheduler for closing a channel twice.

  \<^bold>\<open>Numbers.\<close>  Configuration values and the round-robin index are 64-bit integers with
  wrap-around.  Counters that grow by one (failures, requests in flight, metrics) are
  unbounded: they would need \<open>2^63\<close> events to wrap.  Times are nanoseconds.  Hashes are
  words of 64 bits.  Bounds in hypotheses, such as bursts up to \<open>2^53\<close> or, for the comparison
  of two prompts, \<open>2^24\<close> tokens, are where floating point stops being exact; a request body
  is at most \<open>2^20\<close> bytes.

  \<^bold>\<open>Termination.\<close>  Loops are structural or have a measure (the rest of the input, the attempts
  left); no fuel is used.  The JSON parser keeps its stack, of at most \<open>max_nesting\<close> frames,
  where Go's decoder reports an error as well.  The
  batcher's endless loop is the state machine, and the theorem on \<open>Stop\<close> gives the measure
  under which it ends.

  \<^bold>\<open>What the lemmas show.\<close>  The limiter: at most burst plus rate times elapsed time, for the
  bucket, the script and, end to end, the requests the handler lets through; isolation of
  keys, no starvation.  The router: soundness of the choice, fairness, the outcome of a
  request with failover, the in-flight ledger, exactly when a backend is down; for the health
  loop, that only the threshold takes a backend down, that a good check brings it back, and
  when the loop panics or ends.  The
  scheduler: first in first out with nothing lost, bounds, the wait window, one close per
  job, shutdown.  The cache: exact nearest neighbour with expiry, eviction of the oldest,
  a hit for every exact repeat with all roundings.  The gateway: authentication, the order
  and effects of the pipeline, transparency of the stream.  The command: the server starts
  unless one of the listed errors is returned, and which stores and embedders it runs with.
  End to end: the load generator counts the tokens that the mock backend sent, through the
  proxy and through the cache.  Some lemmas show where the code falls short of its comments:
  \<open>redis_clock_skew\<close>, \<open>round_robin_overflow\<close>, \<open>batch_mixes_models\<close>, \<open>hit_of_another_model\<close>,
  \<open>broken_stream_is_cached\<close>, \<open>good_check_overwritten\<close>.

  \<^bold>\<open>Parameters.\<close>  The outcome of an HTTP exchange, the reply of Redis, the PostgreSQL server
  (with \<open>pg_behaves\<close>, the documented meaning of the statements), the matching of paths by the
  router library (with \<open>chi_routes\<close>), the YAML library, \<open>ParseFloat\<close>, file reads, environment
  variables, clock readings and random draws are arguments.

  \<^bold>\<open>Not modelled.\<close>  Contexts that expire, the buckets of the histograms, headers and flushes
  of replies other than those the properties speak of, signals, logging, and the closing of
  the clients of Redis and PostgreSQL.
\<close>

end
